(* ===== verification/Dsio_Prelude.thy ===== *)
theory Dsio_Prelude
  imports Main "HOL-Library.Word" "HOL-Library.Monad_Syntax"
begin

text \<open>
  What the components share: the machine types, the error values, the outcome type, byte lists
  with windows and in-place writes, and the lemmas that move 64-bit arithmetic to \<open>nat\<close>.

  A value that the C++ code computes with as \<open>std::uint64_t\<close> or \<open>std::size_t\<close> (offsets,
  lengths of windows, alignments, options) is a \<open>64 word\<close>, so that its arithmetic wraps as
  the code's does. A count of bytes that lie in memory (the size of a span, of a vector, the
  number of bytes a system call moved) is the length of a list, a \<open>nat\<close>; \<open>unat\<close> and
  \<open>of_nat\<close> convert where the code mixes the two.

  An operation that may not return has an \<open>option\<close> result. \<open>None\<close> stands for every way in
  which the C++ call produces no value: a loop that never ends, a division by zero, an access
  outside an object. A theorem that the result is \<open>Some\<close> excludes all of them.
\<close>

section \<open>Types\<close>

type_synonym byte = "8 word"
type_synonym u32 = "32 word"
type_synonym u64 = "64 word"
type_synonym errno = int

definition EINTR :: errno where "EINTR = 4"
definition EIO :: errno where "EIO = 5"
definition EAGAIN :: errno where "EAGAIN = 11"

text \<open>
  The errors of the library: for each source file a datatype with one constructor for each message
  that the file builds, holding the values the message mentions. An \<open>errno\<close> argument is the
  \<open>std::error_code\<close> of the error.
\<close>

datatype align_error =
    BlockSizeCannotOpen string errno
  | BlockSizeCannotStatfs string errno

datatype file_error =
    FileOp string string errno \<comment> \<open>\<open>file_error (operation, path, code)\<close>\<close>
  | FileClosed string \<comment> \<open>\<open>closed_error (operation)\<close>\<close>
  | FileCannotOpen string errno

datatype reader_error =
    ReaderMisaligned u64 u64
  | ReaderPastEnd u64 u64
  | ReaderAlloc string

datatype sink_error =
    SinkNoDevice
  | SinkTooSmall nat u64
  | NoDeviceBackend

datatype mmap_error =
    MmapOp string string errno \<comment> \<open>\<open>mmap_error (what, path, code)\<close>\<close>
  | MmapMisaligned string u64
  | MmapPastEnd string u64 u64
  | MmapWindow string u64 u64
  | AdvisePastEnd
  | AdviseMisaligned
  | AdviseFailed errno

datatype load_problem =
    CannotOpenManifest
  | ExpectedThreeFields nat
  | EmptyPath nat
  | NotDecimal nat
  | ZeroLength nat
  | MisalignedOffset nat u64 u64
  | EndOverflows nat
  | ReadFailed

datatype shard_error =
    LoadError string load_problem \<comment> \<open>\<open>load_error (manifest, message)\<close>\<close>
  | NotADirectory string
  | CannotReadDirectory string
  | CannotStat string
  | CannotWriteManifest string
  | TabOrNewline string
  | WriteFailed string

datatype backend_error =
    QueueFull string errno
  | QueueDepthZero string
  | AllocationFailed string
  | ThreadsRefused string
  | RingError string errno
  | SubmissionQueueFull
  | RingInitFailed errno

datatype batch_error =
    BatchBytesZero
  | PrefetchZero
  | ReadDepthZero
  | BufferAlloc string
  | ReapedNothing
  | UnknownCompletion
  | ReadErrno errno

datatype error =
    AlignError align_error
  | FileError file_error
  | ReaderError reader_error
  | SinkError sink_error
  | MmapError mmap_error
  | ShardError shard_error
  | BackendError backend_error
  | BatchError batch_error

text \<open>\<open>fp::Outcome\<close>: an error or a value.\<close>

type_synonym 'a outcome = "error + 'a"

section \<open>Collections of facts\<close>

named_theorems u64_nat \<open>64-bit arithmetic read as arithmetic on nat\<close>
named_theorems bytes_simps \<open>windows of byte lists and in-place writes\<close>

section \<open>64-bit arithmetic\<close>

lemma unat_u64_less [simp]: "unat (x :: u64) < 18446744073709551616"
  using unsigned_less [where 'a = nat, of x] by simp

lemma unat_minus_u64 [u64_nat]: "b \<le> a \<Longrightarrow> unat (a - b) = unat a - unat (b :: u64)"
  by (rule unat_sub)

lemma unat_plus_u64 [u64_nat]:
  "unat a + unat b < 18446744073709551616 \<Longrightarrow> unat (a + b) = unat a + unat (b :: u64)"
  using unat_add_lem [of a b] by simp

lemma unat_of_nat_u64 [u64_nat]: "n < 18446744073709551616 \<Longrightarrow> unat (of_nat n :: u64) = n"
  by (simp add: unat_of_nat)

lemma unat_mod_u64 [u64_nat]: "unat (a mod b) = unat a mod unat (b :: u64)"
  by (rule unat_mod)

lemma unat_min_u64 [u64_nat]: "unat (min a b) = min (unat a) (unat (b :: u64))"
  by (simp add: min_def word_le_nat_alt)

lemma unat_max_u64 [u64_nat]: "unat (max a b) = max (unat a) (unat (b :: u64))"
  by (simp add: max_def word_le_nat_alt)

lemma unat_minus_mod_u64 [u64_nat]:
  "unat (a - a mod b) = unat a - unat a mod unat (b :: u64)"
proof -
  have "a mod b \<le> a"
    by (simp add: word_le_nat_alt unat_mod)
  then show ?thesis by (simp add: unat_sub unat_mod)
qed

lemma u64_le_nat: "(a :: u64) \<le> b \<longleftrightarrow> unat a \<le> unat b"
  by (rule word_le_nat_alt)

lemma u64_less_nat: "(a :: u64) < b \<longleftrightarrow> unat a < unat b"
  by (rule word_less_nat_alt)

lemma u64_eq_nat: "(a :: u64) = b \<longleftrightarrow> unat a = unat b"
  by (rule word_unat_eq_iff)

lemma of_nat_u64_inj:
  "i < 18446744073709551616 \<Longrightarrow> j < 18446744073709551616 \<Longrightarrow>
   (of_nat i :: u64) = of_nat j \<longleftrightarrow> i = j"
  by (metis unat_of_nat_u64)

text \<open>The cast to a signed 64-bit integer.\<close>

lemma uint_u64: "uint (x :: u64) = int (unat x)"
  by simp

lemma sint_u64_small:
  assumes "unat (x::u64) < 2 ^ 63"
  shows "sint x = int (unat x)"
proof -
  from assms have "int (unat x) < int (2 ^ 63)" by (simp only: of_nat_less_iff)
  then have "int (unat x) < 2 ^ 63" by simp
  then have "signed_take_bit 63 (int (unat x)) = int (unat x)"
    by (intro signed_take_bit_int_eq_self) linarith+
  then show ?thesis by (simp add: sint_uint)
qed

lemma sint_u64_nonneg: "0 \<le> sint (x::u64) \<longleftrightarrow> unat x < 2 ^ 63"
proof
  assume "0 \<le> sint x"
  then have "\<not> bit (int (unat x)) 63"
    unfolding sint_uint uint_u64 by (simp add: signed_take_bit_nonnegative_iff)
  then have "\<not> bit (unat x) 63" by (simp only: bit_of_nat_iff_bit simp_thms)
  then have "even (unat x div 2 ^ 63)" by (simp only: bit_iff_odd simp_thms)
  moreover have "unat x div 2 ^ 63 < 2"
    using unat_u64_less [of x] by (intro less_mult_imp_div_less) simp
  ultimately have "unat x div 2 ^ 63 = 0" by (metis less_2_cases odd_one One_nat_def)
  then show "unat x < 2 ^ 63" by (simp add: div_eq_0_iff)
next
  assume "unat x < 2 ^ 63"
  then show "0 \<le> sint x" by (simp add: sint_u64_small)
qed
section \<open>Windows and in-place writes\<close>

text \<open>The bytes of \<open>xs\<close> in \<open>[off, off + len)\<close>, fewer where \<open>xs\<close> ends before.\<close>

definition window :: "nat \<Rightarrow> nat \<Rightarrow> 'a list \<Rightarrow> 'a list" where
  "window off len xs = take len (drop off xs)"

text \<open>\<open>std::copy_n\<close> into an object: \<open>bs\<close> replaces the elements from \<open>pos\<close> on.\<close>

definition overwrite :: "nat \<Rightarrow> 'a list \<Rightarrow> 'a list \<Rightarrow> 'a list" where
  "overwrite pos bs xs = take pos xs @ bs @ drop (pos + length bs) xs"

lemma length_window [bytes_simps]: "length (window off len xs) = min len (length xs - off)"
  by (simp add: window_def min.commute)

lemma window_0 [bytes_simps]: "window off 0 xs = []"
  by (simp add: window_def)

lemma window_past_end [bytes_simps]: "length xs \<le> off \<Longrightarrow> window off len xs = []"
  by (simp add: window_def)

lemma window_append:
  "window off (m + n) xs = window off m xs @ window (off + m) n xs"
  by (simp add: window_def take_add add.commute)

lemma window_split:
  "m \<le> n \<Longrightarrow> window off n xs = window off m xs @ window (off + m) (n - m) xs"
  using window_append [of off m "n - m" xs] by simp

lemma take_window [bytes_simps]: "take k (window off len xs) = window off (min k len) xs"
  by (simp add: window_def)

lemma drop_window [bytes_simps]: "drop k (window off len xs) = window (off + k) (len - k) xs"
  by (simp add: window_def drop_take add.commute)

lemma window_whole [bytes_simps]: "length xs \<le> n \<Longrightarrow> window 0 n xs = xs"
  by (simp add: window_def)

lemma window_Nil_iff: "window off len xs = [] \<longleftrightarrow> len = 0 \<or> length xs \<le> off"
  by (auto simp: window_def)

lemma length_overwrite [bytes_simps]:
  "pos + length bs \<le> length xs \<Longrightarrow> length (overwrite pos bs xs) = length xs"
  by (simp add: overwrite_def)

lemma take_overwrite [bytes_simps]:
  "pos \<le> length xs \<Longrightarrow> take (pos + length bs) (overwrite pos bs xs) = take pos xs @ bs"
  by (simp add: overwrite_def)

lemma drop_overwrite [bytes_simps]:
  "pos \<le> length xs \<Longrightarrow> drop (pos + length bs) (overwrite pos bs xs) = drop (pos + length bs) xs"
  by (simp add: overwrite_def)

lemma take_overwrite_before [bytes_simps]:
  "pos \<le> length xs \<Longrightarrow> k \<le> pos \<Longrightarrow> take k (overwrite pos bs xs) = take k xs"
  by (simp add: overwrite_def min_def)

lemma overwrite_Nil [bytes_simps]: "overwrite pos [] xs = xs"
  by (simp add: overwrite_def)

lemma overwrite_overwrite:
  "pos \<le> length xs \<Longrightarrow> length as = n \<Longrightarrow>
   overwrite (pos + n) bs (overwrite pos as xs) = overwrite pos (as @ bs) xs"
  by (auto simp: overwrite_def ac_simps)

section \<open>Cutting into pieces\<close>

text \<open>A list cut into pieces of \<open>n\<close> elements: all of the same size but the last.\<close>

function chunks :: "nat \<Rightarrow> 'a list \<Rightarrow> 'a list list" where
  "chunks n xs = (if n = 0 \<or> xs = [] then [] else take n xs # chunks n (drop n xs))"
  by pat_completeness auto

termination chunks
  by (relation "measure (\<lambda>(n, xs). length xs)") auto

declare chunks.simps [simp del]

lemma chunks_Nil [simp]: "chunks n [] = []"
  by (simp add: chunks.simps)

lemma chunks_next: "0 < n \<Longrightarrow> xs \<noteq> [] \<Longrightarrow> chunks n xs = take n xs # chunks n (drop n xs)"
  by (simp add: chunks.simps)

lemma concat_chunks: "0 < n \<Longrightarrow> concat (chunks n xs) = xs"
  by (induction n xs rule: chunks.induct) (subst chunks.simps, auto)

lemma chunks_sizes:
  "ys @ [c] = chunks n xs \<Longrightarrow> list_all (\<lambda>y. length y = n) ys \<and> 0 < length c \<and> length c \<le> n"
proof (induction n xs arbitrary: ys rule: chunks.induct)
  case (1 n xs)
  then have more: "0 < n" "xs \<noteq> []" by (auto simp: chunks.simps split: if_splits)
  with 1(2) have eq: "ys @ [c] = take n xs # chunks n (drop n xs)" by (simp add: chunks_next)
  show ?case
  proof (cases ys)
    case Nil
    with eq more show ?thesis by simp
  next
    case (Cons y ys')
    with eq have "y = take n xs" "ys' @ [c] = chunks n (drop n xs)" by auto
    with 1(1) more have "list_all (\<lambda>y. length y = n) ys' \<and> 0 < length c \<and> length c \<le> n" by auto
    moreover have "drop n xs \<noteq> []" using \<open>ys' @ [c] = chunks n (drop n xs)\<close> by (auto simp: chunks.simps)
    then have "length y = n" using \<open>y = take n xs\<close> by simp
    ultimately show ?thesis using Cons by simp
  qed
qed

lemma chunks_append_sizes:
  assumes "ys @ y # zs = chunks n xs"
  shows "length y \<le> n \<and> (zs \<noteq> [] \<longrightarrow> length y = n)"
proof (cases zs rule: rev_cases)
  case Nil
  with chunks_sizes [of ys y n xs] assms show ?thesis by simp
next
  case (snoc zs' z)
  with assms have "(ys @ y # zs') @ [z] = chunks n xs" by simp
  from chunks_sizes [OF this] show ?thesis by simp
qed

lemma chunks_nonempty: "ys \<in> set (chunks n xs) \<Longrightarrow> 0 < length ys"
  by (induction n xs rule: chunks.induct) (subst (asm) (2) chunks.simps, auto split: if_splits)

section \<open>Options and sums\<close>

lemma bind_eq_SomeE:
  assumes "Option.bind m f = Some y"
  obtains x where "m = Some x" and "f x = Some y"
  using assms by (cases m) auto

end
