(* ===== verification/Outside.thy ===== *)
theory Outside
  imports Dsio_Prelude
begin

text \<open>
  What the library calls and does not implement: the system calls, the ForgeFP allocator and
  thread pool. They are a parameter of the model, a record \<open>'w sys\<close> of functions over an
  abstract state \<open>'w\<close> of the world, which every operation receives and returns. The second half
  states the documented behaviour of these functions as predicates, relative to a \<open>'w view\<close>: what
  the descriptors that are open in a world stand for. Properties that need such behaviour name it
  as a hypothesis.
\<close>

section \<open>The calls\<close>

datatype open_flag = O_RDONLY | O_RDWR | O_CREAT | O_TRUNC | O_DIRECT | O_CLOEXEC

text \<open>The result of a system call: its value, or \<open>-1\<close> and the \<open>errno\<close>.\<close>

datatype 'a sysret = Ret 'a | Errno errno

fun interrupted :: "'a sysret \<Rightarrow> bool" where
  "interrupted (Errno e) = (e = EINTR)"
| "interrupted (Ret _) = False"

text \<open>
  A \<open>std::span<std::byte>\<close>: the address of its first byte and the bytes it views. An operation
  that writes through a span returns the span with the new bytes. An \<open>fp::AlignedBuffer\<close> is the
  span of its whole block.
\<close>

record span =
  sp_addr :: u64
  sp_bytes :: "byte list"

definition span_size :: "span \<Rightarrow> nat" where
  "span_size s = length (sp_bytes s)"

text \<open>\<open>dst.subspan(n)\<close>, for \<open>n\<close> up to the size.\<close>

definition subspan :: "nat \<Rightarrow> span \<Rightarrow> span" where
  "subspan n s = \<lparr>sp_addr = sp_addr s + of_nat n, sp_bytes = drop n (sp_bytes s)\<rparr>"

text \<open>\<open>dst.first(n)\<close>, for \<open>n\<close> up to the size.\<close>

definition span_first :: "nat \<Rightarrow> span \<Rightarrow> span" where
  "span_first n s = s\<lparr>sp_bytes := take n (sp_bytes s)\<rparr>"

text \<open>The bytes \<open>bs\<close> stored from position \<open>pos\<close> of the span on.\<close>

definition span_store :: "nat \<Rightarrow> byte list \<Rightarrow> span \<Rightarrow> span" where
  "span_store pos bs s = s\<lparr>sp_bytes := overwrite pos bs (sp_bytes s)\<rparr>"

text \<open>
  Each field takes the arguments the C function takes (a path, a descriptor, a buffer, an
  \<open>off_t\<close>) and the world. \<open>sys_blksszget\<close> is \<open>ioctl (fd, BLKSSZGET)\<close> with the value it stores;
  \<open>sys_statfs\<close> is the \<open>f_bsize\<close> that \<open>statfs\<close> reports and \<open>sys_fstat\<close> the \<open>st_size\<close>.
  \<open>sys_pread\<close> returns the bytes that the kernel stored at the start of the buffer.
  \<open>fp_alloc size alignment\<close> is \<open>fp::AlignedBuffer::alloc\<close>. \<open>pool_start\<close> creates the threads of an
  \<open>fp::ThreadPool\<close>; \<open>pool_finish n\<close> says, while \<open>n\<close> tasks have been queued, which of them the
  workers finish before the calling thread looks next, in which order.
\<close>

datatype pool_failure = BadAlloc | SystemError string

record 'w sys =
  sys_open :: "string \<Rightarrow> open_flag list \<Rightarrow> 'w \<Rightarrow> int sysret \<times> 'w"
  sys_close :: "int \<Rightarrow> 'w \<Rightarrow> 'w"
  sys_blksszget :: "int \<Rightarrow> 'w \<Rightarrow> int sysret \<times> 'w"
  sys_statfs :: "string \<Rightarrow> 'w \<Rightarrow> int sysret \<times> 'w"
  sys_fstat :: "int \<Rightarrow> 'w \<Rightarrow> int sysret \<times> 'w"
  sys_pread :: "int \<Rightarrow> span \<Rightarrow> int \<Rightarrow> 'w \<Rightarrow> byte list sysret \<times> 'w"
  sys_pwrite :: "int \<Rightarrow> span \<Rightarrow> int \<Rightarrow> 'w \<Rightarrow> nat sysret \<times> 'w"
  sys_fsync :: "int \<Rightarrow> 'w \<Rightarrow> unit sysret \<times> 'w"
  sys_fdatasync :: "int \<Rightarrow> 'w \<Rightarrow> unit sysret \<times> 'w"
  fp_alloc :: "u64 \<Rightarrow> u64 \<Rightarrow> 'w \<Rightarrow> (string + span) \<times> 'w"
  pool_start :: "u64 \<Rightarrow> 'w \<Rightarrow> pool_failure option \<times> 'w"
  pool_finish :: "nat \<Rightarrow> 'w \<Rightarrow> nat list \<times> 'w"

text \<open>
  The file system as \<open>std::filesystem\<close> and the file streams present it. \<open>in_text\<close> is the text that an
  \<open>std::ifstream\<close> delivers, with whether a read failed after it (\<open>bad ()\<close>), or nothing when the
  file cannot be opened. \<open>out_create\<close> opens a truncating \<open>std::ofstream\<close>; \<open>out_good p text\<close> is
  whether the stream is still good after \<open>text\<close> has been inserted, and \<open>out_close p text\<close> is its
  destructor, which writes what is buffered and reports nothing. \<open>fs_relative p base\<close> and
  \<open>fs_file_size\<close> are nothing where the call sets its \<open>std::error_code\<close>.
  \<open>fs_entries d\<close> are the paths that \<open>directory_iterator\<close> yields, in its order, and
  \<open>fs_is_regular\<close> answers with whether the call set the error code.
\<close>

record 'w fs =
  in_text :: "string \<Rightarrow> 'w \<Rightarrow> (string \<times> bool) option"
  out_create :: "string \<Rightarrow> 'w \<Rightarrow> bool \<times> 'w"
  out_good :: "string \<Rightarrow> string \<Rightarrow> 'w \<Rightarrow> bool"
  out_close :: "string \<Rightarrow> string \<Rightarrow> 'w \<Rightarrow> 'w"
  fs_relative :: "string \<Rightarrow> string \<Rightarrow> 'w \<Rightarrow> string option"
  fs_absolute :: "string \<Rightarrow> 'w \<Rightarrow> string"
  fs_is_directory :: "string \<Rightarrow> 'w \<Rightarrow> bool"
  fs_entries :: "string \<Rightarrow> 'w \<Rightarrow> string list option"
  fs_is_regular :: "string \<Rightarrow> 'w \<Rightarrow> bool \<times> bool"
  fs_file_size :: "string \<Rightarrow> 'w \<Rightarrow> u64 option"

text \<open>
  \<open>do { r = call(); } while (r < 0 && errno == EINTR);\<close> --- a loop that ends when a call is not
  interrupted.
\<close>

partial_function (option) retry_eintr ::
  "('w \<Rightarrow> 'a sysret \<times> 'w) \<Rightarrow> 'w \<Rightarrow> ('a sysret \<times> 'w) option" where
  "retry_eintr call w =
     (case call w of (r, w') \<Rightarrow> if interrupted r then retry_eintr call w' else Some (r, w'))"

declare retry_eintr.simps [code]

section \<open>What the calls promise\<close>

text \<open>
  A view of the world: whether it is one that the promises are about, the content behind every
  open descriptor, the files by their paths (which nobody changes while they are read), and a
  bound on the number of signals that will still interrupt calls.
\<close>

record 'w view =
  v_good :: "'w \<Rightarrow> bool"
  v_fds :: "'w \<Rightarrow> int \<Rightarrow> byte list option"
  v_files :: "string \<Rightarrow> byte list option"
  v_signals :: "'w \<Rightarrow> nat"

text \<open>A call that leaves the descriptors alone.\<close>

definition quiet :: "'w view \<Rightarrow> 'w \<Rightarrow> 'w \<Rightarrow> bool" where
  "quiet V w w' \<longleftrightarrow> v_good V w' \<and> v_fds V w' = v_fds V w"

lemma quiet_refl [simp]: "v_good V w \<Longrightarrow> quiet V w w"
  by (simp add: quiet_def)

lemma quiet_trans: "quiet V w w1 \<Longrightarrow> quiet V w1 w2 \<Longrightarrow> quiet V w w2"
  by (simp add: quiet_def)

lemma quiet_good: "quiet V w w' \<Longrightarrow> v_good V w'"
  by (simp add: quiet_def)

lemma quiet_fds: "quiet V w w' \<Longrightarrow> v_fds V w' = v_fds V w"
  by (simp add: quiet_def)

text \<open>\<open>open(2)\<close> for reading: a new descriptor for the file at the path, or an error.\<close>

definition open_law :: "'w sys \<Rightarrow> 'w view \<Rightarrow> bool" where
  "open_law K V \<longleftrightarrow> (\<forall>p fl w r w'. v_good V w \<longrightarrow> O_RDWR \<notin> set fl \<longrightarrow> sys_open K p fl w = (r, w') \<longrightarrow>
     (case r of
        Errno e \<Rightarrow> quiet V w w'
      | Ret fd \<Rightarrow> v_good V w' \<and> 0 \<le> fd \<and> v_fds V w fd = None \<and>
          (\<exists>c. v_files V p = Some c \<and> v_fds V w' = (v_fds V w)(fd \<mapsto> c))))"

definition close_law :: "'w sys \<Rightarrow> 'w view \<Rightarrow> bool" where
  "close_law K V \<longleftrightarrow> (\<forall>fd w. v_good V w \<longrightarrow>
     v_good V (sys_close K fd w) \<and> v_fds V (sys_close K fd w) = (v_fds V w)(fd := None))"

text \<open>\<open>ioctl\<close>, \<open>statfs\<close> and \<open>fstat\<close> only report; the size is the length of the content.\<close>

definition stat_law :: "'w sys \<Rightarrow> 'w view \<Rightarrow> bool" where
  "stat_law K V \<longleftrightarrow>
     (\<forall>fd w r w'. v_good V w \<longrightarrow> sys_blksszget K fd w = (r, w') \<longrightarrow> quiet V w w') \<and>
     (\<forall>p w r w'. v_good V w \<longrightarrow> sys_statfs K p w = (r, w') \<longrightarrow> quiet V w w') \<and>
     (\<forall>fd w r w'. v_good V w \<longrightarrow> sys_fstat K fd w = (r, w') \<longrightarrow> quiet V w w' \<and>
        (\<forall>c n. v_fds V w fd = Some c \<longrightarrow> r = Ret n \<longrightarrow> n = int (length c)))"

text \<open>
  \<open>pread(2)\<close> on an open regular file: a prefix of the bytes at the offset, no more than fit in the
  buffer, none only when none fit or the offset is at the end of the file or after it. An \<open>errno\<close> is
  not zero.
\<close>

definition pread_law :: "'w sys \<Rightarrow> 'w view \<Rightarrow> bool" where
  "pread_law K V \<longleftrightarrow> (\<forall>fd c s off w r w'.
     v_good V w \<longrightarrow> v_fds V w fd = Some c \<longrightarrow> sys_pread K fd s off w = (r, w') \<longrightarrow>
       quiet V w w' \<and> r \<noteq> Errno 0 \<and>
       (\<forall>bs. r = Ret bs \<longrightarrow> 0 \<le> off \<and> bs = window (nat off) (length bs) c \<and>
          length bs \<le> span_size s \<and> (bs = [] \<longrightarrow> span_size s = 0 \<or> length c \<le> nat off)))"

text \<open>A read of a file is short only at the end of the file.\<close>

definition full_pread_law :: "'w sys \<Rightarrow> 'w view \<Rightarrow> bool" where
  "full_pread_law K V \<longleftrightarrow> (\<forall>fd c s off w bs w'.
     v_good V w \<longrightarrow> v_fds V w fd = Some c \<longrightarrow> sys_pread K fd s off w = (Ret bs, w') \<longrightarrow>
       length bs = min (span_size s) (length c - nat off))"

text \<open>Signals are finitely many: an interrupted read uses one up.\<close>

definition signal_law :: "'w sys \<Rightarrow> 'w view \<Rightarrow> bool" where
  "signal_law K V \<longleftrightarrow> (\<forall>fd c s off w r w'.
     v_good V w \<longrightarrow> v_fds V w fd = Some c \<longrightarrow> sys_pread K fd s off w = (r, w') \<longrightarrow> interrupted r \<longrightarrow>
       v_signals V w' < v_signals V w)"

text \<open>\<open>fp::AlignedBuffer::alloc\<close>: at least the bytes that were asked for, or an error.\<close>

definition alloc_law :: "'w sys \<Rightarrow> 'w view \<Rightarrow> bool" where
  "alloc_law K V \<longleftrightarrow> (\<forall>n a w r w'. v_good V w \<longrightarrow> fp_alloc K n a w = (r, w') \<longrightarrow>
     quiet V w w' \<and> (\<forall>s. r = Inr s \<longrightarrow> unat n \<le> span_size s))"

text \<open>The thread pool does not touch the descriptors, and it finishes tasks that exist.\<close>

definition pool_law :: "'w sys \<Rightarrow> 'w view \<Rightarrow> bool" where
  "pool_law K V \<longleftrightarrow>
     (\<forall>n w r w'. v_good V w \<longrightarrow> pool_start K n w = (r, w') \<longrightarrow> quiet V w w') \<and>
     (\<forall>n w ts w'. v_good V w \<longrightarrow> pool_finish K n w = (ts, w') \<longrightarrow> quiet V w w')"

text \<open>The size of a file is an \<open>off_t\<close>.\<close>

definition size_law :: "'w view \<Rightarrow> bool" where
  "size_law V \<longleftrightarrow> (\<forall>w fd c. v_good V w \<longrightarrow> v_fds V w fd = Some c \<longrightarrow> length c < 2 ^ 63)"

definition read_law :: "'w sys \<Rightarrow> 'w view \<Rightarrow> bool" where
  "read_law K V \<longleftrightarrow> pread_law K V \<and> signal_law K V \<and> size_law V"

definition files_law :: "'w sys \<Rightarrow> 'w view \<Rightarrow> bool" where
  "files_law K V \<longleftrightarrow> open_law K V \<and> close_law K V \<and> stat_law K V \<and> pread_law K V \<and>
     signal_law K V \<and> alloc_law K V \<and> pool_law K V \<and> size_law V"

text \<open>
  \<open>pwrite(2)\<close> stores a prefix of the buffer at the offset; bytes between the old end of the file
  and the offset are zero. It makes progress on a buffer that is not empty, and an interrupted
  write stores nothing and uses up a signal.
\<close>

definition file_store :: "nat \<Rightarrow> byte list \<Rightarrow> byte list \<Rightarrow> byte list" where
  "file_store off bs c =
     (if bs = [] then c
      else take off (c @ replicate (off - length c) 0) @ bs @ drop (off + length bs) c)"

definition pwrite_law :: "'w sys \<Rightarrow> 'w view \<Rightarrow> bool" where
  "pwrite_law K V \<longleftrightarrow> (\<forall>fd c s off w r w'.
     v_good V w \<longrightarrow> v_fds V w fd = Some c \<longrightarrow> sys_pwrite K fd s off w = (r, w') \<longrightarrow>
       (case r of
          Ret n \<Rightarrow> v_good V w' \<and> 0 \<le> off \<and> n \<le> span_size s \<and>
            v_fds V w' = (v_fds V w)(fd \<mapsto> file_store (nat off) (take n (sp_bytes s)) c)
        | Errno e \<Rightarrow> quiet V w w' \<and> (e = EINTR \<longrightarrow> v_signals V w' < v_signals V w)))"

subsection \<open>The promises as rules\<close>

lemma open_lawD:
  assumes "open_law K V" "v_good V w" "O_RDWR \<notin> set fl" "sys_open K p fl w = (r, w')"
  shows "(\<exists>e. r = Errno e \<and> quiet V w w') \<or>
     (\<exists>fd c. r = Ret fd \<and> v_good V w' \<and> 0 \<le> fd \<and> v_fds V w fd = None \<and> v_files V p = Some c \<and>
        v_fds V w' = (v_fds V w)(fd \<mapsto> c))"
  using assms unfolding open_law_def by (cases r) fastforce+

lemma close_lawD:
  "close_law K V \<Longrightarrow> v_good V w \<Longrightarrow>
     v_good V (sys_close K fd w) \<and> v_fds V (sys_close K fd w) = (v_fds V w)(fd := None)"
  by (simp add: close_law_def)

lemma blksszget_quiet:
  "stat_law K V \<Longrightarrow> v_good V w \<Longrightarrow> sys_blksszget K fd w = (r, w') \<Longrightarrow> quiet V w w'"
  by (auto simp: stat_law_def)

lemma statfs_quiet:
  "stat_law K V \<Longrightarrow> v_good V w \<Longrightarrow> sys_statfs K p w = (r, w') \<Longrightarrow> quiet V w w'"
  by (auto simp: stat_law_def)

lemma fstat_lawD:
  "stat_law K V \<Longrightarrow> v_good V w \<Longrightarrow> sys_fstat K fd w = (r, w') \<Longrightarrow>
     quiet V w w' \<and> (\<forall>c n. v_fds V w fd = Some c \<longrightarrow> r = Ret n \<longrightarrow> n = int (length c))"
  by (auto simp: stat_law_def)

lemma pread_lawD:
  assumes "pread_law K V" "v_good V w" "v_fds V w fd = Some c" "sys_pread K fd s off w = (r, w')"
  shows "quiet V w w'" and "r \<noteq> Errno 0"
    and "r = Ret bs \<Longrightarrow> 0 \<le> off \<and> bs = window (nat off) (length bs) c \<and>
          length bs \<le> span_size s \<and> (bs = [] \<longrightarrow> span_size s = 0 \<or> length c \<le> nat off)"
  using assms unfolding pread_law_def by blast+

lemma full_pread_lawD:
  "full_pread_law K V \<Longrightarrow> v_good V w \<Longrightarrow> v_fds V w fd = Some c \<Longrightarrow>
     sys_pread K fd s off w = (Ret bs, w') \<Longrightarrow> length bs = min (span_size s) (length c - nat off)"
  by (auto simp: full_pread_law_def)

lemma signal_lawD:
  "signal_law K V \<Longrightarrow> v_good V w \<Longrightarrow> v_fds V w fd = Some c \<Longrightarrow>
     sys_pread K fd s off w = (r, w') \<Longrightarrow> interrupted r \<Longrightarrow> v_signals V w' < v_signals V w"
  unfolding signal_law_def by blast

lemma alloc_lawD:
  "alloc_law K V \<Longrightarrow> v_good V w \<Longrightarrow> fp_alloc K n a w = (r, w') \<Longrightarrow>
     quiet V w w' \<and> (\<forall>s. r = Inr s \<longrightarrow> unat n \<le> span_size s)"
  by (auto simp: alloc_law_def)

lemma pool_start_quiet:
  "pool_law K V \<Longrightarrow> v_good V w \<Longrightarrow> pool_start K n w = (r, w') \<Longrightarrow> quiet V w w'"
  by (auto simp: pool_law_def)

lemma pool_finish_quiet:
  "pool_law K V \<Longrightarrow> v_good V w \<Longrightarrow> pool_finish K n w = (ts, w') \<Longrightarrow> quiet V w w'"
  by (auto simp: pool_law_def)

lemma read_lawD:
  assumes "read_law K V"
  shows "pread_law K V" "signal_law K V" "size_law V"
  using assms by (auto simp: read_law_def)

lemma read_law_files: "files_law K V \<Longrightarrow> read_law K V"
  by (simp add: files_law_def read_law_def)

lemma files_lawD:
  assumes "files_law K V"
  shows "open_law K V" "close_law K V" "stat_law K V" "pread_law K V" "signal_law K V"
    "alloc_law K V" "pool_law K V" "size_law V"
  using assms by (auto simp: files_law_def)

subsection \<open>Spans\<close>

lemma span_size_subspan [simp]: "span_size (subspan n s) = span_size s - n"
  by (simp add: span_size_def subspan_def)

lemma span_size_first [simp]: "span_size (span_first n s) = min n (span_size s)"
  by (simp add: span_size_def span_first_def min.commute)

lemma span_size_store [simp]:
  "pos + length bs \<le> span_size s \<Longrightarrow> span_size (span_store pos bs s) = span_size s"
  by (simp add: span_size_def span_store_def bytes_simps)

lemma sp_bytes_store [simp]: "sp_bytes (span_store pos bs s) = overwrite pos bs (sp_bytes s)"
  by (simp add: span_store_def)

lemma sp_addr_store [simp]: "sp_addr (span_store pos bs s) = sp_addr s"
  by (simp add: span_store_def)

subsection \<open>The retry loop\<close>

text \<open>The loop returns what some uninterrupted call returned; every call before was interrupted.\<close>

lemma retry_eintr_invariant:
  assumes ret: "retry_eintr call w = Some (r, w')" and "P w"
    and "\<And>u v r. P u \<Longrightarrow> call u = (r, v) \<Longrightarrow> interrupted r \<Longrightarrow> P v"
  shows "\<exists>u. P u \<and> call u = (r, w') \<and> \<not> interrupted r"
proof -
  let ?Q = "\<lambda>call w rw. P w \<longrightarrow> (\<forall>u v r. P u \<longrightarrow> call u = (r, v) \<longrightarrow> interrupted r \<longrightarrow> P v) \<longrightarrow>
    (\<exists>u. P u \<and> call u = rw \<and> \<not> interrupted (fst rw))"
  have "?Q call w (r, w')"
  proof (rule retry_eintr.raw_induct [where P = ?Q, OF _ ret])
    fix f call w rw
    assume IH: "\<And>call w rw. f call w = Some rw \<Longrightarrow> ?Q call w rw"
      and eq: "(case call w of (r, w') \<Rightarrow> if interrupted r then f call w' else Some (r, w')) = Some rw"
    obtain r v where c: "call w = (r, v)" by (cases "call w")
    show "?Q call w rw"
    proof (cases "interrupted r")
      case True
      with eq c have "f call v = Some rw" by simp
      from IH [OF this] True c show ?thesis by blast
    next
      case False
      with eq c have "rw = (r, v)" by simp
      with False c show ?thesis by auto
    qed
  qed
  with assms(2,3) show ?thesis by auto
qed

lemma retry_eintr_returns:
  fixes m :: "'w \<Rightarrow> nat"
  assumes "P w"
    and "\<And>u v r. P u \<Longrightarrow> call u = (r, v) \<Longrightarrow> interrupted r \<Longrightarrow> P v \<and> m v < m u"
  shows "\<exists>r w'. retry_eintr call w = Some (r, w')"
  using assms(1)
proof (induction "m w" arbitrary: w rule: less_induct)
  case less
  obtain r v where c: "call w = (r, v)" by (cases "call w")
  show ?case
  proof (cases "interrupted r")
    case True
    with assms(2) less.prems c have "P v" "m v < m w" by blast+
    with less.hyps have "\<exists>r w'. retry_eintr call v = Some (r, w')" by blast
    with c True show ?thesis by (subst retry_eintr.simps) simp
  next
    case False
    with c show ?thesis by (subst retry_eintr.simps) simp
  qed
qed

end
