(* ===== verification/Memfs.thy ===== *)
theory Memfs
  imports Outside
begin

text \<open>
  A world in which the promises of \<^theory_text>\<open>Outside\<close> hold, used by the witnesses: files kept in
  memory. \<open>mf_chunk\<close> bounds what one \<open>pread\<close> moves, \<open>mf_signals\<close> is the number of signals that
  are still to arrive, \<open>mf_block\<close> the block size that \<open>statfs\<close> reports.
\<close>

record memfs =
  mf_files :: "(string \<times> byte list) list"
  mf_fds :: "(int \<times> string) list"
  mf_next :: int
  mf_signals :: nat
  mf_chunk :: "nat option"
  mf_block :: int

definition memfs_world :: "(string \<times> byte list) list \<Rightarrow> int \<Rightarrow> memfs" where
  "memfs_world fs block =
     \<lparr>mf_files = fs, mf_fds = [], mf_next = 3, mf_signals = 0, mf_chunk = None, mf_block = block\<rparr>"

definition memfs_content :: "memfs \<Rightarrow> int \<Rightarrow> byte list option" where
  "memfs_content w fd =
     (case map_of (mf_fds w) fd of None \<Rightarrow> None | Some p \<Rightarrow> map_of (mf_files w) p)"

definition memfs_open :: "string \<Rightarrow> open_flag list \<Rightarrow> memfs \<Rightarrow> int sysret \<times> memfs" where
  "memfs_open p fl w =
     (let w' = w\<lparr>mf_fds := (mf_next w, p) # mf_fds w, mf_next := mf_next w + 1\<rparr> in
      if O_RDWR \<in> set fl \<and> O_TRUNC \<in> set fl then (Ret (mf_next w), w'\<lparr>mf_files := (p, []) # mf_files w\<rparr>)
      else if map_of (mf_files w) p = None then (Errno 2, w)
      else (Ret (mf_next w), w'))"

definition memfs_close :: "int \<Rightarrow> memfs \<Rightarrow> memfs" where
  "memfs_close fd w = w\<lparr>mf_fds := filter (\<lambda>e. fst e \<noteq> fd) (mf_fds w)\<rparr>"

definition memfs_fstat :: "int \<Rightarrow> memfs \<Rightarrow> int sysret \<times> memfs" where
  "memfs_fstat fd w =
     (case memfs_content w fd of None \<Rightarrow> (Errno 9, w) | Some c \<Rightarrow> (Ret (int (length c)), w))"

definition memfs_pread :: "int \<Rightarrow> span \<Rightarrow> int \<Rightarrow> memfs \<Rightarrow> byte list sysret \<times> memfs" where
  "memfs_pread fd s off w =
     (if 0 < mf_signals w then (Errno EINTR, w\<lparr>mf_signals := mf_signals w - 1\<rparr>)
      else if off < 0 then (Errno 22, w)
      else (case memfs_content w fd of
          None \<Rightarrow> (Errno 9, w)
        | Some c \<Rightarrow>
            (Ret (window (nat off)
               (case mf_chunk w of None \<Rightarrow> span_size s | Some n \<Rightarrow> min n (span_size s)) c), w)))"

definition memfs_pwrite :: "int \<Rightarrow> span \<Rightarrow> int \<Rightarrow> memfs \<Rightarrow> nat sysret \<times> memfs" where
  "memfs_pwrite fd s off w =
     (if 0 < mf_signals w then (Errno EINTR, w\<lparr>mf_signals := mf_signals w - 1\<rparr>)
      else if off < 0 then (Errno 22, w)
      else (case (map_of (mf_fds w) fd, memfs_content w fd) of
          (Some p, Some c) \<Rightarrow>
            if 2 ^ 63 \<le> nat off + span_size s then (Errno 27, w) else
            (let n = (case mf_chunk w of None \<Rightarrow> span_size s | Some n \<Rightarrow> min n (span_size s)) in
             (Ret n, w\<lparr>mf_files := (p, file_store (nat off) (take n (sp_bytes s)) c) # mf_files w\<rparr>))
        | _ \<Rightarrow> (Errno 9, w)))"

definition memfs_alloc :: "u64 \<Rightarrow> u64 \<Rightarrow> memfs \<Rightarrow> (string + span) \<times> memfs" where
  "memfs_alloc n a w = (Inr \<lparr>sp_addr = 0, sp_bytes = replicate (unat n) 0\<rparr>, w)"

definition memfs_sys :: "memfs sys" where
  "memfs_sys = \<lparr>
     sys_open = memfs_open,
     sys_close = memfs_close,
     sys_blksszget = (\<lambda>fd w. (Errno 25, w)),
     sys_statfs = (\<lambda>p w. (Ret (mf_block w), w)),
     sys_fstat = memfs_fstat,
     sys_pread = memfs_pread,
     sys_pwrite = memfs_pwrite,
     sys_fsync = (\<lambda>fd w. (Ret (), w)),
     sys_fdatasync = (\<lambda>fd w. (Ret (), w)),
     fp_alloc = memfs_alloc,
     pool_start = (\<lambda>n w. (None, w)),
     pool_finish = (\<lambda>n w. ([], w))\<rparr>"

text \<open>
  The view for reading: the files stay \<open>fs\<close>, blocks have at most 512 bytes; with \<open>full\<close>, no read is
  short before the end.
\<close>

definition memfs_good :: "bool \<Rightarrow> (string \<times> byte list) list \<Rightarrow> memfs \<Rightarrow> bool" where
  "memfs_good full fs w \<longleftrightarrow> mf_files w = fs \<and> (\<forall>(p, c) \<in> set fs. length c < 2 ^ 63) \<and>
     0 \<le> mf_next w \<and> 0 < mf_block w \<and> mf_block w \<le> 512 \<and> (\<forall>(fd, p) \<in> set (mf_fds w). fd < mf_next w) \<and>
     (if full then mf_chunk w = None else mf_chunk w \<noteq> Some 0)"

definition memfs_view :: "bool \<Rightarrow> (string \<times> byte list) list \<Rightarrow> memfs view" where
  "memfs_view full fs = \<lparr>v_good = memfs_good full fs, v_fds = memfs_content, v_files = map_of fs, v_signals = mf_signals\<rparr>"

lemma memfs_sys_simps [simp]:
  "sys_open memfs_sys = memfs_open" "sys_close memfs_sys = memfs_close"
  "sys_blksszget memfs_sys = (\<lambda>fd w. (Errno 25, w))"
  "sys_statfs memfs_sys = (\<lambda>p w. (Ret (mf_block w), w))"
  "sys_fstat memfs_sys = memfs_fstat" "sys_pread memfs_sys = memfs_pread"
  "sys_pwrite memfs_sys = memfs_pwrite" "fp_alloc memfs_sys = memfs_alloc"
  "pool_start memfs_sys = (\<lambda>n w. (None, w))" "pool_finish memfs_sys = (\<lambda>n w. ([], w))"
  "sys_fsync memfs_sys = (\<lambda>fd w. (Ret (), w))" "sys_fdatasync memfs_sys = (\<lambda>fd w. (Ret (), w))"
  by (simp_all add: memfs_sys_def)

lemma memfs_view_simps [simp]:
  "v_good (memfs_view full fs) = memfs_good full fs" "v_fds (memfs_view full fs) = memfs_content"
  "v_files (memfs_view full fs) = map_of fs" "v_signals (memfs_view full fs) = mf_signals"
  by (simp_all add: memfs_view_def)

lemma map_of_filter_neq: "map_of (filter (\<lambda>e. fst e \<noteq> k) xs) = (map_of xs)(k := None)"
  by (induction xs) (auto simp: fun_eq_iff)

lemma memfs_fresh: "memfs_good full fs w \<Longrightarrow> map_of (mf_fds w) (mf_next w) = None"
  by (auto simp: memfs_good_def map_of_eq_None_iff)

lemma memfs_open_law: "open_law memfs_sys (memfs_view full fs)"
  unfolding open_law_def
proof (intro allI impI)
  fix p fl w r w'
  assume good: "v_good (memfs_view full fs) w" and fl: "O_RDWR \<notin> set fl"
    and call: "sys_open memfs_sys p fl w = (r, w')"
  show "case r of Errno e \<Rightarrow> quiet (memfs_view full fs) w w'
      | Ret fd \<Rightarrow> v_good (memfs_view full fs) w' \<and> 0 \<le> fd \<and> v_fds (memfs_view full fs) w fd = None \<and>
          (\<exists>c. v_files (memfs_view full fs) p = Some c \<and>
               v_fds (memfs_view full fs) w' = (v_fds (memfs_view full fs) w)(fd \<mapsto> c))"
    using good call fl memfs_fresh [of full fs w]
    by (fastforce simp: memfs_open_def Let_def quiet_def memfs_good_def memfs_content_def fun_eq_iff
        split: if_splits option.splits)
qed

lemma memfs_close_law: "close_law memfs_sys (memfs_view full fs)"
  by (auto simp: close_law_def memfs_close_def memfs_good_def memfs_content_def map_of_filter_neq
      fun_eq_iff split: option.split)

lemma memfs_stat_law: "stat_law memfs_sys (memfs_view full fs)"
  by (auto simp: stat_law_def quiet_def memfs_fstat_def split: option.splits)

lemma memfs_size_law: "size_law (memfs_view full fs)"
  by (auto simp: size_law_def memfs_good_def memfs_content_def split: option.splits
      dest!: map_of_SomeD)

lemma memfs_good_signals [simp]: "memfs_good full fs (w\<lparr>mf_signals := n\<rparr>) = memfs_good full fs w"
  by (simp add: memfs_good_def)

lemma memfs_content_signals [simp]: "memfs_content (w\<lparr>mf_signals := n\<rparr>) = memfs_content w"
  by (simp add: memfs_content_def fun_eq_iff split: option.split)

lemma memfs_pread_law: "pread_law memfs_sys (memfs_view full fs)"
  unfolding pread_law_def
proof (intro allI impI)
  fix fd c s off w r w'
  assume good: "v_good (memfs_view full fs) w" and fd: "v_fds (memfs_view full fs) w fd = Some c"
    and call: "sys_pread memfs_sys fd s off w = (r, w')"
  show "quiet (memfs_view full fs) w w' \<and> r \<noteq> Errno 0 \<and> (\<forall>bs. r = Ret bs \<longrightarrow> 0 \<le> off \<and>
      bs = window (nat off) (length bs) c \<and> length bs \<le> span_size s \<and>
      (bs = [] \<longrightarrow> span_size s = 0 \<or> length c \<le> nat off))"
    using good fd call
    by (auto simp: memfs_pread_def quiet_def bytes_simps window_Nil_iff memfs_good_def min_def
        window_def EINTR_def split: if_splits option.splits)
qed

lemma memfs_signal_law: "signal_law memfs_sys (memfs_view full fs)"
  by (auto simp: signal_law_def memfs_pread_def EINTR_def split: if_splits option.splits)

lemma memfs_alloc_law: "alloc_law memfs_sys (memfs_view full fs)"
  by (auto simp: alloc_law_def memfs_alloc_def span_size_def)

lemma memfs_pool_law: "pool_law memfs_sys (memfs_view full fs)"
  by (auto simp: pool_law_def)

lemma memfs_files_law: "files_law memfs_sys (memfs_view full fs)"
  by (simp add: files_law_def memfs_open_law memfs_close_law memfs_stat_law memfs_pread_law
      memfs_signal_law memfs_alloc_law memfs_pool_law memfs_size_law)

lemma memfs_full_pread_law: "full_pread_law memfs_sys (memfs_view True fs)"
  by (auto simp: full_pread_law_def memfs_pread_def memfs_good_def bytes_simps
      split: if_splits option.splits)

lemma memfs_world_good [simp]:
  "list_all (\<lambda>e. length (snd e) < 2 ^ 63) fs \<Longrightarrow> 0 < block \<Longrightarrow> block \<le> 512 \<Longrightarrow> memfs_good full fs (memfs_world fs block)"
  by (auto simp: memfs_good_def memfs_world_def list_all_iff)

text \<open>
  The view for writing: what the open descriptors stand for. No file is open twice, and no file
  has grown past what an offset can reach.
\<close>

definition memfs_write_view :: "memfs view" where
  "memfs_write_view = \<lparr>
     v_good = (\<lambda>w. mf_chunk w \<noteq> Some 0 \<and> distinct (map snd (mf_fds w)) \<and>
       (\<forall>(p, c) \<in> set (mf_files w). length c < 2 ^ 63)),
     v_fds = memfs_content, v_files = (\<lambda>_. None), v_signals = mf_signals\<rparr>"

lemma length_file_store: "length (file_store off bs c) \<le> max (length c) (off + length bs)"
  by (auto simp: file_store_def min_def max_def)

lemma memfs_pwrite_law: "pwrite_law memfs_sys memfs_write_view"
proof -
  have inj: "fd = fd'" if "distinct (map snd xs)" "map_of xs fd = Some p" "map_of xs fd' = Some p"
    for xs :: "(int \<times> string) list" and fd fd' p
    using that by (induction xs) (auto split: if_splits dest: map_of_SomeD simp: rev_image_eqI)
  have small: "length (file_store o' (take n bs) c) < 2 ^ 63"
    if "\<not> 2 ^ 63 \<le> o' + length bs" "length c < 2 ^ 63" for o' n and bs :: "byte list" and c
    using length_file_store [of o' "take n bs" c] that by simp
  show ?thesis
    unfolding pwrite_law_def
  proof (intro allI impI)
    fix fd c s off w r w'
    assume good: "v_good memfs_write_view w" and fd: "v_fds memfs_write_view w fd = Some c"
      and call: "sys_pwrite memfs_sys fd s off w = (r, w')"
    from fd obtain p where p: "map_of (mf_fds w) fd = Some p" "map_of (mf_files w) p = Some c"
      by (auto simp: memfs_write_view_def memfs_content_def split: option.splits)
    then have lc: "length c < 2 ^ 63"
      using good by (auto simp: memfs_write_view_def dest!: map_of_SomeD)
    define n where "n = (case mf_chunk w of None \<Rightarrow> span_size s | Some n \<Rightarrow> min n (span_size s))"
    let ?c = "file_store (nat off) (take n (sp_bytes s)) c"
    have n: "n \<le> span_size s" by (simp add: n_def split: option.split)
    show "case r of
          Ret n \<Rightarrow> v_good memfs_write_view w' \<and> 0 \<le> off \<and> n \<le> span_size s \<and>
            v_fds memfs_write_view w' = (v_fds memfs_write_view w)(fd \<mapsto>
              file_store (nat off) (take n (sp_bytes s)) c)
        | Errno e \<Rightarrow> quiet memfs_write_view w w' \<and>
            (e = EINTR \<longrightarrow> v_signals memfs_write_view w' < v_signals memfs_write_view w)"
    proof (cases "0 < mf_signals w \<or> off < 0 \<or> 2 ^ 63 \<le> nat off + span_size s")
      case True
      then show ?thesis
        using good call p by (auto simp: memfs_pwrite_def memfs_write_view_def quiet_def EINTR_def
            memfs_content_def split: if_splits)
    next
      case False
      note f = False [unfolded de_Morgan_disj]
      note f1 = f [THEN conjunct1] and f2 = f [THEN conjunct2, THEN conjunct1]
        and f3 = f [THEN conjunct2, THEN conjunct2]
      have "memfs_content w fd = Some c" using p by (simp add: memfs_content_def)
      then have "memfs_pwrite fd s off w = (Ret n, w\<lparr>mf_files := (p, ?c) # mf_files w\<rparr>)"
      proof -
        assume c: "memfs_content w fd = Some c"
        show ?thesis
          unfolding memfs_pwrite_def if_not_P [OF f1] if_not_P [OF f2] c p(1) prod.case
            option.case if_not_P [OF f3] Let_def n_def [symmetric] ..
      qed
      then have w': "r = Ret n" "w' = w\<lparr>mf_files := (p, ?c) # mf_files w\<rparr>"
        using call by simp_all
      have other: "map_of (mf_fds w) x = Some p \<Longrightarrow> x = fd" for x
        using inj [of "mf_fds w" x p fd] p good by (simp add: memfs_write_view_def)
      have "length ?c < 2 ^ 63" by (rule small [OF f3 [unfolded span_size_def] lc])
      then have g: "v_good memfs_write_view w'"
        using good w'(2) by (simp add: memfs_write_view_def)
      have "memfs_content w' = (memfs_content w)(fd \<mapsto> ?c)"
      proof (rule ext)
        fix x
        show "memfs_content w' x = ((memfs_content w)(fd \<mapsto> ?c)) x"
        proof (cases "map_of (mf_fds w) x = Some p")
          case True
          with other p(1) w'(2) show ?thesis by (simp add: memfs_content_def)
        next
          case False
          with p(1) have "x \<noteq> fd" by auto
          with False w'(2) show ?thesis
            by (simp add: memfs_content_def split: option.split)
        qed
      qed
      with g w'(1) f2 n show ?thesis
        by (simp add: memfs_write_view_def)
    qed
  qed
qed

lemma memfs_write_read_law: "read_law memfs_sys memfs_write_view"
  unfolding read_law_def
proof (intro conjI)
  show "size_law memfs_write_view"
    by (auto simp: size_law_def memfs_write_view_def memfs_content_def split: option.splits
        dest!: map_of_SomeD)
  show "signal_law memfs_sys memfs_write_view"
    by (auto simp: signal_law_def memfs_write_view_def memfs_pread_def EINTR_def
        split: if_splits option.splits)
  show "pread_law memfs_sys memfs_write_view"
    by (auto simp: pread_law_def memfs_write_view_def memfs_pread_def quiet_def bytes_simps
        window_Nil_iff min_def window_def EINTR_def split: if_splits option.splits)
qed

end
