(* ===== verification/Align.thy ===== *)
theory Align
  imports Outside
begin

unbundle bit_operations_syntax

text \<open>
  \<open>include/dsio/align.hpp\<close> and \<open>src/align.cpp\<close>: rounding to multiples of a power of two by bit
  masks, and the block size of a file. The three rounding functions are \<open>None\<close> where their
  \<open>assert\<close> fails.
\<close>

section \<open>Definitions\<close>

definition alignment_ok :: "u64 \<Rightarrow> bool" where
  "alignment_ok alignment \<longleftrightarrow> alignment \<noteq> 0 \<and> alignment AND (alignment - 1) = 0"

definition is_aligned :: "u64 \<Rightarrow> u64 \<Rightarrow> bool option" where
  "is_aligned val alignment =
     (if alignment_ok alignment then Some (val AND (alignment - 1) = 0) else None)"

definition align_up :: "u64 \<Rightarrow> u64 \<Rightarrow> u64 option" where
  "align_up val alignment =
     (if alignment_ok alignment then Some ((val + alignment - 1) AND NOT (alignment - 1)) else None)"

definition align_down :: "u64 \<Rightarrow> u64 \<Rightarrow> u64 option" where
  "align_down val alignment =
     (if alignment_ok alignment then Some (val AND NOT (alignment - 1)) else None)"

text \<open>
  \<open>logical\<close> is an \<open>int\<close> that the \<open>ioctl\<close> fills; \<open>f_bsize\<close> is a signed word. Both are cast to
  \<open>std::size_t\<close>.
\<close>

definition block_size :: "'w sys \<Rightarrow> string \<Rightarrow> 'w \<Rightarrow> u64 outcome \<times> 'w" where
  "block_size K path w =
     (case sys_open K path [O_RDONLY, O_CLOEXEC] w of
        (Errno code, w1) \<Rightarrow> (Inl (AlignError (BlockSizeCannotOpen path code)), w1)
      | (Ret fd, w1) \<Rightarrow>
          (case sys_blksszget K fd w1 of (r, w2) \<Rightarrow>
             let w3 = sys_close K fd w2 in
             (case r of
                Ret logical \<Rightarrow>
                  if logical > 0 then (Inr (word_of_int logical), w3)
                  else (case sys_statfs K path w3 of
                      (Errno code, w4) \<Rightarrow> (Inl (AlignError (BlockSizeCannotStatfs path code)), w4)
                    | (Ret f_bsize, w4) \<Rightarrow> (Inr (word_of_int f_bsize), w4))
              | Errno _ \<Rightarrow>
                  (case sys_statfs K path w3 of
                      (Errno code, w4) \<Rightarrow> (Inl (AlignError (BlockSizeCannotStatfs path code)), w4)
                    | (Ret f_bsize, w4) \<Rightarrow> (Inr (word_of_int f_bsize), w4)))))"

section \<open>Masks are divisions\<close>

text \<open>The assertion holds of the powers of two and of nothing else.\<close>

lemma alignment_ok_power: "k < 64 \<Longrightarrow> alignment_ok (2 ^ k)"
proof -
  assume k: "k < 64"
  have "(2 :: u64) ^ k AND (2 ^ k - 1) = take_bit k (2 ^ k)"
    by (simp add: take_bit_eq_mask mask_eq_exp_minus_1)
  also have "\<dots> = 0" by (simp add: take_bit_eq_mod)
  finally show ?thesis
    using k by (simp add: alignment_ok_def)
qed

lemma nat_and_pred_power: "0 < (n :: nat) \<Longrightarrow> n AND (n - 1) = 0 \<Longrightarrow> \<exists>k. n = 2 ^ k"
proof (induction n rule: less_induct)
  case (less n)
  show ?case
  proof (cases "even n")
    case True
    then obtain m where m: "n = 2 * m" by blast
    with less.prems(1) have "0 < m" by simp
    then have "(n - 1) div 2 = m - 1" "odd (n - 1)" using m by presburger+
    then have "n AND (n - 1) = 2 * (m AND (m - 1))"
      using m by (subst and_rec) simp
    with less.prems(2) have "m AND (m - 1) = 0" by simp
    with less.IH [of m] m \<open>0 < m\<close> obtain k where "m = 2 ^ k" by auto
    with m have "n = 2 ^ Suc k" by simp
    then show ?thesis by blast
  next
    case False
    then obtain m where m: "n = 2 * m + 1" by (rule oddE)
    then have "n AND (n - 1) = 2 * m"
      by (subst and_rec) simp
    with less.prems(2) have "n = 2 ^ 0" using m by simp
    then show ?thesis by blast
  qed
qed

lemma alignment_ok_iff_power: "alignment_ok a \<longleftrightarrow> (\<exists>k < 64. a = 2 ^ k)"
proof
  assume "\<exists>k < 64. a = 2 ^ k"
  then show "alignment_ok a" by (auto intro: alignment_ok_power)
next
  assume "alignment_ok a"
  then have nz: "a \<noteq> 0" and m: "a AND (a - 1) = 0" by (auto simp: alignment_ok_def)
  have pos: "0 < unat a" using nz by (simp add: unat_gt_0)
  have "unat a AND (unat a - 1) = unat (a AND (a - 1))"
    using nz by (simp add: unsigned_and_eq unat_minus_one)
  then have "unat a AND (unat a - 1) = 0" using m by simp
  with pos obtain k where k: "unat a = 2 ^ k" using nat_and_pred_power by blast
  have "k < 64"
  proof (rule ccontr)
    assume "\<not> k < 64"
    then have "(2 :: nat) ^ 64 \<le> 2 ^ k" by (intro power_increasing) auto
    with k unat_u64_less [of a] show False by simp
  qed
  moreover have "a = 2 ^ k"
  proof -
    have "a = of_nat (unat a)" by simp
    then show ?thesis by (simp add: k)
  qed
  ultimately show "\<exists>k < 64. a = 2 ^ k" by blast
qed

lemma and_mask_power: "v AND (2 ^ k - 1) = take_bit k (v :: u64)"
  by (simp add: take_bit_eq_mask mask_eq_exp_minus_1)

lemma and_not_mask_power: "v AND NOT (2 ^ k - 1) = v - take_bit k (v :: u64)"
proof -
  have "v - (v AND mask k) = v AND NOT (v AND mask k)"
    by (rule disjunctive_diff_eq_and_not) (auto simp: bit_eq_iff bit_simps)
  also have "\<dots> = v AND NOT (mask k)"
    by (auto simp: bit_eq_iff bit_simps)
  finally show ?thesis by (simp add: take_bit_eq_mask mask_eq_exp_minus_1)
qed

lemma unat_take_bit_u64: "unat (take_bit k (v :: u64)) = unat v mod 2 ^ k"
proof -
  have "unat (take_bit k v) = take_bit k (unat v)" by (rule unsigned_take_bit_eq)
  then show ?thesis by (simp add: take_bit_eq_mod)
qed

lemma unat_power_u64: "k < 64 \<Longrightarrow> unat ((2 :: u64) ^ k) = 2 ^ k"
proof -
  assume "k < 64"
  then have "(2 :: nat) ^ k < 2 ^ 64" by (intro power_strict_increasing) auto
  then have "unat (of_nat (2 ^ k) :: u64) = 2 ^ k" by (intro unat_of_nat_u64) simp
  then show ?thesis by simp
qed

lemma unat_and_not_mask:
  "k < 64 \<Longrightarrow> unat (v AND NOT ((2 :: u64) ^ k - 1)) = unat v - unat v mod 2 ^ k"
proof -
  assume k: "k < 64"
  have "unat (take_bit k v) \<le> unat v"
    by (simp add: unat_take_bit_u64)
  then have "take_bit k v \<le> v" by (simp add: u64_le_nat)
  then show ?thesis
    by (simp add: and_not_mask_power unat_minus_u64 unat_take_bit_u64)
qed

lemma is_aligned_dvd:
  "alignment_ok a \<Longrightarrow> is_aligned v a = Some (unat a dvd unat v)"
proof -
  assume ok: "alignment_ok a"
  then obtain k where k: "k < 64" "a = 2 ^ k" by (auto simp: alignment_ok_iff_power)
  have "v AND (a - 1) = 0 \<longleftrightarrow> unat (take_bit k v) = unat (0 :: u64)"
    by (simp add: k and_mask_power u64_eq_nat)
  also have "\<dots> \<longleftrightarrow> unat a dvd unat v"
    using k by (simp add: unat_take_bit_u64 unat_power_u64 dvd_eq_mod_eq_0)
  finally show ?thesis using ok by (simp add: is_aligned_def)
qed

lemma align_down_mod:
  "alignment_ok a \<Longrightarrow> \<exists>r. align_down v a = Some r \<and> unat r = unat v - unat v mod unat a"
  by (auto simp: align_down_def alignment_ok_iff_power unat_and_not_mask unat_power_u64)

text \<open>
  Where \<open>value + alignment - 1\<close> wraps around, nothing but the low bits is left, and the mask
  removes them.
\<close>

lemma align_up_mod:
  assumes "alignment_ok a"
  shows "\<exists>r. align_up v a = Some r \<and>
    unat r = (if unat v + unat a - 1 < 2 ^ 64
              then (unat v + unat a - 1) - (unat v + unat a - 1) mod unat a else 0)"
proof -
  from assms obtain k where k: "k < 64" "a = 2 ^ k" by (auto simp: alignment_ok_iff_power)
  have ua: "unat a = 2 ^ k" "1 \<le> unat a" using k by (simp_all add: unat_power_u64)
  have pred: "unat (a - 1) = unat a - 1"
    by (rule unat_minus_one) (use ua in auto)
  have "unat (v + (a - 1)) = (unat v + unat (a - 1)) mod 2 ^ 64"
    using unat_word_ariths(1) [of v "a - 1"] by simp
  then have "unat (v + a - 1) = (unat v + (unat a - 1)) mod 2 ^ 64"
    by (simp only: add_diff_eq pred)
  with ua have sum: "unat (v + a - 1) = (unat v + unat a - 1) mod 2 ^ 64" by simp
  have res: "align_up v a = Some ((v + a - 1) AND NOT (a - 1))"
    using assms by (simp add: align_up_def)
  have val: "unat ((v + a - 1) AND NOT (a - 1)) = unat (v + a - 1) - unat (v + a - 1) mod unat a"
    using k by (simp add: unat_and_not_mask unat_power_u64)
  show ?thesis
  proof (cases "unat v + unat a - 1 < 2 ^ 64")
    case True
    with sum have "unat (v + a - 1) = unat v + unat a - 1" by (simp del: One_nat_def)
    with res val True show ?thesis by simp
  next
    case False
    let ?s = "unat v + unat a - 1"
    have "unat v < 2 ^ 64" "unat a < 2 ^ 64" using unat_u64_less [of v] unat_u64_less [of a] by simp_all
    then have "?s - 2 ^ 64 < 2 ^ 64" by linarith
    then have "?s mod 2 ^ 64 = ?s - 2 ^ 64"
      using False by (metis le_mod_geq mod_less not_le_imp_less)
    with sum have "unat (v + a - 1) = ?s - 2 ^ 64" by simp
    with \<open>unat v < 2 ^ 64\<close> ua(2) have "unat (v + a - 1) < unat a" by linarith
    then have "unat (v + a - 1) mod unat a = unat (v + a - 1)" by (rule mod_less)
    with res val False show ?thesis by simp
  qed
qed

section \<open>Properties of the rounding\<close>

text \<open>
  Property C25 (align down). \<open>align_down\<close> returns the largest multiple of the alignment that is
  not above the value.
\<close>

theorem align_down_greatest:
  assumes "alignment_ok a"
  shows "\<exists>r. align_down v a = Some r \<and> is_aligned r a = Some True \<and> r \<le> v \<and>
    (\<forall>m. is_aligned m a = Some True \<longrightarrow> m \<le> v \<longrightarrow> m \<le> r)"
proof -
  from align_down_mod [OF assms] obtain r where
    r: "align_down v a = Some r" "unat r = unat v - unat v mod unat a" by blast
  have pos: "0 < unat a" using assms by (auto simp: alignment_ok_def unat_gt_0)
  have "m \<le> r" if "unat a dvd unat m" "m \<le> v" for m
  proof -
    from that(1) obtain q where "unat m = unat a * q" by blast
    moreover have "unat r = unat a * (unat v div unat a)"
      using r(2) by (simp add: minus_mod_eq_mult_div)
    moreover have "q \<le> unat v div unat a"
      using that(2) pos \<open>unat m = unat a * q\<close>
      by (simp add: u64_le_nat less_eq_div_iff_mult_less_eq mult.commute)
    ultimately show ?thesis by (simp add: u64_le_nat)
  qed
  with r assms show ?thesis
    by (auto simp: is_aligned_dvd u64_le_nat dvd_minus_mod)
qed

theorem align_down_greatest_witness:
  "align_down 8191 4096 = Some 4096 \<and>
   (\<exists>r. align_down 8191 4096 = Some r \<and> is_aligned r 4096 = Some True \<and> r \<le> 8191)"
proof -
  have "alignment_ok 4096" by (simp add: alignment_ok_def)
  from align_down_greatest [OF this, of 8191]
  have "\<exists>r. align_down 8191 4096 = Some r \<and> is_aligned r 4096 = Some True \<and> r \<le> 8191" by blast
  moreover have "align_down 8191 4096 = Some 4096"
    by (simp add: align_down_def alignment_ok_def)
  ultimately show ?thesis by blast
qed

text \<open>
  Property C24 (align up). \<open>align_up\<close> returns the smallest multiple of the alignment that is not
  below the value, as long as there is one in 64 bits; beyond, the sum wraps around and the result
  is 0, below the value.
\<close>

theorem align_up_least:
  assumes "alignment_ok a"
  shows "\<exists>r. align_up v a = Some r \<and> is_aligned r a = Some True \<and>
    (if unat v + unat a \<le> 2 ^ 64
     then v \<le> r \<and> (\<forall>m. is_aligned m a = Some True \<longrightarrow> v \<le> m \<longrightarrow> r \<le> m)
     else r = 0 \<and> r < v)"
proof -
  from align_up_mod [OF assms] obtain r where
    r: "align_up v a = Some r" "unat r = (if unat v + unat a - 1 < 2 ^ 64
      then (unat v + unat a - 1) - (unat v + unat a - 1) mod unat a else 0)" by blast
  have pos: "0 < unat a" using assms by (auto simp: alignment_ok_def unat_gt_0)
  show ?thesis
  proof (cases "unat v + unat a \<le> 2 ^ 64")
    case True
    let ?s = "unat v + unat a - 1"
    have rs: "unat r = ?s - ?s mod unat a" using r(2) True pos by simp
    have "?s mod unat a < unat a" using pos by simp
    then have "unat v \<le> unat r" using rs by linarith
    moreover have "unat r \<le> unat m" if "unat a dvd unat m" "unat v \<le> unat m" for m :: u64
    proof -
      from that(1) obtain q where q: "unat m = unat a * q" by blast
      have "?s div unat a \<le> q"
      proof -
        have "?s < unat a * Suc q" using that(2) q pos by simp
        then show ?thesis using pos by (metis less_Suc_eq_le less_mult_imp_div_less mult.commute)
      qed
      then show ?thesis using rs q by (simp add: minus_mod_eq_mult_div)
    qed
    moreover have "unat a dvd unat r" using rs by (metis dvd_minus_mod)
    ultimately show ?thesis
      using r(1) assms True by (simp add: is_aligned_dvd u64_le_nat)
  next
    case False
    then have "unat r = 0" using r(2) by simp
    moreover have "unat a < 2 ^ 64" using unat_u64_less [of a] by simp
    then have "0 < unat v" using False by linarith
    ultimately show ?thesis
      using r(1) False assms by (auto simp: is_aligned_dvd u64_less_nat u64_eq_nat)
  qed
qed

theorem align_up_least_witness:
  "align_up 5000 4096 = Some 8192 \<and> align_up 18446744073709551615 4096 = Some 0 \<and>
   (\<exists>r. align_up 5000 4096 = Some r \<and> is_aligned r 4096 = Some True)"
proof -
  have "alignment_ok 4096" by (simp add: alignment_ok_def)
  from align_up_least [OF this, of 5000]
  have "\<exists>r. align_up 5000 4096 = Some r \<and> is_aligned r 4096 = Some True" by blast
  moreover have "align_up 5000 4096 = Some 8192" "align_up 18446744073709551615 4096 = Some 0"
    by (simp_all add: align_up_def alignment_ok_def)
  ultimately show ?thesis by blast
qed

section \<open>The block size\<close>

text \<open>A size that the kernel reports, as a word.\<close>

lemma positive_size_fits:
  assumes "0 < l" and "l \<le> uint n"
  shows "word_of_int l \<noteq> (0 :: u64) \<and> word_of_int l \<le> (n :: u64)"
proof -
  have "uint n < 2 ^ 64" using uint_lt2p [of n] by simp
  with assms have "uint (word_of_int l :: u64) = l" by (simp add: take_bit_int_eq_self uint_word_of_int_eq)
  with assms show ?thesis by (metis uint_0_iff less_irrefl word_le_def)
qed

text \<open>\<open>block_size\<close> closes the descriptor it opens, on every path.\<close>

lemma block_size_quiet:
  assumes law: "files_law K V" and good: "v_good V w" and call: "block_size K path w = (r, w')"
  shows "quiet V w w'"
proof -
  note laws = files_lawD [OF law]
  obtain r1 w1 where o: "sys_open K path [O_RDONLY, O_CLOEXEC] w = (r1, w1)"
    by (cases "sys_open K path [O_RDONLY, O_CLOEXEC] w")
  have "O_RDWR \<notin> set [O_RDONLY, O_CLOEXEC]" by simp
  from open_lawD [OF laws(1) good this o] show ?thesis
  proof (elim disjE exE conjE)
    fix e assume "r1 = Errno e" "quiet V w w1"
    with call o show ?thesis by (simp add: block_size_def)
  next
    fix fd c
    assume r1: "r1 = Ret fd" and g1: "v_good V w1" and fresh: "v_fds V w fd = None"
      and fds: "v_fds V w1 = (v_fds V w)(fd \<mapsto> c)"
    obtain r2 w2 where b: "sys_blksszget K fd w1 = (r2, w2)" by (cases "sys_blksszget K fd w1")
    let ?w3 = "sys_close K fd w2"
    have q2: "quiet V w1 w2" by (rule blksszget_quiet [OF laws(3) g1 b])
    then have "v_good V ?w3" "v_fds V ?w3 = (v_fds V w2)(fd := None)"
      using close_lawD [OF laws(2)] by (auto simp: quiet_def)
    then have q3: "quiet V w ?w3"
      using q2 fds fresh by (auto simp: quiet_def fun_eq_iff)
    obtain r4 w4 where s: "sys_statfs K path ?w3 = (r4, w4)" by (cases "sys_statfs K path ?w3")
    have "quiet V ?w3 w4" by (rule statfs_quiet [OF laws(3) quiet_good [OF q3] s])
    then have q4: "quiet V w w4" using q3 by (rule quiet_trans [rotated])
    from call o r1 b s have "w' = ?w3 \<or> w' = w4"
      by (auto simp: block_size_def Let_def split: sysret.splits if_splits)
    with q3 q4 show ?thesis by auto
  qed
qed

end
