(* ===== verification/Disk.thy ===== *)
theory Disk
  imports Align
begin

text \<open>
  What opening, writing and closing promise about a disk: the hypotheses about the calls of \<^theory_text>\<open>Outside\<close> for
  files that are written. A view shows the open descriptors, with their paths and the flags they were opened with,
  and what is stored under every path.
\<close>

section \<open>The disk\<close>

text \<open>Promises are about worlds that are good; the number of signals that still interrupt calls is finite.\<close>

record 'w disk_view =
  dv_good :: "'w \<Rightarrow> bool"
  dv_open :: "'w \<Rightarrow> int \<Rightarrow> (string \<times> open_flag set) option"
  dv_disk :: "'w \<Rightarrow> string \<Rightarrow> byte list option"
  dv_signals :: "'w \<Rightarrow> nat"

definition still :: "'w disk_view \<Rightarrow> 'w \<Rightarrow> 'w \<Rightarrow> bool" where
  "still W w w' \<longleftrightarrow> dv_good W w' \<and> dv_open W w' = dv_open W w \<and> dv_disk W w' = dv_disk W w"

lemma still_trans: "still W w w1 \<Longrightarrow> still W w1 w2 \<Longrightarrow> still W w w2"
  by (simp add: still_def)

lemma still_good: "still W w w' \<Longrightarrow> dv_good W w'"
  by (simp add: still_def)

text \<open>
  A file that is opened for reading must exist, and nothing changes on the disk. With \<open>O_TRUNC\<close> it is empty afterwards; a
  failed call may have created or emptied it already.
\<close>

definition disk_open_law :: "'w sys \<Rightarrow> 'w disk_view \<Rightarrow> bool" where
  "disk_open_law K W \<longleftrightarrow> (\<forall>p fl w r w'. dv_good W w \<longrightarrow> sys_open K p fl w = (r, w') \<longrightarrow>
     dv_good W w' \<and> (\<forall>q. q \<noteq> p \<longrightarrow> dv_disk W w' q = dv_disk W w q) \<and>
     (O_RDWR \<notin> set fl \<longrightarrow> dv_disk W w' = dv_disk W w) \<and>
     (case r of
        Errno e \<Rightarrow> dv_open W w' = dv_open W w
      | Ret fd \<Rightarrow> 0 \<le> fd \<and> dv_open W w fd = None \<and> dv_open W w' = (dv_open W w)(fd \<mapsto> (p, set fl)) \<and>
          dv_disk W w' p \<noteq> None \<and> (O_RDWR \<in> set fl \<and> O_TRUNC \<in> set fl \<longrightarrow> dv_disk W w' p = Some [])))"

definition disk_close_law :: "'w sys \<Rightarrow> 'w disk_view \<Rightarrow> bool" where
  "disk_close_law K W \<longleftrightarrow> (\<forall>fd w. dv_good W w \<longrightarrow> dv_good W (sys_close K fd w) \<and>
     dv_open W (sys_close K fd w) = (dv_open W w)(fd := None) \<and> dv_disk W (sys_close K fd w) = dv_disk W w)"

text \<open>The sizes of blocks that are reported are multiples of \<open>a\<close>, what direct I/O asks for, and at most \<open>n\<close>.\<close>

definition disk_stat_law :: "'w sys \<Rightarrow> 'w disk_view \<Rightarrow> nat \<Rightarrow> u64 \<Rightarrow> bool" where
  "disk_stat_law K W a n \<longleftrightarrow>
     (\<forall>fd w r w'. dv_good W w \<longrightarrow> sys_blksszget K fd w = (r, w') \<longrightarrow>
        still W w w' \<and> (\<forall>l. r = Ret l \<longrightarrow> l \<le> uint n \<and> int a dvd l)) \<and>
     (\<forall>p w r w'. dv_good W w \<longrightarrow> sys_statfs K p w = (r, w') \<longrightarrow>
        still W w w' \<and> (\<forall>l. r = Ret l \<longrightarrow> 0 < l \<and> l \<le> uint n \<and> int a dvd l))"

definition disk_files_law :: "'w sys \<Rightarrow> 'w disk_view \<Rightarrow> nat \<Rightarrow> u64 \<Rightarrow> bool" where
  "disk_files_law K W a n \<longleftrightarrow> disk_open_law K W \<and> disk_close_law K W \<and> disk_stat_law K W a n"

lemma disk_files_lawD:
  assumes "disk_files_law K W a n"
  shows "disk_open_law K W" "disk_close_law K W" "disk_stat_law K W a n"
  using assms by (auto simp: disk_files_law_def)

lemma disk_openD:
  assumes "disk_files_law K W a n" and "dv_good W w" and "sys_open K p fl w = (r, w')"
  shows "dv_good W w'" and "\<And>q. q \<noteq> p \<Longrightarrow> dv_disk W w' q = dv_disk W w q"
    and "O_RDWR \<notin> set fl \<Longrightarrow> dv_disk W w' = dv_disk W w"
    and "r = Errno e \<Longrightarrow> dv_open W w' = dv_open W w"
    and "r = Ret fd \<Longrightarrow> 0 \<le> fd \<and> dv_open W w fd = None \<and> dv_open W w' = (dv_open W w)(fd \<mapsto> (p, set fl)) \<and>
          dv_disk W w' p \<noteq> None \<and> (O_RDWR \<in> set fl \<and> O_TRUNC \<in> set fl \<longrightarrow> dv_disk W w' p = Some [])"
  using disk_files_lawD(1) [OF assms(1), unfolded disk_open_law_def, rule_format, OF assms(2,3)] by auto

lemma disk_closeD:
  assumes "disk_files_law K W a n" and "dv_good W w"
  shows "dv_good W (sys_close K fd w)" "dv_open W (sys_close K fd w) = (dv_open W w)(fd := None)"
    "dv_disk W (sys_close K fd w) = dv_disk W w"
  using disk_files_lawD(2) [OF assms(1)] assms(2) by (simp_all add: disk_close_law_def)

text \<open>A descriptor that was opened and is closed again leaves the others as they were.\<close>

lemma disk_close_again:
  assumes "disk_files_law K W a n" and "dv_good W w1" and "dv_open W w1 = (dv_open W w)(fd \<mapsto> x)" and "dv_open W w fd = None"
  shows "dv_open W (sys_close K fd w1) = dv_open W w"
  using disk_closeD(2) [OF assms(1,2), of fd] assms(3,4) fun_upd_idem [where f = "dv_open W w", OF assms(4)] by simp

text \<open>The block size is asked through a descriptor of its own, which is closed again.\<close>

lemma block_size_on_disk:
  assumes law: "disk_files_law K W a n" and good: "dv_good W w" and call: "block_size K path w = (r, w')"
  shows "still W w w'" and "r = Inr b \<Longrightarrow> b \<noteq> 0 \<and> b \<le> n \<and> a dvd unat b"
proof -
  have fit: "word_of_int l \<noteq> (0 :: u64) \<and> word_of_int l \<le> n \<and> a dvd unat (word_of_int l :: u64)"
    if "0 < l" "l \<le> uint n" "int a dvd l" for l
  proof -
    have "uint (word_of_int l :: u64) = l"
    proof (rule word_of_int_inverse [OF refl])
      show "0 \<le> l" using that(1) by simp
      show "l < 2 ^ LENGTH(64)" using that(2) uint_lt2p [of n] by linarith
    qed
    with that(3) have "int a dvd int (unat (word_of_int l :: u64))" unfolding uint_u64 by simp
    then have "a dvd unat (word_of_int l :: u64)" by (rule int_dvd_int_iff [THEN iffD1])
    with positive_size_fits [OF that(1,2)] show ?thesis by blast
  qed
  note blk = disk_files_lawD(3) [OF law, unfolded disk_stat_law_def, THEN conjunct1, rule_format]
    and sfs = disk_files_lawD(3) [OF law, unfolded disk_stat_law_def, THEN conjunct2, rule_format]
  obtain r1 w1 where o: "sys_open K path [O_RDONLY, O_CLOEXEC] w = (r1, w1)" by (metis prod.exhaust)
  note opn = disk_openD [OF law good o]
  have "still W w w' \<and> (\<forall>b. r = Inr b \<longrightarrow> b \<noteq> 0 \<and> b \<le> n \<and> a dvd unat b)"
  proof (cases r1)
    case (Errno e)
    with call o opn show ?thesis by (auto simp: block_size_def still_def)
  next
    case (Ret fd)
    obtain r2 w2 where b: "sys_blksszget K fd w1 = (r2, w2)" by (metis prod.exhaust)
    have s2: "still W w1 w2" "\<forall>l. r2 = Ret l \<longrightarrow> l \<le> uint n \<and> int a dvd l" using blk [OF opn(1) b] by simp_all
    let ?w3 = "sys_close K fd w2"
    note cls = disk_closeD [OF law still_good [OF s2(1)], of fd]
    have s3: "still W w ?w3"
      using disk_close_again [OF law still_good [OF s2(1)], of w fd] cls opn(3) opn(5) [OF Ret] s2(1) by (simp add: still_def)
    obtain r4 w4 where s: "sys_statfs K path ?w3 = (r4, w4)" by (metis prod.exhaust)
    have s4: "still W ?w3 w4" "\<forall>l. r4 = Ret l \<longrightarrow> 0 < l \<and> l \<le> uint n \<and> int a dvd l"
      using sfs [OF cls(1) s] by simp_all
    have end4: "still W w w4" using s3 s4(1) by (rule still_trans)
    have "w' = ?w3 \<and> (\<exists>l. 0 < l \<and> r2 = Ret l \<and> r = Inr (word_of_int l)) \<or>
        w' = w4 \<and> (\<forall>b. r = Inr b \<longrightarrow> (\<exists>l. r4 = Ret l \<and> b = word_of_int l))"
      using call o Ret b s by (auto simp: block_size_def Let_def split: sysret.splits if_splits)
    then show ?thesis
    proof (elim disjE conjE exE)
      fix l assume "w' = ?w3" "0 < l" "r2 = Ret l" "r = Inr (word_of_int l)"
      with s3 s2(2) fit show ?thesis by simp
    next
      assume "w' = w4" and "\<forall>b. r = Inr b \<longrightarrow> (\<exists>l. r4 = Ret l \<and> b = word_of_int l)"
      with end4 s4(2) fit show ?thesis by fastforce
    qed
  qed
  then show "still W w w'" and "r = Inr b \<Longrightarrow> b \<noteq> 0 \<and> b \<le> n \<and> a dvd unat b" by blast+
qed

section \<open>Direct writes\<close>

text \<open>
  Direct I/O: offset, size and address are multiples of \<open>a\<close>. Nothing is promised about a write that is not. One that
  is stores a multiple of \<open>a\<close>. With \<open>a = 1\<close> this is the promise of \<open>pwrite_law\<close>.
\<close>

definition aligned_io :: "nat \<Rightarrow> int \<Rightarrow> span \<Rightarrow> bool" where
  "aligned_io a off s \<longleftrightarrow> int a dvd off \<and> a dvd span_size s \<and> a dvd unat (sp_addr s)"

definition aligned_pwrite_law :: "nat \<Rightarrow> 'w sys \<Rightarrow> 'w view \<Rightarrow> bool" where
  "aligned_pwrite_law a K V \<longleftrightarrow> (\<forall>fd c s off w r w'.
     v_good V w \<longrightarrow> v_fds V w fd = Some c \<longrightarrow> aligned_io a off s \<longrightarrow> sys_pwrite K fd s off w = (r, w') \<longrightarrow>
       (case r of
          Ret n \<Rightarrow> v_good V w' \<and> 0 \<le> off \<and> n \<le> span_size s \<and> a dvd n \<and>
            v_fds V w' = (v_fds V w)(fd \<mapsto> file_store (nat off) (take n (sp_bytes s)) c)
        | Errno e \<Rightarrow> quiet V w w' \<and> (e = EINTR \<longrightarrow> v_signals V w' < v_signals V w)))"

lemma pwrite_law_aligned: "pwrite_law K V \<Longrightarrow> aligned_pwrite_law 1 K V"
  unfolding aligned_pwrite_law_def
proof (intro allI impI)
  fix fd c s off w r w'
  assume law: "pwrite_law K V" and w: "v_good V w" "v_fds V w fd = Some c" and call: "sys_pwrite K fd s off w = (r, w')"
  from law [unfolded pwrite_law_def, rule_format, OF w call] show "case r of
      Ret n \<Rightarrow> v_good V w' \<and> 0 \<le> off \<and> n \<le> span_size s \<and> 1 dvd n \<and>
        v_fds V w' = (v_fds V w)(fd \<mapsto> file_store (nat off) (take n (sp_bytes s)) c)
    | Errno e \<Rightarrow> quiet V w w' \<and> (e = EINTR \<longrightarrow> v_signals V w' < v_signals V w)" by (cases r) simp_all
qed

text \<open>\<open>a\<close> is a power of two, so offsets and addresses that wrap keep their alignment.\<close>

lemma dvd_unat_plus:
  assumes "a dvd 2 ^ 64" and "a dvd unat x" and "a dvd k"
  shows "a dvd unat (x + of_nat k :: u64)"
  using assms by (simp add: unat_word_ariths unat_of_nat dvd_mod dvd_add)

lemma dvd_sint:
  assumes "a dvd 2 ^ 64" and "a dvd unat x"
  shows "int a dvd sint (x :: u64)"
proof -
  have "int a dvd int (2 ^ 64)" using assms(1) by (rule int_dvd_int_iff [THEN iffD2])
  then have size': "int a dvd 2 ^ 64" unfolding of_nat_power of_nat_numeral .
  have le: "int a dvd uint x" unfolding uint_u64 using assms(2) by (rule int_dvd_int_iff [THEN iffD2])
  have "uint x = sint x mod 2 ^ 64" using uint_sint [of x] by (simp add: take_bit_eq_mod)
  with le have "int a dvd sint x mod 2 ^ 64" by (simp only:)
  then show ?thesis by (rule dvd_mod_iff [OF size', THEN iffD1])
qed

lemma aligned_io_subspan:
  fixes off :: u64
  assumes "a dvd 2 ^ 64" and "a dvd unat off" and "a dvd span_size src" and "a dvd unat (sp_addr src)" and "a dvd k"
  shows "aligned_io a (sint (off + of_nat k)) (subspan k src)"
proof -
  have "a dvd unat (sp_addr (subspan k src))" using dvd_unat_plus [OF assms(1,4,5)] by (simp add: subspan_def)
  moreover have "int a dvd sint (off + of_nat k)" by (rule dvd_sint [OF assms(1) dvd_unat_plus [OF assms(1,2,5)]])
  ultimately show ?thesis using assms(3,5) by (simp add: aligned_io_def dvd_diff_nat)
qed

end
