(* ===== verification/MemDisk.thy ===== *)
theory MemDisk
  imports Disk
begin

text \<open>
  A disk in memory: files by their paths, the open descriptors with their flags, and the next descriptor. Blocks have four
  bytes, and a direct write that is not aligned to them is refused. It shows that the hypotheses of \<^theory_text>\<open>Disk\<close> can hold; the
  witnesses use it.
\<close>

record mini_disk =
  md_files :: "(string \<times> byte list) list"
  md_open :: "(int \<times> string \<times> open_flag set) list"
  md_next :: int

definition mini_open :: "string \<Rightarrow> open_flag list \<Rightarrow> mini_disk \<Rightarrow> int sysret \<times> mini_disk" where
  "mini_open p fl d =
     (let d' = d\<lparr>md_open := (md_next d, p, set fl) # md_open d, md_next := md_next d + 1\<rparr> in
      if O_RDWR \<in> set fl \<and> O_TRUNC \<in> set fl then (Ret (md_next d), d'\<lparr>md_files := (p, []) # md_files d\<rparr>)
      else if map_of (md_files d) p = None then (Errno 2, d)
      else (Ret (md_next d), d'))"

definition mini_pwrite :: "int \<Rightarrow> span \<Rightarrow> int \<Rightarrow> mini_disk \<Rightarrow> nat sysret \<times> mini_disk" where
  "mini_pwrite fd s off d =
     (case map_of (md_open d) fd of
        None \<Rightarrow> (Errno 9, d)
      | Some (p, F) \<Rightarrow>
          if O_RDWR \<notin> F then (Errno 9, d)
          else if off < 0 \<or> O_DIRECT \<in> F \<and> \<not> (off mod 4 = 0 \<and> span_size s mod 4 = 0 \<and> sp_addr s mod 4 = 0) then (Errno 22, d)
          else (Ret (span_size s),
            d\<lparr>md_files := (p, file_store (nat off) (sp_bytes s) (the (map_of (md_files d) p))) # md_files d\<rparr>))"

definition mini_sys :: "mini_disk sys" where
  "mini_sys = \<lparr>
     sys_open = mini_open,
     sys_close = (\<lambda>fd d. d\<lparr>md_open := filter (\<lambda>e. fst e \<noteq> fd) (md_open d)\<rparr>),
     sys_blksszget = (\<lambda>fd d. (Errno 25, d)),
     sys_statfs = (\<lambda>p d. (Ret 4, d)),
     sys_fstat = (\<lambda>fd d. (Errno 9, d)),
     sys_pread = (\<lambda>fd s off d. (Errno 9, d)),
     sys_pwrite = mini_pwrite,
     sys_fsync = (\<lambda>fd d. (Ret (), d)),
     sys_fdatasync = (\<lambda>fd d. (Ret (), d)),
     fp_alloc = (\<lambda>n a d. (Inr \<lparr>sp_addr = 0, sp_bytes = replicate (unat n) 0\<rparr>, d)),
     pool_start = (\<lambda>n d. (None, d)),
     pool_finish = (\<lambda>n d. ([], d))\<rparr>"

definition mini_view :: "mini_disk disk_view" where
  "mini_view = \<lparr>
     dv_good = (\<lambda>d. 0 \<le> md_next d \<and> list_all (\<lambda>e. fst e < md_next d) (md_open d)),
     dv_open = (\<lambda>d. map_of (md_open d)), dv_disk = (\<lambda>d. map_of (md_files d)), dv_signals = (\<lambda>d. 0)\<rparr>"

lemma mini_fresh: "list_all (\<lambda>e. fst e < (n :: int)) xs \<Longrightarrow> map_of xs n = None"
  by (induction xs) auto

lemma filter_other: "map_of (filter (\<lambda>e. fst e \<noteq> k) xs) = (map_of xs)(k := None)"
  by (induction xs) (auto simp: fun_eq_iff)

lemma mini_files_law: "disk_files_law mini_sys mini_view 4 4"
  unfolding disk_files_law_def
proof (intro conjI)
  show "disk_open_law mini_sys mini_view"
    by (auto simp: disk_open_law_def mini_sys_def mini_view_def mini_open_def Let_def mini_fresh list_all_iff
        map_of_eq_None_iff split: if_splits)
  show "disk_close_law mini_sys mini_view"
    by (auto simp: disk_close_law_def mini_sys_def mini_view_def filter_other list_all_iff)
  show "disk_stat_law mini_sys mini_view 4 4"
    by (auto simp: disk_stat_law_def mini_sys_def mini_view_def still_def)
qed

end
