(* ===== verification/File.thy ===== *)
theory File
  imports Memfs MemDisk
begin

text \<open>
  \<open>include/dsio/file.hpp\<close> and \<open>src/file.cpp\<close>: a descriptor with the alignment it was opened with,
  positional reads and writes. An operation that writes through a span returns the span.
\<close>

section \<open>Definitions\<close>

datatype open_mode = ReadOnly | DirectRead | WriteCreate | DirectWrite

record file_t =
  file_fd :: int
  file_path :: string
  file_alignment :: u64

text \<open>\<open>File()\<close>.\<close>

definition file_none :: file_t where
  "file_none = \<lparr>file_fd = -1, file_path = [], file_alignment = 0\<rparr>"

definition is_open :: "file_t \<Rightarrow> bool" where
  "is_open f \<longleftrightarrow> file_fd f \<ge> 0"

definition file_error :: "string \<Rightarrow> string \<Rightarrow> errno \<Rightarrow> error" where
  "file_error operation path code = FileError (FileOp operation path code)"

definition closed_error :: "string \<Rightarrow> error" where
  "closed_error operation = FileError (FileClosed operation)"

text \<open>\<open>File::close\<close>: the descriptor is closed once; path and alignment stay.\<close>

definition file_close :: "'w sys \<Rightarrow> file_t \<Rightarrow> 'w \<Rightarrow> file_t \<times> 'w" where
  "file_close K f w =
     (if file_fd f \<ge> 0 then (f\<lparr>file_fd := -1\<rparr>, sys_close K (file_fd f) w) else (f, w))"

text \<open>
  \<open>File(File &&other)\<close> gives the new object and what is left in \<open>other\<close>. A moved-from
  \<open>std::string\<close> is empty in the implementations of the standard library.
\<close>

definition file_move :: "file_t \<Rightarrow> file_t \<times> file_t" where
  "file_move other =
     (\<lparr>file_fd = file_fd other, file_path = file_path other, file_alignment = file_alignment other\<rparr>,
      \<lparr>file_fd = -1, file_path = [], file_alignment = 0\<rparr>)"

text \<open>\<open>operator=(File &&other)\<close> for two different objects: the target is closed first.\<close>

definition file_move_assign :: "'w sys \<Rightarrow> file_t \<Rightarrow> file_t \<Rightarrow> 'w \<Rightarrow> (file_t \<times> file_t) \<times> 'w" where
  "file_move_assign K self other w =
     (case file_close K self w of (_, w') \<Rightarrow> (file_move other, w'))"

definition open_flags :: "open_mode \<Rightarrow> open_flag list" where
  "open_flags mode =
     (let direct = (mode = DirectRead \<or> mode = DirectWrite);
          write = (mode = WriteCreate \<or> mode = DirectWrite);
          flags = (if write then [O_RDWR, O_CREAT, O_TRUNC] else [O_RDONLY])
      in flags @ (if direct then [O_DIRECT] else []) @ [O_CLOEXEC])"

definition file_open :: "'w sys \<Rightarrow> string \<Rightarrow> open_mode \<Rightarrow> 'w \<Rightarrow> file_t outcome \<times> 'w" where
  "file_open K path mode w =
     (case sys_open K path (open_flags mode) w of
        (Errno code, w1) \<Rightarrow> (Inl (FileError (FileCannotOpen path code)), w1)
      | (Ret fd, w1) \<Rightarrow>
          (case block_size K path w1 of
             (Inl e, w2) \<Rightarrow> (Inl e, sys_close K fd w2)
           | (Inr block, w2) \<Rightarrow>
               (Inr \<lparr>file_fd = fd, file_path = path, file_alignment = block\<rparr>, w2)))"

definition file_size :: "'w sys \<Rightarrow> file_t \<Rightarrow> 'w \<Rightarrow> u64 outcome \<times> 'w" where
  "file_size K f w =
     (if file_fd f < 0 then (Inl (closed_error ''size''), w)
      else (case sys_fstat K (file_fd f) w of
          (Errno code, w') \<Rightarrow> (Inl (file_error ''size'' (file_path f) code), w')
        | (Ret st_size, w') \<Rightarrow> (Inr (word_of_int st_size), w')))"

text \<open>The offset is cast to the signed \<open>off_t\<close>.\<close>

definition file_pread ::
  "'w sys \<Rightarrow> file_t \<Rightarrow> u64 \<Rightarrow> span \<Rightarrow> 'w \<Rightarrow> ((nat outcome \<times> span) \<times> 'w) option" where
  "file_pread K f offset dst w =
     (if file_fd f < 0 then Some ((Inl (closed_error ''pread''), dst), w)
      else do {
        (got, w') \<leftarrow> retry_eintr (sys_pread K (file_fd f) dst (sint offset)) w;
        (case got of
           Errno code \<Rightarrow> Some ((Inl (file_error ''pread'' (file_path f) code), dst), w')
         | Ret bs \<Rightarrow> Some ((Inr (length bs), span_store 0 bs dst), w'))
      })"

text \<open>The loop of \<open>pread_exact\<close>, from \<open>total\<close> (here \<open>sofar\<close>) bytes on.\<close>

partial_function (option) pread_exact_loop ::
  "'w sys \<Rightarrow> file_t \<Rightarrow> u64 \<Rightarrow> span \<Rightarrow> nat \<Rightarrow> 'w \<Rightarrow> ((nat outcome \<times> span) \<times> 'w) option" where
  "pread_exact_loop K f offset dst sofar w =
     (if sofar < span_size dst then do {
        ((got, sub), w') \<leftarrow> file_pread K f (offset + of_nat sofar) (subspan sofar dst) w;
        let dst' = span_store sofar (sp_bytes sub) dst;
        (case got of
           Inl e \<Rightarrow> Some ((Inl e, dst'), w')
         | Inr n \<Rightarrow>
             if n = 0 then Some ((Inr sofar, dst'), w')
             else pread_exact_loop K f offset dst' (sofar + n) w')
      } else Some ((Inr sofar, dst), w))"

definition file_pread_exact ::
  "'w sys \<Rightarrow> file_t \<Rightarrow> u64 \<Rightarrow> span \<Rightarrow> 'w \<Rightarrow> ((nat outcome \<times> span) \<times> 'w) option" where
  "file_pread_exact K f offset dst w = pread_exact_loop K f offset dst 0 w"

definition file_pwrite :: "'w sys \<Rightarrow> file_t \<Rightarrow> u64 \<Rightarrow> span \<Rightarrow> 'w \<Rightarrow> (nat outcome \<times> 'w) option" where
  "file_pwrite K f offset src w =
     (if file_fd f < 0 then Some (Inl (closed_error ''pwrite''), w)
      else do {
        (put, w') \<leftarrow> retry_eintr (sys_pwrite K (file_fd f) src (sint offset)) w;
        (case put of
           Errno code \<Rightarrow> Some (Inl (file_error ''pwrite'' (file_path f) code), w')
         | Ret n \<Rightarrow> Some (Inr n, w'))
      })"

partial_function (option) pwrite_exact_loop ::
  "'w sys \<Rightarrow> file_t \<Rightarrow> u64 \<Rightarrow> span \<Rightarrow> nat \<Rightarrow> 'w \<Rightarrow> (nat outcome \<times> 'w) option" where
  "pwrite_exact_loop K f offset src sofar w =
     (if sofar < span_size src then do {
        (put, w') \<leftarrow> file_pwrite K f (offset + of_nat sofar) (subspan sofar src) w;
        (case put of
           Inl e \<Rightarrow> Some (Inl e, w')
         | Inr n \<Rightarrow>
             if n = 0 then Some (Inl (file_error ''pwrite_exact'' (file_path f) EIO), w')
             else pwrite_exact_loop K f offset src (sofar + n) w')
      } else Some (Inr sofar, w))"

definition file_pwrite_exact ::
  "'w sys \<Rightarrow> file_t \<Rightarrow> u64 \<Rightarrow> span \<Rightarrow> 'w \<Rightarrow> (nat outcome \<times> 'w) option" where
  "file_pwrite_exact K f offset src w = pwrite_exact_loop K f offset src 0 w"

definition file_sync :: "'w sys \<Rightarrow> file_t \<Rightarrow> bool \<Rightarrow> 'w \<Rightarrow> (unit outcome \<times> 'w) option" where
  "file_sync K f full w =
     (if file_fd f < 0 then Some (Inl (closed_error ''sync''), w)
      else do {
        (rc, w') \<leftarrow> retry_eintr
          (if full then sys_fsync K (file_fd f) else sys_fdatasync K (file_fd f)) w;
        (case rc of
           Errno code \<Rightarrow> Some (Inl (file_error ''sync'' (file_path f) code), w')
         | Ret _ \<Rightarrow> Some (Inr (), w'))
      })"

declare pread_exact_loop.simps [code]
declare pwrite_exact_loop.simps [code]

section \<open>Reading\<close>

text \<open>\<open>f\<close> is open in the world \<open>w\<close> on a file with content \<open>c\<close>.\<close>

definition reads_from :: "'w view \<Rightarrow> file_t \<Rightarrow> byte list \<Rightarrow> 'w \<Rightarrow> bool" where
  "reads_from V f c w \<longleftrightarrow> v_good V w \<and> 0 \<le> file_fd f \<and> v_fds V w (file_fd f) = Some c"

lemma reads_from_quiet: "reads_from V f c w \<Longrightarrow> quiet V w w' \<Longrightarrow> reads_from V f c w'"
  by (simp add: reads_from_def quiet_def)

lemma reads_from_good: "reads_from V f c w \<Longrightarrow> v_good V w"
  by (simp add: reads_from_def)

lemma reads_from_size: "read_law K V \<Longrightarrow> reads_from V f c w \<Longrightarrow> length c < 2 ^ 63"
  by (auto simp: reads_from_def read_law_def size_law_def)

text \<open>
  The bytes that a successful \<open>pread (off, dst)\<close> may leave in \<open>dst\<close>: a prefix of the file's
  bytes at the offset, nothing only at the end of the file.
\<close>

definition read_result :: "byte list \<Rightarrow> u64 \<Rightarrow> span \<Rightarrow> nat \<Rightarrow> span \<Rightarrow> bool" where
  "read_result c off dst n dst' \<longleftrightarrow>
     unat off < 2 ^ 63 \<and> n \<le> span_size dst \<and> n \<le> length c - unat off \<and>
     dst' = span_store 0 (window (unat off) n c) dst \<and>
     (n = 0 \<longrightarrow> span_size dst = 0 \<or> length c \<le> unat off)"

lemma read_interrupted_quiet:
  assumes law: "read_law K V"
  shows "reads_from V f c u \<Longrightarrow> sys_pread K (file_fd f) dst off u = (r, v) \<Longrightarrow> interrupted r \<Longrightarrow>
    quiet V u v \<and> v_signals V v < v_signals V u"
  using pread_lawD(1) [OF read_lawD(1) [OF law]] signal_lawD [OF read_lawD(2) [OF law]]
  unfolding reads_from_def by blast

text \<open>The uninterrupted system call behind a retry loop on an open file.\<close>

lemma retry_pread:
  assumes law: "read_law K V" and rd: "reads_from V f c w"
  obtains u r w' where "retry_eintr (sys_pread K (file_fd f) dst off) w = Some (r, w')"
    and "quiet V w u" and "sys_pread K (file_fd f) dst off u = (r, w')"
    and "reads_from V f c u" and "quiet V w w'"
proof -
  let ?call = "sys_pread K (file_fd f) dst off"
  let ?P = "\<lambda>u. reads_from V f c u \<and> quiet V w u"
  have step: "?P v \<and> v_signals V v < v_signals V u"
    if "?P u" "?call u = (r, v)" "interrupted r" for u v r
    using that read_interrupted_quiet [OF law] by (blast intro: reads_from_quiet quiet_trans)
  have start: "?P w" using rd by (simp add: reads_from_good)
  obtain r w' where ret: "retry_eintr ?call w = Some (r, w')"
    using retry_eintr_returns [where P = ?P, OF start, of ?call "v_signals V"] step by blast
  then obtain u where u: "?P u" "?call u = (r, w')" "\<not> interrupted r"
    using retry_eintr_invariant [where P = ?P, OF ret start] step by blast
  then have "quiet V u w'"
    using pread_lawD(1) [OF read_lawD(1) [OF law]] by (auto simp: reads_from_def)
  with u have "quiet V w w'" by (blast intro: quiet_trans)
  with that ret u show thesis by blast
qed

lemma sys_pread_result:
  assumes law: "read_law K V" and rd: "reads_from V f c u"
    and call: "sys_pread K (file_fd f) dst (sint off) u = (Ret bs, w')"
  shows "read_result c off dst (length bs) (span_store 0 bs dst)"
proof -
  from rd have "v_good V u" "v_fds V u (file_fd f) = Some c" by (simp_all add: reads_from_def)
  from pread_lawD(3) [OF read_lawD(1) [OF law] this call]
  have b: "0 \<le> sint off" "bs = window (nat (sint off)) (length bs) c" "length bs \<le> span_size dst"
    "bs = [] \<longrightarrow> span_size dst = 0 \<or> length c \<le> nat (sint off)" by auto
  then have off: "unat off < 2 ^ 63" "nat (sint off) = unat off"
    by (simp_all add: sint_u64_nonneg sint_u64_small)
  have "length (window (unat off) (length bs) c) = length bs" using b(2) off(2) by simp
  then have "length bs \<le> length c - unat off" by (simp add: bytes_simps)
  with b off show ?thesis unfolding read_result_def by simp
qed

text \<open>\<open>File::pread\<close> on an open file returns, and what it returns is the file's.\<close>

lemma file_pread_correct:
  assumes law: "read_law K V" and rd: "reads_from V f c w"
  shows "\<exists>got dst' w'. file_pread K f off dst w = Some ((got, dst'), w') \<and> quiet V w w' \<and>
    (case got of Inl e \<Rightarrow> dst' = dst | Inr n \<Rightarrow> read_result c off dst n dst')"
proof -
  from retry_pread [OF law rd, of dst "sint off"] obtain u r w' where
    ret: "retry_eintr (sys_pread K (file_fd f) dst (sint off)) w = Some (r, w')"
    and call: "sys_pread K (file_fd f) dst (sint off) u = (r, w')"
    and u: "reads_from V f c u" and q: "quiet V w w'" by blast
  have nonneg: "\<not> file_fd f < 0" using rd by (simp add: reads_from_def)
  show ?thesis
  proof (cases r)
    case (Errno code)
    with ret q nonneg show ?thesis by (simp add: file_pread_def)
  next
    case (Ret bs)
    with call have "sys_pread K (file_fd f) dst (sint off) u = (Ret bs, w')" by simp
    from sys_pread_result [OF law u this] ret q nonneg Ret show ?thesis
      by (simp add: file_pread_def)
  qed
qed

lemma file_pread_closed:
  "\<not> is_open f \<Longrightarrow> file_pread K f off dst w = Some ((Inl (closed_error ''pread''), dst), w)"
  by (simp add: is_open_def file_pread_def)

text \<open>
  The loop of \<open>pread_exact\<close>, entered with \<open>sofar\<close> bytes of the file at the start of the
  destination, ends; without an error it has read up to the end of the destination or of the file.
\<close>

text \<open>
  One more read at the end of what has been read: the part of the destination that the loop has
  filled grows by what was read.
\<close>

lemma read_result_extends:
  assumes rr: "read_result c (off + of_nat sofar) (subspan sofar dst) n sub"
    and lt: "sofar < span_size dst" and size: "length c < 2 ^ 63"
    and inside: "0 < sofar \<longrightarrow> unat off + sofar \<le> length c"
    and pre: "take sofar (sp_bytes dst) = window (unat off) sofar c"
  defines "dst1 \<equiv> span_store sofar (sp_bytes sub) dst"
  shows "span_size dst1 = span_size dst" "sofar + n \<le> span_size dst"
    "n \<noteq> 0 \<Longrightarrow> unat off + (sofar + n) \<le> length c"
    "n = 0 \<Longrightarrow> length c \<le> unat off + sofar"
    "take (sofar + n) (sp_bytes dst1) = window (unat off) (sofar + n) c"
    "drop (sofar + n) (sp_bytes dst1) = drop (sofar + n) (sp_bytes dst)"
proof -
  have off: "unat (off + of_nat sofar) = unat off + sofar"
  proof (cases "sofar = 0")
    case False
    with inside size have "unat off + sofar < 2 ^ 63" by simp
    then show ?thesis by (simp add: u64_nat)
  qed simp
  let ?w = "window (unat off + sofar) n c"
  from rr off have n: "n \<le> span_size dst - sofar" "n \<le> length c - (unat off + sofar)"
    and sub: "sub = span_store 0 ?w (subspan sofar dst)"
    and eof: "n = 0 \<longrightarrow> span_size dst - sofar = 0 \<or> length c \<le> unat off + sofar"
    unfolding read_result_def by auto
  have lw: "length ?w = n" using n(2) by (simp add: bytes_simps)
  have sb: "sp_bytes sub = ?w @ drop (sofar + n) (sp_bytes dst)"
    using sub lw by (simp add: overwrite_def subspan_def add.commute)
  have ls: "length (sp_bytes sub) = span_size dst - sofar"
    using sb lw n(1) lt by (simp add: span_size_def)
  show "span_size dst1 = span_size dst"
    unfolding dst1_def using ls lt by (simp add: span_size_def bytes_simps)
  show "sofar + n \<le> span_size dst" using n(1) lt by simp
  show "n \<noteq> 0 \<Longrightarrow> unat off + (sofar + n) \<le> length c" using n(2) by simp
  show "n = 0 \<Longrightarrow> length c \<le> unat off + sofar" using eof lt by simp
  have d1: "sp_bytes dst1 = take sofar (sp_bytes dst) @ ?w @ drop (sofar + n) (sp_bytes dst)"
    unfolding dst1_def using ls sb lt by (simp add: overwrite_def span_size_def)
  have lt1: "length (take sofar (sp_bytes dst)) = sofar" using lt by (simp add: span_size_def)
  show "take (sofar + n) (sp_bytes dst1) = window (unat off) (sofar + n) c"
    using d1 lt1 lw pre by (simp add: window_append)
  show "drop (sofar + n) (sp_bytes dst1) = drop (sofar + n) (sp_bytes dst)"
    using d1 lt1 lw by simp
qed

lemma pread_exact_loop_correct:
  assumes law: "read_law K V"
  shows "reads_from V f c w \<Longrightarrow> sofar \<le> span_size dst \<Longrightarrow>
    (0 < sofar \<longrightarrow> unat off + sofar \<le> length c) \<Longrightarrow>
    take sofar (sp_bytes dst) = window (unat off) sofar c \<Longrightarrow>
    \<exists>got dst' w'. pread_exact_loop K f off dst sofar w = Some ((got, dst'), w') \<and> quiet V w w' \<and>
      span_size dst' = span_size dst \<and> sp_addr dst' = sp_addr dst \<and>
      (\<forall>n. got = Inr n \<longrightarrow> n = min (span_size dst) (length c - unat off) \<and>
        take n (sp_bytes dst') = window (unat off) n c \<and>
        drop n (sp_bytes dst') = drop n (sp_bytes dst))"
proof (induction "span_size dst - sofar" arbitrary: sofar dst w rule: less_induct)
  case less
  note rd = less.prems(1)
  show ?case
  proof (cases "sofar < span_size dst")
    case False
    with less.prems have "sofar = min (span_size dst) (length c - unat off)" by auto
    with False less.prems show ?thesis
      by (subst pread_exact_loop.simps) (simp add: reads_from_good)
  next
    case True
    let ?off = "off + of_nat sofar"
    obtain got sub w1 where pr: "file_pread K f ?off (subspan sofar dst) w = Some ((got, sub), w1)"
      and q1: "quiet V w w1"
      and res: "case got of Inl e \<Rightarrow> sub = subspan sofar dst
         | Inr n \<Rightarrow> read_result c ?off (subspan sofar dst) n sub"
      using file_pread_correct [OF law rd] by blast
    let ?dst1 = "span_store sofar (sp_bytes sub) dst"
    show ?thesis
    proof (cases got)
      case (Inl e)
      with res have "?dst1 = dst"
        using True by (simp add: span_store_def subspan_def overwrite_def span_size_def)
      with True pr Inl q1 show ?thesis by (subst pread_exact_loop.simps) simp
    next
      case (Inr n)
      with res have rr: "read_result c ?off (subspan sofar dst) n sub" by simp
      note ext = read_result_extends [OF rr True reads_from_size [OF law rd] less.prems(3,4)]
      show ?thesis
      proof (cases "n = 0")
        case True': True
        have eof: "length c \<le> unat off + sofar" by (rule ext(4) [OF True'])
        have "sofar = min (span_size dst) (length c - unat off)"
          using eof less.prems(3) True by auto
        with True pr Inr True' q1 ext show ?thesis
          by (subst pread_exact_loop.simps) simp
      next
        case False
        have "span_size ?dst1 - (sofar + n) < span_size dst - sofar"
          using ext(1) False True by simp
        note IH = less.hyps [OF this reads_from_quiet [OF rd q1]]
        have "\<exists>got dst' w'. pread_exact_loop K f off ?dst1 (sofar + n) w1 = Some ((got, dst'), w') \<and>
          quiet V w1 w' \<and> span_size dst' = span_size ?dst1 \<and> sp_addr dst' = sp_addr ?dst1 \<and>
          (\<forall>m. got = Inr m \<longrightarrow> m = min (span_size ?dst1) (length c - unat off) \<and>
            take m (sp_bytes dst') = window (unat off) m c \<and>
            drop m (sp_bytes dst') = drop m (sp_bytes ?dst1))"
          using IH ext False by auto
        then obtain got' dst' w' where
          rec: "pread_exact_loop K f off ?dst1 (sofar + n) w1 = Some ((got', dst'), w')"
          and q': "quiet V w1 w'" and ss: "span_size dst' = span_size dst" "sp_addr dst' = sp_addr dst"
          and val: "\<forall>m. got' = Inr m \<longrightarrow> m = min (span_size dst) (length c - unat off) \<and>
            take m (sp_bytes dst') = window (unat off) m c \<and>
            drop m (sp_bytes dst') = drop m (sp_bytes ?dst1)"
          using ext(1) by auto
        have unf: "pread_exact_loop K f off dst sofar w = Some ((got', dst'), w')"
          using True pr Inr False rec by (subst pread_exact_loop.simps) simp
        have "drop m (sp_bytes ?dst1) = drop m (sp_bytes dst)" if "got' = Inr m" for m
        proof -
          have "sofar + n \<le> m" using val that ext(2) ext(3) [OF False] by auto
          then have "drop m xs = drop (m - (sofar + n)) (drop (sofar + n) xs)" for xs :: "byte list"
            by simp
          then show ?thesis using ext(6) by metis
        qed
        with unf ss val quiet_trans [OF q1 q'] show ?thesis by auto
      qed
    qed
  qed
qed

lemma file_pread_exact_correct:
  assumes law: "read_law K V" and rd: "reads_from V f c w"
  shows "\<exists>got dst' w'. file_pread_exact K f off dst w = Some ((got, dst'), w') \<and> quiet V w w' \<and>
    span_size dst' = span_size dst \<and> sp_addr dst' = sp_addr dst \<and>
    (\<forall>n. got = Inr n \<longrightarrow> n = min (span_size dst) (length c - unat off) \<and>
      take n (sp_bytes dst') = window (unat off) n c \<and>
      drop n (sp_bytes dst') = drop n (sp_bytes dst))"
  unfolding file_pread_exact_def
  by (rule pread_exact_loop_correct [OF law rd]) (simp_all add: bytes_simps)

section \<open>Opening\<close>

lemma open_flags_read: "mode = ReadOnly \<or> mode = DirectRead \<Longrightarrow> O_RDWR \<notin> set (open_flags mode)"
  by (auto simp: open_flags_def Let_def)

lemma file_open_correct:
  assumes law: "files_law K V" and good: "v_good V w" and mode: "mode = ReadOnly \<or> mode = DirectRead"
    and call: "file_open K path mode w = (r, w')"
  shows "(\<exists>e. r = Inl e \<and> quiet V w w') \<or>
    (\<exists>f c. r = Inr f \<and> file_path f = path \<and> v_files V path = Some c \<and> reads_from V f c w' \<and>
       v_fds V w (file_fd f) = None \<and> v_fds V w' = (v_fds V w)(file_fd f \<mapsto> c))"
proof -
  note laws = files_lawD [OF law]
  obtain r1 w1 where o: "sys_open K path (open_flags mode) w = (r1, w1)"
    by (cases "sys_open K path (open_flags mode) w")
  from open_lawD [OF laws(1) good open_flags_read [OF mode] o] show ?thesis
  proof (elim disjE exE conjE)
    fix e assume "r1 = Errno e" "quiet V w w1"
    with call o show ?thesis by (auto simp: file_open_def)
  next
    fix fd c
    assume r1: "r1 = Ret fd" and g1: "v_good V w1" and nn: "0 \<le> fd" and fresh: "v_fds V w fd = None"
      and cont: "v_files V path = Some c" and fds: "v_fds V w1 = (v_fds V w)(fd \<mapsto> c)"
    obtain r2 w2 where b: "block_size K path w1 = (r2, w2)" by (cases "block_size K path w1")
    have q2: "quiet V w1 w2" by (rule block_size_quiet [OF law g1 b])
    show ?thesis
    proof (cases r2)
      case (Inl e)
      with call o r1 b have "r = Inl e" "w' = sys_close K fd w2" by (auto simp: file_open_def)
      moreover have "quiet V w (sys_close K fd w2)"
        using close_lawD [OF laws(2) quiet_good [OF q2], of fd] q2 fds fresh
        by (auto simp: quiet_def fun_eq_iff)
      ultimately show ?thesis by simp
    next
      case (Inr block)
      let ?f = "\<lparr>file_fd = fd, file_path = path, file_alignment = block\<rparr>"
      from call o r1 b Inr have "r = Inr ?f" "w' = w2" by (auto simp: file_open_def)
      moreover have "reads_from V ?f c w2" using nn q2 fds by (simp add: reads_from_def quiet_def)
      moreover have "v_fds V w2 = (v_fds V w)(fd \<mapsto> c)" using q2 fds by (simp add: quiet_def)
      moreover have "v_fds V w fd = None" by (rule fresh)
      ultimately have "r = Inr ?f \<and> file_path ?f = path \<and> v_files V path = Some c \<and>
          reads_from V ?f c w' \<and> v_fds V w (file_fd ?f) = None \<and>
          v_fds V w' = (v_fds V w)(file_fd ?f \<mapsto> c)" using cont by simp
      then show ?thesis by blast
    qed
  qed
qed

text \<open>\<open>File::size\<close> is the length of the content; a \<open>off_t\<close> fits.\<close>

lemma file_size_correct:
  assumes law: "files_law K V" and rd: "reads_from V f c w"
    and call: "file_size K f w = (r, w')"
  shows "quiet V w w'" and "r = Inr n \<Longrightarrow> unat n = length c"
proof -
  obtain r1 w1 where st: "sys_fstat K (file_fd f) w = (r1, w1)"
    by (cases "sys_fstat K (file_fd f) w")
  from rd have w: "v_good V w" "\<not> file_fd f < 0" "v_fds V w (file_fd f) = Some c"
    by (auto simp: reads_from_def)
  note st' = fstat_lawD [OF files_lawD(3) [OF law] w(1) st]
  from call st w(2) have "w' = w1" by (auto simp: file_size_def split: sysret.splits)
  with st' show "quiet V w w'" by simp
  assume "r = Inr n"
  with call st w(2) obtain m where "r1 = Ret m" "n = word_of_int m"
    by (auto simp: file_size_def split: sysret.splits)
  with st' w(3) have "n = of_nat (length c)" by simp
  moreover have "length c < 2 ^ 63" by (rule reads_from_size [OF read_law_files [OF law] rd])
  ultimately show "unat n = length c" by (simp add: unat_of_nat_u64)
qed

text \<open>A closed file: every operation says so and leaves the world alone; closing again does nothing.\<close>

lemma file_close_twice:
  "file_close K f w = (f', w') \<Longrightarrow> \<not> is_open f' \<and> file_close K f' w' = (f', w')"
  by (auto simp: file_close_def is_open_def split: if_splits)

lemma file_close_correct:
  assumes law: "files_law K V" and rd: "reads_from V f c w"
    and call: "file_close K f w = (f', w')"
  shows "v_good V w'" "v_fds V w' = (v_fds V w)(file_fd f := None)"
  using assms close_lawD [OF files_lawD(2) [OF law]] by (auto simp: file_close_def reads_from_def)

section \<open>Writing\<close>

lemma file_store_append:
  "file_store (off + length bs1) bs2 (file_store off bs1 c) = file_store off (bs1 @ bs2) c"
proof (cases "bs1 = [] \<or> bs2 = []")
  case True
  then show ?thesis by (auto simp: file_store_def)
next
  case False
  have "length (take off (c @ replicate (off - length c) 0)) = off" by simp
  with False show ?thesis
    by (simp add: file_store_def take_append drop_append ac_simps)
qed

lemma window_file_store: "window off (length bs) (file_store off bs c) = bs"
  by (auto simp: file_store_def window_def)

lemma file_pwrite_correct:
  assumes law: "aligned_pwrite_law a K V" and rd: "reads_from V f c w" and al: "aligned_io a (sint off) src"
  shows "\<exists>put w'. file_pwrite K f off src w = Some (put, w') \<and>
    (case put of
       Inl e \<Rightarrow> quiet V w w'
     | Inr n \<Rightarrow> unat off < 2 ^ 63 \<and> n \<le> span_size src \<and> a dvd n \<and>
         reads_from V f (file_store (unat off) (take n (sp_bytes src)) c) w')"
proof -
  let ?call = "sys_pwrite K (file_fd f) src (sint off)"
  let ?P = "\<lambda>u. reads_from V f c u \<and> quiet V w u"
  note lawD = law [unfolded aligned_pwrite_law_def, rule_format, OF _ _ al]
  have step: "?P v \<and> v_signals V v < v_signals V u"
    if "?P u" "?call u = (r, v)" "interrupted r" for u v r
  proof -
    from that(3) have "r = Errno EINTR" by (cases r) auto
    with that lawD [of u "file_fd f" c r v]
    have "quiet V u v" "v_signals V v < v_signals V u" by (auto simp: reads_from_def)
    with that(1) show ?thesis by (blast intro: reads_from_quiet quiet_trans)
  qed
  have start: "?P w" using rd by (simp add: reads_from_good)
  obtain r w' where ret: "retry_eintr ?call w = Some (r, w')"
    using retry_eintr_returns [where P = ?P, OF start, of ?call "v_signals V"] step by blast
  then obtain u where u: "?P u" "?call u = (r, w')" "\<not> interrupted r"
    using retry_eintr_invariant [where P = ?P, OF ret start] step by blast
  then have eff: "case r of
      Ret n \<Rightarrow> v_good V w' \<and> 0 \<le> sint off \<and> n \<le> span_size src \<and> a dvd n \<and>
        v_fds V w' = (v_fds V u)(file_fd f \<mapsto> file_store (nat (sint off)) (take n (sp_bytes src)) c)
    | Errno e \<Rightarrow> quiet V u w' \<and> (e = EINTR \<longrightarrow> v_signals V w' < v_signals V u)"
    using lawD [of u "file_fd f" c r w'] by (auto simp: reads_from_def)
  have nonneg: "\<not> file_fd f < 0" using rd by (simp add: reads_from_def)
  show ?thesis
  proof (cases r)
    case (Errno code)
    with ret eff u(1) nonneg show ?thesis by (auto simp: file_pwrite_def dest: quiet_trans)
  next
    case (Ret n)
    with eff have "unat off < 2 ^ 63" "nat (sint off) = unat off"
      by (simp_all add: sint_u64_nonneg sint_u64_small)
    with ret eff u(1) nonneg Ret show ?thesis by (simp add: file_pwrite_def reads_from_def)
  qed
qed

text \<open>
  \<open>pwrite_exact\<close>, entered after \<open>sofar\<close> bytes have been stored: without an error all of the
  source is in the file, with one a prefix of it is. With an aligned source, all its writes are aligned.
\<close>

lemma pwrite_exact_loop_correct:
  assumes law: "aligned_pwrite_law a K V" and fits: "unat off + span_size src < 2 ^ 64"
    and al: "a dvd 2 ^ 64" "a dvd unat off" "a dvd span_size src" "a dvd unat (sp_addr src)"
  shows "reads_from V f (file_store (unat off) (take sofar (sp_bytes src)) c) w \<Longrightarrow>
    sofar \<le> span_size src \<Longrightarrow> a dvd sofar \<Longrightarrow>
    \<exists>put w'. pwrite_exact_loop K f off src sofar w = Some (put, w') \<and>
      (\<exists>k. sofar \<le> k \<and> k \<le> span_size src \<and>
        reads_from V f (file_store (unat off) (take k (sp_bytes src)) c) w' \<and>
        (\<forall>n. put = Inr n \<longrightarrow> n = span_size src \<and> k = n))"
proof (induction "span_size src - sofar" arbitrary: sofar w rule: less_induct)
  case less
  show ?case
  proof (cases "sofar < span_size src")
    case False
    with less.prems show ?thesis by (subst pwrite_exact_loop.simps) auto
  next
    case True
    let ?off = "off + of_nat sofar"
    let ?c = "file_store (unat off) (take sofar (sp_bytes src)) c"
    have off: "unat ?off = unat off + sofar" using fits True by (simp add: u64_nat)
    obtain put w1 where pw: "file_pwrite K f ?off (subspan sofar src) w = Some (put, w1)"
      and res: "case put of Inl e \<Rightarrow> quiet V w w1
        | Inr n \<Rightarrow> unat ?off < 2 ^ 63 \<and> n \<le> span_size (subspan sofar src) \<and> a dvd n \<and>
            reads_from V f (file_store (unat ?off) (take n (sp_bytes (subspan sofar src))) ?c) w1"
      using file_pwrite_correct [OF law less.prems(1) aligned_io_subspan [OF al less.prems(3)]] by blast
    show ?thesis
    proof (cases put)
      case (Inl e)
      with res less.prems True have "reads_from V f ?c w1" by (auto intro: reads_from_quiet)
      with True pw Inl show ?thesis by (subst pwrite_exact_loop.simps) auto
    next
      case (Inr n)
      have len: "length (take sofar (sp_bytes src)) = sofar" using True by (simp add: span_size_def)
      have "file_store (unat ?off) (take n (sp_bytes (subspan sofar src))) ?c
          = file_store (unat off) (take (sofar + n) (sp_bytes src)) c"
        using file_store_append [of "unat off" "take sofar (sp_bytes src)"] len
        by (simp add: off subspan_def take_add)
      with res Inr have w1: "reads_from V f (file_store (unat off) (take (sofar + n) (sp_bytes src)) c) w1"
        and n: "sofar + n \<le> span_size src" "a dvd sofar + n" using True less.prems(3) by auto
      show ?thesis
      proof (cases "n = 0")
        case True': True
        with True pw Inr w1 n show ?thesis by (subst pwrite_exact_loop.simps) auto
      next
        case False
        then have "span_size src - (sofar + n) < span_size src - sofar" using True by simp
        from less.hyps [OF this w1 n] obtain put' w' k where
          rec: "pwrite_exact_loop K f off src (sofar + n) w1 = Some (put', w')"
          and k: "sofar + n \<le> k" "k \<le> span_size src"
            "reads_from V f (file_store (unat off) (take k (sp_bytes src)) c) w'"
            "\<forall>n. put' = Inr n \<longrightarrow> n = span_size src \<and> k = n" by blast
        have "pwrite_exact_loop K f off src sofar w = Some (put', w')"
          using True pw Inr False rec by (subst pwrite_exact_loop.simps) simp
        moreover have "sofar \<le> k" using k(1) by simp
        ultimately show ?thesis using k(2-4) by blast
      qed
    qed
  qed
qed

section \<open>Opening on a disk\<close>

abbreviation direct_mode where
  "direct_mode mode \<equiv> mode = DirectRead \<or> mode = DirectWrite"

abbreviation writing_mode where
  "writing_mode mode \<equiv> mode = WriteCreate \<or> mode = DirectWrite"

lemma open_flags_mode:
  "O_DIRECT \<in> set (open_flags mode) \<longleftrightarrow> direct_mode mode"
  "O_RDWR \<in> set (open_flags mode) \<longleftrightarrow> writing_mode mode"
  "O_TRUNC \<in> set (open_flags mode) \<longleftrightarrow> writing_mode mode"
  "O_CLOEXEC \<in> set (open_flags mode)"
  by (simp_all add: open_flags_def Let_def)

lemma file_open_on_disk:
  assumes law: "disk_files_law K W a n" and good: "dv_good W w" and call: "file_open K path mode w = (r, w')"
  shows "dv_good W w'" and "\<And>q. q \<noteq> path \<Longrightarrow> dv_disk W w' q = dv_disk W w q"
    and "\<not> writing_mode mode \<Longrightarrow> dv_disk W w' = dv_disk W w"
    and "r = Inl e \<Longrightarrow> dv_open W w' = dv_open W w"
    and "r = Inr f \<Longrightarrow> 0 \<le> file_fd f \<and> file_path f = path \<and> dv_open W w (file_fd f) = None \<and>
      dv_open W w' = (dv_open W w)(file_fd f \<mapsto> (path, set (open_flags mode))) \<and>
      dv_disk W w' path \<noteq> None \<and> (writing_mode mode \<longrightarrow> dv_disk W w' path = Some []) \<and>
      file_alignment f \<noteq> 0 \<and> file_alignment f \<le> n \<and> a dvd unat (file_alignment f)"
proof -
  obtain r1 w1 where o: "sys_open K path (open_flags mode) w = (r1, w1)" by (metis prod.exhaust)
  note o1 = disk_openD [OF law good o]
  obtain r2 w2 where b: "block_size K path w1 = (r2, w2)" by (metis prod.exhaust)
  note b2 = block_size_on_disk [OF law o1(1) b]
  have "dv_good W w' \<and> (\<forall>q. q \<noteq> path \<longrightarrow> dv_disk W w' q = dv_disk W w q) \<and>
    (\<not> writing_mode mode \<longrightarrow> dv_disk W w' = dv_disk W w) \<and> (\<forall>e. r = Inl e \<longrightarrow> dv_open W w' = dv_open W w) \<and>
    (\<forall>f. r = Inr f \<longrightarrow> 0 \<le> file_fd f \<and> file_path f = path \<and> dv_open W w (file_fd f) = None \<and>
      dv_open W w' = (dv_open W w)(file_fd f \<mapsto> (path, set (open_flags mode))) \<and>
      dv_disk W w' path \<noteq> None \<and> (writing_mode mode \<longrightarrow> dv_disk W w' path = Some []) \<and>
      file_alignment f \<noteq> 0 \<and> file_alignment f \<le> n \<and> a dvd unat (file_alignment f))"
  proof (cases r1)
    case (Errno e)
    with call o have "r = Inl (FileError (FileCannotOpen path e))" "w' = w1" by (simp_all add: file_open_def)
    with o1(1-3) o1(4) [OF Errno] show ?thesis by (simp add: open_flags_mode)
  next
    case (Ret fd)
    note fd = o1(5) [OF Ret]
    have same: "dv_good W w2" "dv_open W w2 = dv_open W w1" "dv_disk W w2 = dv_disk W w1" using b2(1) by (simp_all add: still_def)
    show ?thesis
    proof (cases r2)
      case (Inl e)
      with call o Ret b have res: "r = Inl e" "w' = sys_close K fd w2" by (simp_all add: file_open_def)
      have "dv_open W w' = dv_open W w"
        unfolding res(2) by (rule disk_close_again [OF law same(1)]) (use fd same in simp_all)
      with res disk_closeD(1,3) [OF law same(1), of fd] o1(2,3) same(3) show ?thesis by (simp add: open_flags_mode)
    next
      case (Inr block)
      with call o Ret b have "r = Inr \<lparr>file_fd = fd, file_path = path, file_alignment = block\<rparr>" "w' = w2"
        by (simp_all add: file_open_def)
      with fd same o1(2,3) b2(2) [OF Inr] show ?thesis by (simp add: open_flags_mode)
    qed
  qed
  then show "dv_good W w'" and "\<And>q. q \<noteq> path \<Longrightarrow> dv_disk W w' q = dv_disk W w q"
    and "\<not> writing_mode mode \<Longrightarrow> dv_disk W w' = dv_disk W w"
    and "r = Inl e \<Longrightarrow> dv_open W w' = dv_open W w"
    and "r = Inr f \<Longrightarrow> 0 \<le> file_fd f \<and> file_path f = path \<and> dv_open W w (file_fd f) = None \<and>
      dv_open W w' = (dv_open W w)(file_fd f \<mapsto> (path, set (open_flags mode))) \<and>
      dv_disk W w' path \<noteq> None \<and> (writing_mode mode \<longrightarrow> dv_disk W w' path = Some []) \<and>
      file_alignment f \<noteq> 0 \<and> file_alignment f \<le> n \<and> a dvd unat (file_alignment f)" by blast+
qed

section \<open>Properties\<close>

text \<open>
  Property C22 (opening). \<open>File::open\<close>, in each of its four modes, either fails and leaves every descriptor as it was (the
  one it opened is closed when the block size cannot be found), or returns an object with a new descriptor for the
  file at the path, and no other descriptor changes. That descriptor bypasses the cache exactly in the direct modes, can be written
  exactly in the modes that write, and is not inherited. The file exists; it is empty after opening it for writing, as it was
  after opening it for reading; no other file changes. The alignment is not zero.
\<close>

theorem file_open_owns_one_descriptor:
  assumes "disk_files_law K W a n" and "dv_good W w" and "file_open K path mode w = (r, w')"
  shows "dv_good W w' \<and> (\<forall>q. q \<noteq> path \<longrightarrow> dv_disk W w' q = dv_disk W w q) \<and>
    (mode = ReadOnly \<or> mode = DirectRead \<longrightarrow> dv_disk W w' = dv_disk W w) \<and>
    (case r of
       Inl e \<Rightarrow> dv_open W w' = dv_open W w
     | Inr f \<Rightarrow> is_open f \<and> file_path f = path \<and> file_alignment f \<noteq> 0 \<and> dv_open W w (file_fd f) = None \<and>
         (\<exists>F. dv_open W w' = (dv_open W w)(file_fd f \<mapsto> (path, F)) \<and> O_CLOEXEC \<in> F \<and>
            (O_DIRECT \<in> F \<longleftrightarrow> mode = DirectRead \<or> mode = DirectWrite) \<and>
            (O_RDWR \<in> F \<longleftrightarrow> mode = WriteCreate \<or> mode = DirectWrite)) \<and>
         dv_disk W w' path \<noteq> None \<and> (mode = WriteCreate \<or> mode = DirectWrite \<longrightarrow> dv_disk W w' path = Some []))"
proof -
  have read: "mode = ReadOnly \<or> mode = DirectRead \<longleftrightarrow> \<not> writing_mode mode" by (cases mode) simp_all
  note res = file_open_on_disk [OF assms]
  show ?thesis
  proof (cases r)
    case (Inl e)
    with res(1-3) res(4) [OF Inl] show ?thesis by (simp add: read)
  next
    case (Inr f)
    from res(5) [OF Inr] have flags: "\<exists>F. dv_open W w' = (dv_open W w)(file_fd f \<mapsto> (path, F)) \<and> O_CLOEXEC \<in> F \<and>
        (O_DIRECT \<in> F \<longleftrightarrow> direct_mode mode) \<and> (O_RDWR \<in> F \<longleftrightarrow> writing_mode mode)"
      by (intro exI [of _ "set (open_flags mode)"]) (simp add: open_flags_mode)
    from res(1-3) res(5) [OF Inr] have "is_open f \<and> file_path f = path \<and> file_alignment f \<noteq> 0 \<and> dv_open W w (file_fd f) = None \<and>
        dv_disk W w' path \<noteq> None \<and> (writing_mode mode \<longrightarrow> dv_disk W w' path = Some [])" by (simp add: is_open_def)
    with flags res(1-3) Inr show ?thesis unfolding read by simp
  qed
qed

text \<open>The witness: a file with content, opened for direct writes beside one that is open for reading.\<close>

theorem file_open_owns_one_descriptor_witness:
  "\<exists>f w'. file_open mini_sys ''a'' DirectWrite
       \<lparr>md_files = [(''a'', [7]), (''b'', [8])], md_open = [(3, ''b'', {O_RDONLY})], md_next = 4\<rparr> = (Inr f, w') \<and>
     is_open f \<and> file_fd f \<noteq> 3 \<and> map_of (md_files w') ''a'' = Some [] \<and> map_of (md_files w') ''b'' = Some [8] \<and>
     (\<exists>F. map_of (md_open w') = [3 \<mapsto> (''b'', {O_RDONLY}), file_fd f \<mapsto> (''a'', F)] \<and> O_DIRECT \<in> F \<and> O_RDWR \<in> F)"
proof -
  let ?w = "\<lparr>md_files = [(''a'', [7]), (''b'', [8])], md_open = [(3, ''b'', {O_RDONLY})], md_next = 4\<rparr>"
  obtain f w' where call: "file_open mini_sys ''a'' DirectWrite ?w = (Inr f, w')"
    by (simp add: file_open_def open_flags_def mini_sys_def mini_open_def block_size_def Let_def)
  have good: "dv_good mini_view ?w" by (simp add: mini_view_def)
  from file_open_owns_one_descriptor [OF mini_files_law good call] call show ?thesis
    by (auto simp: mini_view_def)
qed

text \<open>
  Property C18 (exact reads). On an open file, \<open>pread_exact\<close> returns, however short the single
  reads are and however many signals interrupt them. Without an error it has read the whole
  destination or up to the end of the file, whichever comes first; the bytes are the file's, and the
  rest of the destination is unchanged.
\<close>

theorem pread_exact_reads_up_to_end_of_file:
  assumes "read_law K V" and "reads_from V f c w"
  shows "\<exists>got dst' w'. file_pread_exact K f off dst w = Some ((got, dst'), w') \<and> quiet V w w' \<and>
    (\<forall>n. got = Inr n \<longrightarrow> n = min (span_size dst) (length c - unat off) \<and>
      sp_bytes dst' = window (unat off) n c @ drop n (sp_bytes dst))"
proof -
  from file_pread_exact_correct [OF assms, of off dst] obtain got dst' w' where
    r: "file_pread_exact K f off dst w = Some ((got, dst'), w')" "quiet V w w'"
    and v: "\<forall>n. got = Inr n \<longrightarrow> n = min (span_size dst) (length c - unat off) \<and>
      take n (sp_bytes dst') = window (unat off) n c \<and> drop n (sp_bytes dst') = drop n (sp_bytes dst)"
    by blast
  have "sp_bytes dst' = window (unat off) n c @ drop n (sp_bytes dst)" if "got = Inr n" for n
    using v that append_take_drop_id [of n "sp_bytes dst'"] by metis
  with r v show ?thesis by blast
qed

text \<open>The witness: reads of at most two bytes, the first one interrupted, at offset 1 of five bytes.\<close>

theorem pread_exact_reads_up_to_end_of_file_witness:
  "\<exists>w'. file_pread_exact memfs_sys \<lparr>file_fd = 3, file_path = ''a'', file_alignment = 1\<rparr> 1
     \<lparr>sp_addr = 0, sp_bytes = [0, 0, 0, 0, 0, 0]\<rparr>
     \<lparr>mf_files = [(''a'', [1, 2, 3, 4, 5])], mf_fds = [(3, ''a'')], mf_next = 4, mf_signals = 1,
       mf_chunk = Some 2, mf_block = 1\<rparr>
   = Some ((Inr 4, \<lparr>sp_addr = 0, sp_bytes = [2, 3, 4, 5, 0, 0]\<rparr>), w')"
proof -
  let ?f = "\<lparr>file_fd = 3, file_path = ''a'', file_alignment = 1\<rparr>"
  let ?w = "\<lparr>mf_files = [(''a'', [1, 2, 3, 4, 5])], mf_fds = [(3, ''a'')], mf_next = 4,
    mf_signals = 1, mf_chunk = Some 2, mf_block = 1\<rparr>"
  let ?d = "\<lparr>sp_addr = 0, sp_bytes = [0, 0, 0, 0, 0, 0]\<rparr>"
  let ?V = "memfs_view False [(''a'', [1, 2, 3, 4, 5])]"
  have law: "read_law memfs_sys ?V" by (rule read_law_files [OF memfs_files_law])
  have rd: "reads_from ?V ?f [1, 2, 3, 4, 5] ?w"
    by (simp add: reads_from_def memfs_good_def memfs_content_def)
  from pread_exact_reads_up_to_end_of_file [OF law rd, of 1 ?d] obtain got dst' w' where
    r: "file_pread_exact memfs_sys ?f 1 ?d ?w = Some ((got, dst'), w')"
    and v: "\<forall>n. got = Inr n \<longrightarrow> n = min (span_size ?d) (length [1, 2, 3, 4, 5 :: byte] - unat (1 :: u64)) \<and>
      sp_bytes dst' = window (unat (1 :: u64)) n [1, 2, 3, 4, 5] @ drop n (sp_bytes ?d)"
    by blast
  have ok: "\<exists>d w'. file_pread_exact memfs_sys ?f 1 ?d ?w = Some ((Inr 4, \<lparr>sp_addr = 0, sp_bytes = d\<rparr>), w')"
    by (simp add: file_pread_exact_def pread_exact_loop.simps file_pread_def retry_eintr.simps
        memfs_pread_def memfs_content_def subspan_def span_store_def overwrite_def span_size_def
        window_def)
  with r obtain d where "got = Inr 4" "dst' = \<lparr>sp_addr = 0, sp_bytes = d\<rparr>" by auto
  with v have "dst' = \<lparr>sp_addr = 0, sp_bytes = [2, 3, 4, 5, 0, 0]\<rparr>" by (simp add: window_def)
  with r \<open>got = Inr 4\<close> show ?thesis by auto
qed

text \<open>
  Property C19 (exact writes, and reading them back). On an open file, \<open>pwrite_exact\<close> returns. With an
  error, a prefix of the source has been stored at the offset. Without one, all of it has, and a
  \<open>pread_exact\<close> of as many bytes at the same offset that does not fail returns the source.
\<close>

theorem pwrite_exact_then_pread_exact:
  assumes "pwrite_law K V" and "read_law K V" and "reads_from V f c w"
    and "unat off + span_size src < 2 ^ 64"
  shows "\<exists>put w1. file_pwrite_exact K f off src w = Some (put, w1) \<and>
    (\<exists>k \<le> span_size src. reads_from V f (file_store (unat off) (take k (sp_bytes src)) c) w1) \<and>
    (\<forall>n. put = Inr n \<longrightarrow> n = span_size src \<and>
       reads_from V f (file_store (unat off) (sp_bytes src) c) w1 \<and>
       (\<forall>dst. span_size dst = n \<longrightarrow> (\<exists>got dst' w2.
          file_pread_exact K f off dst w1 = Some ((got, dst'), w2) \<and>
          (\<forall>m. got = Inr m \<longrightarrow> m = n \<and> sp_bytes dst' = sp_bytes src))))"
proof -
  have "reads_from V f (file_store (unat off) (take 0 (sp_bytes src)) c) w"
    using assms(3) by (simp add: file_store_def)
  from pwrite_exact_loop_correct [OF pwrite_law_aligned [OF assms(1)] assms(4) _ _ _ _ this] obtain put w1 k where
    p: "file_pwrite_exact K f off src w = Some (put, w1)"
    and k: "k \<le> span_size src" "reads_from V f (file_store (unat off) (take k (sp_bytes src)) c) w1"
    and n: "\<forall>n. put = Inr n \<longrightarrow> n = span_size src \<and> k = n"
    unfolding file_pwrite_exact_def by auto
  have reread: "\<exists>got dst' w2. file_pread_exact K f off dst w1 = Some ((got, dst'), w2) \<and>
      (\<forall>m. got = Inr m \<longrightarrow> m = span_size src \<and> sp_bytes dst' = sp_bytes src)"
    if stored: "reads_from V f (file_store (unat off) (sp_bytes src) c) w1"
      and size: "span_size dst = span_size src" for dst
  proof -
    let ?c = "file_store (unat off) (sp_bytes src) c"
    have win: "window (unat off) (span_size src) ?c = sp_bytes src"
      unfolding span_size_def by (rule window_file_store)
    then have "length (window (unat off) (span_size src) ?c) = span_size src"
      by (simp add: span_size_def)
    then have "span_size src \<le> length ?c - unat off" by (simp add: bytes_simps)
    moreover from file_pread_exact_correct [OF assms(2) stored, of off dst] obtain got dst' w2 where
      "file_pread_exact K f off dst w1 = Some ((got, dst'), w2)" "span_size dst' = span_size dst"
      "\<forall>n. got = Inr n \<longrightarrow> n = min (span_size dst) (length ?c - unat off) \<and>
         take n (sp_bytes dst') = window (unat off) n ?c" by blast
    ultimately show ?thesis using size win by (auto simp: span_size_def)
  qed
  from p k n reread show ?thesis by (auto simp: span_size_def)
qed

theorem pwrite_exact_then_pread_exact_witness:
  "\<exists>w1. file_pwrite_exact memfs_sys \<lparr>file_fd = 3, file_path = ''a'', file_alignment = 1\<rparr> 2
     \<lparr>sp_addr = 0, sp_bytes = [7, 8, 9]\<rparr>
     \<lparr>mf_files = [(''a'', [1])], mf_fds = [(3, ''a'')], mf_next = 4, mf_signals = 1,
       mf_chunk = Some 2, mf_block = 1\<rparr> = Some (Inr 3, w1) \<and>
     memfs_content w1 3 = Some [1, 0, 7, 8, 9] \<and>
     (\<exists>got dst' w2. file_pread_exact memfs_sys \<lparr>file_fd = 3, file_path = ''a'', file_alignment = 1\<rparr> 2
        \<lparr>sp_addr = 0, sp_bytes = [0, 0, 0]\<rparr> w1 = Some ((got, dst'), w2) \<and>
        (\<forall>m. got = Inr m \<longrightarrow> m = 3 \<and> sp_bytes dst' = [7, 8, 9]))"
proof -
  let ?f = "\<lparr>file_fd = 3, file_path = ''a'', file_alignment = 1\<rparr>"
  let ?w = "\<lparr>mf_files = [(''a'', [1])], mf_fds = [(3, ''a'')], mf_next = 4, mf_signals = 1,
       mf_chunk = Some 2, mf_block = 1\<rparr>"
  let ?s = "\<lparr>sp_addr = 0, sp_bytes = [7, 8, 9]\<rparr>"
  have rd: "reads_from memfs_write_view ?f [1] ?w"
    by (simp add: reads_from_def memfs_write_view_def memfs_content_def)
  have fits: "unat (2 :: u64) + span_size ?s < 2 ^ 64" by (simp add: span_size_def)
  from pwrite_exact_then_pread_exact [OF memfs_pwrite_law memfs_write_read_law rd fits]
  obtain put w1 where p: "file_pwrite_exact memfs_sys ?f 2 ?s ?w = Some (put, w1)"
    and v: "\<forall>n. put = Inr n \<longrightarrow> n = span_size ?s \<and>
       reads_from memfs_write_view ?f (file_store 2 (sp_bytes ?s) [1]) w1 \<and>
       (\<forall>dst. span_size dst = n \<longrightarrow> (\<exists>got dst' w2.
          file_pread_exact memfs_sys ?f 2 dst w1 = Some ((got, dst'), w2) \<and>
          (\<forall>m. got = Inr m \<longrightarrow> m = n \<and> sp_bytes dst' = sp_bytes ?s)))"
    by auto
  have "\<exists>w1. file_pwrite_exact memfs_sys ?f 2 ?s ?w = Some (Inr 3, w1)"
    by (simp add: file_pwrite_exact_def pwrite_exact_loop.simps file_pwrite_def retry_eintr.simps
        memfs_pwrite_def memfs_content_def subspan_def span_size_def EINTR_def)
  with p have put: "put = Inr 3" by auto
  with v have st: "reads_from memfs_write_view ?f (file_store 2 [7, 8, 9] [1]) w1"
    and bk: "\<forall>dst. span_size dst = 3 \<longrightarrow> (\<exists>got dst' w2.
          file_pread_exact memfs_sys ?f 2 dst w1 = Some ((got, dst'), w2) \<and>
          (\<forall>m. got = Inr m \<longrightarrow> m = 3 \<and> sp_bytes dst' = [7, 8, 9]))"
    by (auto simp: span_size_def)
  have "memfs_content w1 3 = Some [1, 0, 7, 8, 9]"
    using st by (simp add: reads_from_def memfs_write_view_def file_store_def numeral_2_eq_2)
  moreover have "span_size \<lparr>sp_addr = 0, sp_bytes = [0, 0, 0]\<rparr> = 3" by (simp add: span_size_def)
  ultimately show ?thesis using p put bk by blast
qed

text \<open>
  Property C23 (ownership). Moving a file hands its descriptor over: the source is closed and closing
  it touches no descriptor, the target closes what it held and then holds the source's, so each
  descriptor is closed once.
\<close>

theorem file_move_assign_transfers:
  assumes "files_law K V" and "v_good V w"
    and "file_move_assign K self other w = ((self', other'), w')"
  shows "file_fd self' = file_fd other \<and> file_path self' = file_path other \<and>
    file_alignment self' = file_alignment other \<and> \<not> is_open other' \<and>
    file_close K other' w' = (other', w') \<and>
    v_fds V w' = (if is_open self then (v_fds V w)(file_fd self := None) else v_fds V w)"
  using assms close_lawD [OF files_lawD(2) [OF assms(1)] assms(2), of "file_fd self"]
  by (auto simp: file_move_assign_def file_move_def file_close_def is_open_def split: if_splits)

theorem file_move_assign_transfers_witness:
  "\<exists>self' other' w'. file_move_assign memfs_sys \<lparr>file_fd = 3, file_path = ''a'', file_alignment = 1\<rparr>
     \<lparr>file_fd = 4, file_path = ''b'', file_alignment = 2\<rparr>
     \<lparr>mf_files = [(''a'', [1]), (''b'', [2])], mf_fds = [(3, ''a''), (4, ''b'')], mf_next = 5,
       mf_signals = 0, mf_chunk = None, mf_block = 1\<rparr> = ((self', other'), w') \<and>
     file_fd self' = 4 \<and> \<not> is_open other' \<and> memfs_content w' 3 = None"
proof -
  let ?w = "\<lparr>mf_files = [(''a'', [1]), (''b'', [2])], mf_fds = [(3, ''a''), (4, ''b'')], mf_next = 5,
       mf_signals = 0, mf_chunk = None, mf_block = 1\<rparr>"
  let ?V = "memfs_view True [(''a'', [1]), (''b'', [2])]"
  obtain self' other' w' where
    m: "file_move_assign memfs_sys \<lparr>file_fd = 3, file_path = ''a'', file_alignment = 1\<rparr>
     \<lparr>file_fd = 4, file_path = ''b'', file_alignment = 2\<rparr> ?w = ((self', other'), w')"
    by (metis prod.exhaust)
  have "v_good ?V ?w" by (simp add: memfs_good_def)
  from file_move_assign_transfers [OF memfs_files_law this m] m show ?thesis
    by (simp add: is_open_def)
qed

end
