(* ===== verification/Backend.thy ===== *)
theory Backend
  imports File "HOL-Library.Multiset"
begin

text \<open>
  \<open>include/dsio/backend.hpp\<close>: batches of asynchronous reads. The abstract class is a record of its
  virtual functions, and its contract is the locale \<open>async_backend\<close>: which reads are in flight, what a
  completion says about the memory, and that no other memory changes. The two implementations
  interpret it.
\<close>

section \<open>Definitions\<close>

text \<open>
  The buffers that the caller reads into are a list of spans, and the destination of a request is
  the first \<open>rq_len\<close> bytes of the buffer with number \<open>rq_buf\<close>. Reads happen between \<open>submit\<close>
  and \<open>reap\<close>; nobody looks at the destination of a read in flight, so the model lets the writes
  happen inside the operations of the backend, which return the buffers.
\<close>

record read_request =
  rq_offset :: u64
  rq_buf :: nat
  rq_len :: nat
  rq_token :: u64

record completion =
  cp_token :: u64
  cp_bytes :: nat
  cp_error :: int

record backend_options =
  bo_queue_depth :: u64
  bo_threads :: u64

text \<open>
  The factory, \<open>in_flight\<close>, \<open>submit\<close>, \<open>reap (out, min)\<close> (with the size of \<open>out\<close>; the result lists the
  completions that were moved into it) and the destructor.
\<close>

record ('b, 'w) backend_ops =
  bk_open :: "int \<Rightarrow> backend_options \<Rightarrow> 'w \<Rightarrow> 'b outcome \<times> 'w"
  bk_in_flight :: "'b \<Rightarrow> nat"
  bk_submit :: "read_request list \<Rightarrow> 'b \<Rightarrow> span list \<Rightarrow> 'w \<Rightarrow> (unit outcome \<times> 'b \<times> span list \<times> 'w) option"
  bk_reap :: "nat \<Rightarrow> nat \<Rightarrow> 'b \<Rightarrow> span list \<Rightarrow> 'w \<Rightarrow>
    (completion list outcome \<times> 'b \<times> span list \<times> 'w) option"
  bk_destroy :: "'b \<Rightarrow> span list \<Rightarrow> 'w \<Rightarrow> (span list \<times> 'w) option"

section \<open>The contract\<close>

text \<open>Only the buffers in \<open>bufs\<close> change, and none changes its size.\<close>

definition frame :: "nat set \<Rightarrow> span list \<Rightarrow> span list \<Rightarrow> bool" where
  "frame bufs m m' \<longleftrightarrow> length m' = length m \<and>
     (\<forall>i < length m. span_size (m' ! i) = span_size (m ! i) \<and> (i \<notin> bufs \<longrightarrow> m' ! i = m ! i))"

lemma frame_refl [simp]: "frame A m m"
  by (simp add: frame_def)

lemma frame_trans: "frame A m m1 \<Longrightarrow> frame B m1 m2 \<Longrightarrow> A \<subseteq> C \<Longrightarrow> B \<subseteq> C \<Longrightarrow> frame C m m2"
  unfolding frame_def by (metis subsetD)

lemma frame_mono: "frame A m m' \<Longrightarrow> A \<subseteq> B \<Longrightarrow> frame B m m'"
  unfolding frame_def by (metis subsetD)

lemma frame_length: "frame A m m' \<Longrightarrow> length m' = length m"
  by (simp add: frame_def)

lemma frame_size: "frame A m m' \<Longrightarrow> i < length m \<Longrightarrow> span_size (m' ! i) = span_size (m ! i)"
  by (simp add: frame_def)

lemma frame_same: "frame A m m' \<Longrightarrow> i < length m \<Longrightarrow> i \<notin> A \<Longrightarrow> m' ! i = m ! i"
  by (simp add: frame_def)

lemma frame_update:
  "span_size s = span_size (m ! i) \<Longrightarrow> i < length m \<Longrightarrow> frame {i} m (m[i := s])"
  by (auto simp: frame_def nth_list_update)

definition bufs_of :: "read_request list \<Rightarrow> nat set" where
  "bufs_of rs = rq_buf ` set rs"

text \<open>The destination of a request lies in a buffer.\<close>

definition request_fits :: "span list \<Rightarrow> read_request \<Rightarrow> bool" where
  "request_fits m r \<longleftrightarrow> rq_buf r < length m \<and> rq_len r \<le> span_size (m ! rq_buf r)"

lemma request_fits_frame: "request_fits m r \<Longrightarrow> frame A m m' \<Longrightarrow> request_fits m' r"
  by (simp add: request_fits_def frame_def)

text \<open>
  The completion of a read of a file with content \<open>c\<close>: an error, or as many bytes as the
  destination holds and the file has, and they are in the buffer.
\<close>

definition completes :: "byte list \<Rightarrow> span list \<Rightarrow> read_request \<Rightarrow> completion \<Rightarrow> bool" where
  "completes c m r cp \<longleftrightarrow> cp_token cp = rq_token r \<and>
     (cp_error cp = 0 \<longrightarrow>
        cp_bytes cp = min (rq_len r) (length c - unat (rq_offset r)) \<and>
        take (cp_bytes cp) (sp_bytes (m ! rq_buf r)) = window (unat (rq_offset r)) (cp_bytes cp) c)"

lemma completes_frame:
  "completes c m r cp \<Longrightarrow> frame A m m' \<Longrightarrow> rq_buf r < length m \<Longrightarrow> rq_buf r \<notin> A \<Longrightarrow> completes c m' r cp"
  by (auto simp: completes_def frame_same)

lemma completes_list_frame:
  assumes "list_all2 (completes c m) ps cs" and "frame A m m'" and "bufs_of ps \<inter> A = {}"
    and "\<forall>p \<in> set ps. rq_buf p < length m"
  shows "list_all2 (completes c m') ps cs"
  using assms(1,3,4)
  by (induction rule: list_all2_induct) (auto simp: bufs_of_def intro: completes_frame [OF _ assms(2)])

text \<open>
  The contract over a world in which \<open>ok\<close> holds and \<open>fds\<close> tells what is open. \<open>pend\<close> are the
  requests in flight, \<open>depth\<close> how many there may be, and \<open>binv fd c b m w\<close> says that the backend
  \<open>b\<close> reads the descriptor \<open>fd\<close>, of a file with content \<open>c\<close>, into the buffers \<open>m\<close>. \<open>len_ok\<close> are the lengths that a
  request may have. Of \<open>min\<close>, only that a caller who wants something while reads are in flight gets
  something is common to the backends. A backend depends on no descriptor but its own, and with
  nothing in flight not on the buffers either. A backend of which an operation has failed is only
  \<open>closable\<close>: as long as it counts nothing as in flight, its destructor touches nothing.
\<close>

locale async_backend =
  fixes ops :: "('b, 'w) backend_ops"
    and ok :: "'w \<Rightarrow> bool"
    and fds :: "'w \<Rightarrow> int \<Rightarrow> byte list option"
    and pend :: "'b \<Rightarrow> read_request list"
    and depth :: "'b \<Rightarrow> nat"
    and binv :: "int \<Rightarrow> byte list \<Rightarrow> 'b \<Rightarrow> span list \<Rightarrow> 'w \<Rightarrow> bool"
    and len_ok :: "nat \<Rightarrow> bool"
    and closable :: "'b \<Rightarrow> bool"
  assumes binv_ok: "binv fd c b m w \<Longrightarrow> ok w"
    and binv_pend: "binv fd c b m w \<Longrightarrow> distinct (map rq_buf (pend b)) \<and> list_all (request_fits m) (pend b)"
    and binv_other: "binv fd c b m w \<Longrightarrow> ok w' \<Longrightarrow> fds w' fd = fds w fd \<Longrightarrow> m' = m \<or> pend b = [] \<Longrightarrow>
      binv fd c b m' w'"
    and binv_closable: "binv fd c b m w \<Longrightarrow> closable b \<and> bk_in_flight ops b = length (pend b)"
    and open_law: "ok w \<Longrightarrow> 0 \<le> fd \<Longrightarrow> fds w fd = Some c \<Longrightarrow> bk_open ops fd opts w = (r, w') \<Longrightarrow>
      ok w' \<and> fds w' = fds w \<and>
      (\<forall>b. r = Inr b \<longrightarrow> pend b = [] \<and> depth b = unat (bo_queue_depth opts) \<and> binv fd c b m w')"
    and submit_law: "binv fd c b m w \<Longrightarrow> distinct (map rq_buf rs) \<Longrightarrow> bufs_of rs \<inter> bufs_of (pend b) = {} \<Longrightarrow>
      list_all (request_fits m) rs \<Longrightarrow> list_all (\<lambda>r. len_ok (rq_len r)) rs \<Longrightarrow>
      \<exists>r b' m' w'. bk_submit ops rs b m w = Some (r, b', m', w') \<and> ok w' \<and> fds w' = fds w \<and>
        frame (bufs_of (pend b) \<union> bufs_of rs) m m' \<and>
        (depth b < length (pend b) + length rs \<longrightarrow> r \<noteq> Inr () \<and> b' = b \<and> m' = m \<and> w' = w) \<and>
        (r = Inr () \<longrightarrow> mset (pend b') = mset (pend b) + mset rs \<and> depth b' = depth b \<and> binv fd c b' m' w')"
    and reap_law: "binv fd c b m w \<Longrightarrow>
      \<exists>r b' m' w'. bk_reap ops n k b m w = Some (r, b', m', w') \<and> ok w' \<and> fds w' = fds w \<and>
        frame (bufs_of (pend b)) m m' \<and>
        (\<forall>cs. r = Inr cs \<longrightarrow> length cs \<le> n \<and> min 1 (min k (min n (length (pend b)))) \<le> length cs \<and>
           depth b' = depth b \<and> binv fd c b' m' w' \<and>
           (\<exists>ps. mset (pend b) = mset ps + mset (pend b') \<and> list_all2 (completes c m') ps cs))"
    and destroy_law: "binv fd c b m w \<Longrightarrow>
      \<exists>m' w'. bk_destroy ops b m w = Some (m', w') \<and> ok w' \<and> fds w' = fds w \<and>
        frame (bufs_of (pend b)) m m'"
    and submit_closable: "closable b \<Longrightarrow> bk_submit ops rs b m w = Some (put, b', m', w') \<Longrightarrow> closable b'"
    and reap_closable: "closable b \<Longrightarrow> bk_reap ops n k b m w = Some (got, b', m', w') \<Longrightarrow> closable b'"
    and idle_destroy_law: "closable b \<Longrightarrow> bk_in_flight ops b = 0 \<Longrightarrow> ok w \<Longrightarrow>
      \<exists>m' w'. bk_destroy ops b m w = Some (m', w') \<and> ok w' \<and> fds w' = fds w"
begin

text \<open>\<open>reap\<close> of one completion, waiting for it, while something is in flight.\<close>

lemma reap_one:
  assumes "binv fd c b m w" and "pend b \<noteq> []"
  shows "\<exists>r b' m' w'. bk_reap ops 1 1 b m w = Some (r, b', m', w') \<and> ok w' \<and> fds w' = fds w \<and>
    frame (bufs_of (pend b)) m m' \<and>
    (\<forall>cs. r = Inr cs \<longrightarrow> (\<exists>p cp. cs = [cp] \<and> completes c m' p cp \<and>
       mset (pend b) = add_mset p (mset (pend b')) \<and> depth b' = depth b \<and> binv fd c b' m' w'))"
proof -
  from reap_law [OF assms(1), of 1 1] obtain r b' m' w' where
    r: "bk_reap ops 1 1 b m w = Some (r, b', m', w')" "ok w'" "fds w' = fds w"
      "frame (bufs_of (pend b)) m m'"
    and cs: "\<forall>cs. r = Inr cs \<longrightarrow> length cs \<le> 1 \<and> min 1 (min 1 (min 1 (length (pend b)))) \<le> length cs \<and>
           depth b' = depth b \<and> binv fd c b' m' w' \<and>
           (\<exists>ps. mset (pend b) = mset ps + mset (pend b') \<and> list_all2 (completes c m') ps cs)"
    by blast
  have "\<exists>p cp. xs = [cp] \<and> completes c m' p cp \<and> mset (pend b) = add_mset p (mset (pend b')) \<and>
      depth b' = depth b \<and> binv fd c b' m' w'" if "r = Inr xs" for xs
  proof -
    from cs that obtain ps where ps: "length xs \<le> 1" "1 \<le> length xs" "depth b' = depth b"
      "binv fd c b' m' w'" "mset (pend b) = mset ps + mset (pend b')" "list_all2 (completes c m') ps xs"
      using assms(2) by (cases "pend b") auto
    then obtain cp where "xs = [cp]" by (cases xs) auto
    with ps(6) obtain p where "ps = [p]" "completes c m' p cp" by (auto simp: list_all2_Cons2)
    with ps \<open>xs = [cp]\<close> show ?thesis by auto
  qed
  with r show ?thesis by blast
qed

end

end
