(* ===== verification/ThreadBackend.thy ===== *)
theory ThreadBackend
  imports Backend
begin

text \<open>
  \<open>src/thread_backend.cpp\<close>: reads on the workers of a thread pool, one future per request, reaped
  in the order of submission.

  The pool is outside: \<open>pool_finish\<close> says which of the queued tasks the workers have finished when the
  calling thread looks (in any order, any number of them). A \<open>wait\<close> on a future returns when its task
  has run, so the task runs then at the latest.
\<close>

section \<open>Definitions\<close>

text \<open>A future is ready when it holds its completion.\<close>

record pending_read =
  fu_request :: read_request
  fu_result :: "completion option"

record thread_backend =
  tb_fd :: int
  tb_depth :: u64
  tb_pending :: "pending_read list"

definition tb_in_flight :: "thread_backend \<Rightarrow> nat" where
  "tb_in_flight b = length (tb_pending b)"

text \<open>\<open>read_once\<close> writes through the request's span, so it returns the buffers.\<close>

definition read_once ::
  "'w sys \<Rightarrow> int \<Rightarrow> read_request \<Rightarrow> span list \<Rightarrow> 'w \<Rightarrow> (completion \<times> span list \<times> 'w) option" where
  "read_once K fd r m w = do {
     (got, w') \<leftarrow> retry_eintr
       (sys_pread K fd (span_first (rq_len r) (m ! rq_buf r)) (sint (rq_offset r))) w;
     (case got of
        Errno code \<Rightarrow> Some (\<lparr>cp_token = rq_token r, cp_bytes = 0, cp_error = code\<rparr>, m, w')
      | Ret bs \<Rightarrow> Some (\<lparr>cp_token = rq_token r, cp_bytes = length bs, cp_error = 0\<rparr>,
            m[rq_buf r := span_store 0 bs (m ! rq_buf r)], w'))
   }"

text \<open>The task of the future with number \<open>i\<close> runs, if there is one and it has not run.\<close>

definition run_task ::
  "'w sys \<Rightarrow> nat \<Rightarrow> thread_backend \<Rightarrow> span list \<Rightarrow> 'w \<Rightarrow> (thread_backend \<times> span list \<times> 'w) option" where
  "run_task K i b m w =
     (if i < length (tb_pending b) \<and> fu_result (tb_pending b ! i) = None then do {
        (cp, m', w') \<leftarrow> read_once K (tb_fd b) (fu_request (tb_pending b ! i)) m w;
        Some (b\<lparr>tb_pending := (tb_pending b)[i := (tb_pending b ! i)\<lparr>fu_result := Some cp\<rparr>]\<rparr>, m', w')
      } else Some (b, m, w))"

fun run_tasks ::
  "'w sys \<Rightarrow> nat list \<Rightarrow> thread_backend \<Rightarrow> span list \<Rightarrow> 'w \<Rightarrow> (thread_backend \<times> span list \<times> 'w) option" where
  "run_tasks K [] b m w = Some (b, m, w)"
| "run_tasks K (i # is) b m w = do {
     (b', m', w') \<leftarrow> run_task K i b m w;
     run_tasks K is b' m' w'
   }"

text \<open>What the workers have done by now.\<close>

definition pool_progress ::
  "'w sys \<Rightarrow> thread_backend \<Rightarrow> span list \<Rightarrow> 'w \<Rightarrow> (thread_backend \<times> span list \<times> 'w) option" where
  "pool_progress K b m w =
     (case pool_finish K (length (tb_pending b)) w of (is, w') \<Rightarrow> run_tasks K is b m w')"

text \<open>\<open>pending_[i].wait ()\<close>\<close>

definition wait_for_task ::
  "'w sys \<Rightarrow> nat \<Rightarrow> thread_backend \<Rightarrow> span list \<Rightarrow> 'w \<Rightarrow> (thread_backend \<times> span list \<times> 'w) option" where
  "wait_for_task K i b m w = do {
     (b', m', w') \<leftarrow> pool_progress K b m w;
     run_task K i b' m' w'
   }"

definition thread_submit ::
  "read_request list \<Rightarrow> thread_backend \<Rightarrow> span list \<Rightarrow> 'w \<Rightarrow>
     (unit outcome \<times> thread_backend \<times> span list \<times> 'w) option" where
  "thread_submit requests b m w =
     (if length (tb_pending b) + length requests > unat (tb_depth b)
      then Some (Inl (BackendError (QueueFull ''ThreadBackend'' EAGAIN)), b, m, w)
      else Some (Inr (), b\<lparr>tb_pending := tb_pending b @
             map (\<lambda>r. \<lparr>fu_request = r, fu_result = None\<rparr>) requests\<rparr>, m, w))"

text \<open>The loop that waits for the oldest \<open>min\<close> futures.\<close>

fun wait_oldest ::
  "'w sys \<Rightarrow> nat list \<Rightarrow> thread_backend \<Rightarrow> span list \<Rightarrow> 'w \<Rightarrow> (thread_backend \<times> span list \<times> 'w) option" where
  "wait_oldest K [] b m w = Some (b, m, w)"
| "wait_oldest K (i # is) b m w = do {
     (b', m', w') \<leftarrow> wait_for_task K i b m w;
     wait_oldest K is b' m' w'
   }"

text \<open>
  The loop that pops ready futures while there is room in \<open>out\<close>; the argument is the room that is
  left. \<open>wait_for (0)\<close> looks whether the front is ready by now.
\<close>

fun collect_ready ::
  "'w sys \<Rightarrow> nat \<Rightarrow> thread_backend \<Rightarrow> span list \<Rightarrow> 'w \<Rightarrow>
     (completion list \<times> thread_backend \<times> span list \<times> 'w) option" where
  "collect_ready K 0 b m w = Some ([], b, m, w)"
| "collect_ready K (Suc room) b m w =
     (if tb_pending b = [] then Some ([], b, m, w)
      else do {
        (b1, m1, w1) \<leftarrow> pool_progress K b m w;
        (case fu_result (hd (tb_pending b1)) of
           None \<Rightarrow> Some ([], b1, m1, w1)
         | Some cp \<Rightarrow> do {
             (cps, b2, m2, w2) \<leftarrow> collect_ready K room (b1\<lparr>tb_pending := tl (tb_pending b1)\<rparr>) m1 w1;
             Some (cp # cps, b2, m2, w2)
           })
      })"

definition thread_reap ::
  "'w sys \<Rightarrow> nat \<Rightarrow> nat \<Rightarrow> thread_backend \<Rightarrow> span list \<Rightarrow> 'w \<Rightarrow>
     (completion list outcome \<times> thread_backend \<times> span list \<times> 'w) option" where
  "thread_reap K out_size at_least b m w =
     (let at_least1 = min at_least out_size;
          at_least2 = min at_least1 (length (tb_pending b))
      in do {
        (b1, m1, w1) \<leftarrow> wait_oldest K [0..<at_least2] b m w;
        (cps, b2, m2, w2) \<leftarrow> collect_ready K out_size b1 m1 w1;
        Some (Inr cps, b2, m2, w2)
      })"

text \<open>The destructor drops the futures and joins the pool, which may still run tasks.\<close>

definition thread_destroy ::
  "'w sys \<Rightarrow> thread_backend \<Rightarrow> span list \<Rightarrow> 'w \<Rightarrow> (span list \<times> 'w) option" where
  "thread_destroy K b m w = do {
     (b', m', w') \<leftarrow> pool_progress K b m w;
     Some (m', w')
   }"

definition open_thread_backend ::
  "'w sys \<Rightarrow> int \<Rightarrow> backend_options \<Rightarrow> 'w \<Rightarrow> thread_backend outcome \<times> 'w" where
  "open_thread_backend K fd options w =
     (if bo_queue_depth options = 0
      then (Inl (BackendError (QueueDepthZero ''open_thread_backend'')), w)
      else
        (case pool_start K (if bo_threads options = 0 then 2 else bo_threads options) w of
           (None, w') \<Rightarrow>
             (Inr \<lparr>tb_fd = fd, tb_depth = bo_queue_depth options, tb_pending = []\<rparr>, w')
         | (Some BadAlloc, w') \<Rightarrow>
             (Inl (BackendError (AllocationFailed ''open_thread_backend'')), w')
         | (Some (SystemError what), w') \<Rightarrow> (Inl (BackendError (ThreadsRefused what)), w')))"

definition thread_ops :: "'w sys \<Rightarrow> (thread_backend, 'w) backend_ops" where
  "thread_ops K = \<lparr>bk_open = open_thread_backend K, bk_in_flight = tb_in_flight, bk_submit = thread_submit,
     bk_reap = thread_reap K, bk_destroy = thread_destroy K\<rparr>"

section \<open>The thread backend keeps the contract\<close>

definition tb_requests :: "thread_backend \<Rightarrow> read_request list" where
  "tb_requests b = map fu_request (tb_pending b)"

definition thread_world :: "'w sys \<Rightarrow> 'w view \<Rightarrow> 'w \<Rightarrow> bool" where
  "thread_world K V w \<longleftrightarrow> files_law K V \<and> full_pread_law K V \<and> v_good V w"

definition thread_inv ::
  "'w sys \<Rightarrow> 'w view \<Rightarrow> int \<Rightarrow> byte list \<Rightarrow> thread_backend \<Rightarrow> span list \<Rightarrow> 'w \<Rightarrow> bool" where
  "thread_inv K V fd c b m w \<longleftrightarrow> thread_world K V w \<and> tb_fd b = fd \<and> 0 \<le> fd \<and> v_fds V w fd = Some c \<and>
     distinct (map rq_buf (tb_requests b)) \<and>
     (\<forall>p \<in> set (tb_pending b). request_fits m (fu_request p) \<and>
        (\<forall>cp. fu_result p = Some cp \<longrightarrow> completes c m (fu_request p) cp))"

lemma thread_world_quiet: "thread_world K V w \<Longrightarrow> quiet V w w' \<Longrightarrow> thread_world K V w'"
  by (simp add: thread_world_def quiet_def)

text \<open>One read: the completion tells the truth about the buffer, and no other buffer changes.\<close>

lemma read_once_correct:
  assumes world: "thread_world K V w" and fd: "0 \<le> fd" "v_fds V w fd = Some c"
    and fits: "request_fits m r"
  shows "\<exists>cp m' w'. read_once K fd r m w = Some (cp, m', w') \<and> quiet V w w' \<and>
    frame {rq_buf r} m m' \<and> completes c m' r cp"
proof -
  let ?f = "\<lparr>file_fd = fd, file_path = [], file_alignment = 0\<rparr>"
  let ?s = "span_first (rq_len r) (m ! rq_buf r)"
  from world have law: "read_law K V" and full: "full_pread_law K V"
    by (auto simp: thread_world_def read_law_files)
  have rd: "reads_from V ?f c w" using world fd by (simp add: reads_from_def thread_world_def)
  obtain u got w' where
    "retry_eintr (sys_pread K (file_fd ?f) ?s (sint (rq_offset r))) w = Some (got, w')"
    and "quiet V w u" and "sys_pread K (file_fd ?f) ?s (sint (rq_offset r)) u = (got, w')"
    and u: "reads_from V ?f c u" and q: "quiet V w w'"
    by (rule retry_pread [OF law rd, of ?s "sint (rq_offset r)"])
  then have ret: "retry_eintr (sys_pread K fd ?s (sint (rq_offset r))) w = Some (got, w')"
    and call: "sys_pread K fd ?s (sint (rq_offset r)) u = (got, w')" by simp_all
  from u have gu: "v_good V u" "v_fds V u fd = Some c" by (simp_all add: reads_from_def)
  show ?thesis
  proof (cases got)
    case (Errno code)
    moreover have "code \<noteq> 0" using pread_lawD(2) [OF read_lawD(1) [OF law] gu call] Errno by auto
    ultimately show ?thesis using ret q by (simp add: read_once_def completes_def)
  next
    case (Ret bs)
    let ?m = "m[rq_buf r := span_store 0 bs (m ! rq_buf r)]"
    have res: "read_result c (rq_offset r) ?s (length bs) (span_store 0 bs ?s)"
      using sys_pread_result [OF law u] call Ret by simp
    then have small: "unat (rq_offset r) < 2 ^ 63" and le: "length bs \<le> span_size ?s"
      by (auto simp: read_result_def)
    have len: "length bs = min (rq_len r) (length c - unat (rq_offset r))"
      using full_pread_lawD [OF full gu] call Ret fits small
      by (simp add: request_fits_def sint_u64_small)
    have bs: "bs = window (unat (rq_offset r)) (length bs) c"
      using pread_lawD(3) [OF read_lawD(1) [OF law] gu call Ret] small by (simp add: sint_u64_small)
    have fit: "length bs \<le> span_size (m ! rq_buf r)" using le by simp
    have "frame {rq_buf r} m ?m"
      using fits fit by (intro frame_update) (simp_all add: request_fits_def)
    moreover have "take (length bs) (sp_bytes (?m ! rq_buf r)) = window (unat (rq_offset r)) (length bs) c"
      using fits fit bs take_overwrite [of 0 "sp_bytes (m ! rq_buf r)" bs]
      by (simp add: request_fits_def)
    ultimately show ?thesis
      using ret Ret q len by (simp add: read_once_def completes_def)
  qed
qed

text \<open>What the pool does between two looks: results appear, nothing else changes for the caller.\<close>

definition tb_advance :: "'w sys \<Rightarrow> 'w view \<Rightarrow> int \<Rightarrow> byte list \<Rightarrow> thread_backend \<Rightarrow> span list \<Rightarrow> 'w \<Rightarrow>
    thread_backend \<Rightarrow> span list \<Rightarrow> 'w \<Rightarrow> bool" where
  "tb_advance K V fd c b m w b' m' w' \<longleftrightarrow> thread_inv K V fd c b' m' w' \<and> quiet V w w' \<and>
     frame (bufs_of (tb_requests b)) m m' \<and> tb_requests b' = tb_requests b \<and>
     tb_depth b' = tb_depth b \<and>
     (\<forall>i < length (tb_pending b). fu_result (tb_pending b ! i) \<noteq> None \<longrightarrow>
        fu_result (tb_pending b' ! i) \<noteq> None)"

lemma tb_advance_refl: "thread_inv K V fd c b m w \<Longrightarrow> tb_advance K V fd c b m w b m w"
  by (simp add: tb_advance_def thread_inv_def thread_world_def)

lemma tb_advance_length: "tb_advance K V fd c b m w b' m' w' \<Longrightarrow> length (tb_pending b') = length (tb_pending b)"
  unfolding tb_advance_def tb_requests_def by (metis length_map)

lemma tb_advance_trans:
  assumes "tb_advance K V fd c b m w b1 m1 w1" and "tb_advance K V fd c b1 m1 w1 b2 m2 w2"
  shows "tb_advance K V fd c b m w b2 m2 w2"
  using assms tb_advance_length [OF assms(1)] quiet_trans [of V w w1 w2]
    frame_trans [of "bufs_of (tb_requests b)" m m1 "bufs_of (tb_requests b)" m2 "bufs_of (tb_requests b)"]
  unfolding tb_advance_def by simp

lemma tb_advance_inv: "tb_advance K V fd c b m w b' m' w' \<Longrightarrow> thread_inv K V fd c b' m' w'"
  by (simp add: tb_advance_def)

lemma run_task_advances:
  assumes inv: "thread_inv K V fd c b m w"
  shows "\<exists>b' m' w'. run_task K i b m w = Some (b', m', w') \<and> tb_advance K V fd c b m w b' m' w' \<and>
    (i < length (tb_pending b) \<longrightarrow> fu_result (tb_pending b' ! i) \<noteq> None)"
proof (cases "i < length (tb_pending b) \<and> fu_result (tb_pending b ! i) = None")
  case False
  with inv show ?thesis by (auto simp: run_task_def intro: tb_advance_refl)
next
  case True
  let ?p = "tb_pending b ! i"
  let ?r = "fu_request ?p"
  from True have mem: "?p \<in> set (tb_pending b)" by simp
  with inv have fits: "request_fits m ?r" by (auto simp: thread_inv_def)
  from inv have world: "thread_world K V w" "0 \<le> tb_fd b" "v_fds V w (tb_fd b) = Some c"
    by (auto simp: thread_inv_def)
  from read_once_correct [OF world fits] obtain cp m' w' where
    ro: "read_once K (tb_fd b) ?r m w = Some (cp, m', w')" and q: "quiet V w w'"
    and fr: "frame {rq_buf ?r} m m'" and cp: "completes c m' ?r cp" by blast
  let ?b = "b\<lparr>tb_pending := (tb_pending b)[i := ?p\<lparr>fu_result := Some cp\<rparr>]\<rparr>"
  have run: "run_task K i b m w = Some (?b, m', w')" using True ro by (simp add: run_task_def)
  have reqs: "tb_requests ?b = tb_requests b"
    using True by (simp add: tb_requests_def map_update list_update_same_conv)
  have others: "request_fits m' (fu_request p) \<and>
      (\<forall>cp. fu_result p = Some cp \<longrightarrow> completes c m' (fu_request p) cp)"
    if "p \<in> set (tb_pending ?b)" for p
  proof -
    from that obtain j where j: "j < length (tb_pending b)" "p = tb_pending ?b ! j"
      by (auto simp: in_set_conv_nth)
    show ?thesis
    proof (cases "j = i")
      case True': True
      with j True fits fr cp show ?thesis by (auto intro: request_fits_frame)
    next
      case False
      with j(2) have p: "p = tb_pending b ! j" by simp
      have "p \<in> set (tb_pending b)" unfolding p using j(1) by simp
      with inv have old: "request_fits m (fu_request p)"
        "\<forall>cp. fu_result p = Some cp \<longrightarrow> completes c m (fu_request p) cp"
        by (auto simp: thread_inv_def)
      have "rq_buf (fu_request p) \<noteq> rq_buf ?r"
        using inv j(1) True False p nth_eq_iff_index_eq [of "map rq_buf (tb_requests b)" j i]
        by (simp add: thread_inv_def tb_requests_def)
      moreover have "request_fits m' (fu_request p)" by (rule request_fits_frame [OF old(1) fr])
      ultimately show ?thesis
        using old fr by (auto intro: completes_frame simp: request_fits_def)
    qed
  qed
  have "thread_inv K V fd c ?b m' w'"
    using inv q others reqs by (simp add: thread_inv_def quiet_def thread_world_def)
  moreover have "rq_buf ?r \<in> bufs_of (tb_requests b)"
    using mem by (auto simp: bufs_of_def tb_requests_def)
  ultimately have "tb_advance K V fd c b m w ?b m' w'"
    using q fr reqs True
    by (auto simp: tb_advance_def nth_list_update intro: frame_mono)
  with run True show ?thesis by simp
qed

lemma run_tasks_advances:
  "thread_inv K V fd c b m w \<Longrightarrow>
   \<exists>b' m' w'. run_tasks K is b m w = Some (b', m', w') \<and> tb_advance K V fd c b m w b' m' w'"
proof (induction "is" arbitrary: b m w)
  case Nil
  then show ?case by (auto intro: tb_advance_refl)
next
  case (Cons i "is")
  from run_task_advances [OF Cons.prems, of i] obtain b1 m1 w1 where
    1: "run_task K i b m w = Some (b1, m1, w1)" "tb_advance K V fd c b m w b1 m1 w1" by blast
  from Cons.IH [OF tb_advance_inv [OF 1(2)]] obtain b2 m2 w2 where
    "run_tasks K is b1 m1 w1 = Some (b2, m2, w2)" "tb_advance K V fd c b1 m1 w1 b2 m2 w2" by blast
  with 1 tb_advance_trans [OF 1(2)] show ?case by auto
qed

lemma pool_progress_advances:
  assumes inv: "thread_inv K V fd c b m w"
  shows "\<exists>b' m' w'. pool_progress K b m w = Some (b', m', w') \<and> tb_advance K V fd c b m w b' m' w'"
proof -
  obtain ts w1 where f: "pool_finish K (length (tb_pending b)) w = (ts, w1)"
    by (cases "pool_finish K (length (tb_pending b)) w")
  have law: "files_law K V" "v_good V w" using inv by (auto simp: thread_inv_def thread_world_def)
  have q: "quiet V w w1" by (rule pool_finish_quiet [OF files_lawD(7) [OF law(1)] law(2) f])
  then have inv1: "thread_inv K V fd c b m w1"
    using inv by (simp add: thread_inv_def quiet_def thread_world_def)
  from q inv1 have "tb_advance K V fd c b m w b m w1" by (simp add: tb_advance_def)
  with run_tasks_advances [OF inv1] f show ?thesis
    unfolding pool_progress_def by (fastforce intro: tb_advance_trans)
qed

lemma wait_for_task_advances:
  assumes inv: "thread_inv K V fd c b m w"
  shows "\<exists>b' m' w'. wait_for_task K i b m w = Some (b', m', w') \<and> tb_advance K V fd c b m w b' m' w' \<and>
    (i < length (tb_pending b) \<longrightarrow> fu_result (tb_pending b' ! i) \<noteq> None)"
proof -
  from pool_progress_advances [OF inv] obtain b1 m1 w1 where
    1: "pool_progress K b m w = Some (b1, m1, w1)" "tb_advance K V fd c b m w b1 m1 w1" by blast
  from run_task_advances [OF tb_advance_inv [OF 1(2)], of i] obtain b2 m2 w2 where
    2: "run_task K i b1 m1 w1 = Some (b2, m2, w2)" "tb_advance K V fd c b1 m1 w1 b2 m2 w2"
      "i < length (tb_pending b1) \<longrightarrow> fu_result (tb_pending b2 ! i) \<noteq> None" by blast
  with 1 tb_advance_trans [OF 1(2) 2(2)] tb_advance_length [OF 1(2)] show ?thesis
    by (simp add: wait_for_task_def)
qed

text \<open>After the loop the futures that it waited for are ready.\<close>

lemma wait_oldest_advances:
  "thread_inv K V fd c b m w \<Longrightarrow>
   \<exists>b' m' w'. wait_oldest K is b m w = Some (b', m', w') \<and> tb_advance K V fd c b m w b' m' w' \<and>
     (\<forall>i \<in> set is. i < length (tb_pending b) \<longrightarrow> fu_result (tb_pending b' ! i) \<noteq> None)"
proof (induction "is" arbitrary: b m w)
  case Nil
  then show ?case by (auto intro: tb_advance_refl)
next
  case (Cons i "is")
  from wait_for_task_advances [OF Cons.prems, of i] obtain b1 m1 w1 where
    1: "wait_for_task K i b m w = Some (b1, m1, w1)" "tb_advance K V fd c b m w b1 m1 w1"
      "i < length (tb_pending b) \<longrightarrow> fu_result (tb_pending b1 ! i) \<noteq> None" by blast
  from Cons.IH [OF tb_advance_inv [OF 1(2)]] obtain b2 m2 w2 where
    2: "wait_oldest K is b1 m1 w1 = Some (b2, m2, w2)" "tb_advance K V fd c b1 m1 w1 b2 m2 w2"
      "\<forall>i \<in> set is. i < length (tb_pending b1) \<longrightarrow> fu_result (tb_pending b2 ! i) \<noteq> None" by blast
  have "fu_result (tb_pending b2 ! i) \<noteq> None" if "i < length (tb_pending b)"
    using 1(3) 2(2) that tb_advance_length [OF 1(2)] by (simp add: tb_advance_def)
  with 1 2 tb_advance_trans [OF 1(2) 2(2)] tb_advance_length [OF 1(2)] show ?case by simp
qed


text \<open>Popping the front, which is ready: its completion is true of the buffers.\<close>

lemma thread_inv_pop:
  assumes inv: "thread_inv K V fd c b m w" and b: "tb_pending b = p # ps"
  shows "thread_inv K V fd c (b\<lparr>tb_pending := ps\<rparr>) m w"
    and "fu_result p = Some cp \<Longrightarrow> completes c m (fu_request p) cp"
    and "request_fits m (fu_request p)"
    and "rq_buf (fu_request p) \<notin> bufs_of (map fu_request ps)"
  using assms by (auto simp: thread_inv_def tb_requests_def bufs_of_def)

lemma collect_ready_correct:
  "thread_inv K V fd c b m w \<Longrightarrow>
   \<exists>cps b' m' w'. collect_ready K room b m w = Some (cps, b', m', w') \<and>
     thread_inv K V fd c b' m' w' \<and> quiet V w w' \<and> frame (bufs_of (tb_requests b)) m m' \<and>
     tb_depth b' = tb_depth b \<and> length cps \<le> room \<and>
     (\<exists>ps. tb_requests b = ps @ tb_requests b' \<and> list_all2 (completes c m') ps cps) \<and>
     (\<forall>k \<le> room. k \<le> length (tb_pending b) \<longrightarrow>
        (\<forall>i < k. fu_result (tb_pending b ! i) \<noteq> None) \<longrightarrow> k \<le> length cps)"
proof (induction room arbitrary: b m w)
  case 0
  then show ?case by (simp add: thread_inv_def thread_world_def)
next
  case (Suc room)
  note inv = Suc.prems
  show ?case
  proof (cases "tb_pending b = []")
    case True
    with inv show ?thesis by (simp add: thread_inv_def thread_world_def)
  next
    case False
    from pool_progress_advances [OF inv] obtain b1 m1 w1 where
      p: "pool_progress K b m w = Some (b1, m1, w1)" and adv: "tb_advance K V fd c b m w b1 m1 w1"
      by blast
    note inv1 = tb_advance_inv [OF adv]
    have len: "length (tb_pending b1) = length (tb_pending b)" by (rule tb_advance_length [OF adv])
    with False obtain q qs where b1: "tb_pending b1 = q # qs" by (cases "tb_pending b1") auto
    have reqs: "tb_requests b = fu_request q # map fu_request qs"
      using adv b1 by (simp add: tb_advance_def tb_requests_def)
    show ?thesis
    proof (cases "fu_result q")
      case None
      have "\<not> fu_result (tb_pending b ! 0) \<noteq> None"
        using adv None b1 False by (auto simp: tb_advance_def)
      then have "k = 0" if "\<forall>i < k. fu_result (tb_pending b ! i) \<noteq> None" for k
        using that by (cases k) auto
      with False p None b1 adv show ?thesis by (auto simp: tb_advance_def)
    next
      case (Some cp)
      let ?b = "b1\<lparr>tb_pending := qs\<rparr>"
      note pop = thread_inv_pop [OF inv1 b1]
      from Suc.IH [OF pop(1)] obtain cps b2 m2 w2 where
        c: "collect_ready K room ?b m1 w1 = Some (cps, b2, m2, w2)"
        and r: "thread_inv K V fd c b2 m2 w2" "quiet V w1 w2" "frame (bufs_of (tb_requests ?b)) m1 m2"
          "tb_depth b2 = tb_depth ?b" "length cps \<le> room"
        and ps: "\<exists>ps. tb_requests ?b = ps @ tb_requests b2 \<and> list_all2 (completes c m2) ps cps"
        and k: "\<forall>k \<le> room. k \<le> length (tb_pending ?b) \<longrightarrow>
          (\<forall>i < k. fu_result (tb_pending ?b ! i) \<noteq> None) \<longrightarrow> k \<le> length cps" by blast
      have run: "collect_ready K (Suc room) b m w = Some (cp # cps, b2, m2, w2)"
        using False p b1 Some c by simp
      have fr: "frame (bufs_of (tb_requests b)) m m2"
      proof (rule frame_trans)
        show "frame (bufs_of (tb_requests b)) m m1" using adv by (simp add: tb_advance_def)
        show "frame (bufs_of (tb_requests ?b)) m1 m2" by (rule r(3))
        show "bufs_of (tb_requests ?b) \<subseteq> bufs_of (tb_requests b)"
          using reqs by (auto simp: bufs_of_def tb_requests_def)
      qed simp
      have head: "completes c m2 (fu_request q) cp"
        using pop(2) [OF Some] pop(3,4) r(3)
        by (auto intro: completes_frame simp: request_fits_def tb_requests_def)
      have ready: "k \<le> Suc (length cps)"
        if "k \<le> Suc room" "k \<le> length (tb_pending b)"
          "\<forall>i < k. fu_result (tb_pending b ! i) \<noteq> None" for k
      proof (cases k)
        case (Suc j)
        have "fu_result (qs ! i) \<noteq> None" if "i < j" for i
        proof -
          have "fu_result (tb_pending b1 ! Suc i) \<noteq> None"
            using adv \<open>i < j\<close> Suc that \<open>k \<le> length (tb_pending b)\<close>
              \<open>\<forall>i < k. fu_result (tb_pending b ! i) \<noteq> None\<close> by (simp add: tb_advance_def)
          then show ?thesis by (simp add: b1)
        qed
        with k Suc that(1,2) len b1 show ?thesis by auto
      qed simp
      from ps obtain ps where "tb_requests ?b = ps @ tb_requests b2" "list_all2 (completes c m2) ps cps"
        by blast
      with head reqs have "tb_requests b = (fu_request q # ps) @ tb_requests b2"
        "list_all2 (completes c m2) (fu_request q # ps) (cp # cps)"
        by (simp_all add: tb_requests_def)
      moreover have "quiet V w w2" "tb_depth b2 = tb_depth b"
        using adv r by (auto simp: tb_advance_def intro: quiet_trans)
      ultimately show ?thesis using run r(1,5) fr ready by auto
    qed
  qed
qed

lemma thread_reap_correct:
  assumes inv: "thread_inv K V fd c b m w"
  shows "\<exists>cps b' m' w'. thread_reap K n k b m w = Some (Inr cps, b', m', w') \<and>
    thread_inv K V fd c b' m' w' \<and> quiet V w w' \<and> frame (bufs_of (tb_requests b)) m m' \<and>
    tb_depth b' = tb_depth b \<and> length cps \<le> n \<and> min k (min n (tb_in_flight b)) \<le> length cps \<and>
    (\<exists>ps. tb_requests b = ps @ tb_requests b' \<and> list_all2 (completes c m') ps cps)"
proof -
  let ?k = "min (min k n) (length (tb_pending b))"
  from wait_oldest_advances [OF inv, of "[0..<?k]"] obtain b1 m1 w1 where
    1: "wait_oldest K [0..<?k] b m w = Some (b1, m1, w1)" and adv: "tb_advance K V fd c b m w b1 m1 w1"
    and ready: "\<forall>i \<in> set [0..<?k]. i < length (tb_pending b) \<longrightarrow> fu_result (tb_pending b1 ! i) \<noteq> None"
    by blast
  have len: "length (tb_pending b1) = length (tb_pending b)" by (rule tb_advance_length [OF adv])
  have reqs: "tb_requests b1 = tb_requests b" using adv by (simp add: tb_advance_def)
  from collect_ready_correct [OF tb_advance_inv [OF adv], of n] obtain cps b2 m2 w2 where
    2: "collect_ready K n b1 m1 w1 = Some (cps, b2, m2, w2)" "thread_inv K V fd c b2 m2 w2"
      "quiet V w1 w2" "frame (bufs_of (tb_requests b1)) m1 m2" "tb_depth b2 = tb_depth b1"
      "length cps \<le> n"
    and ps: "\<exists>ps. tb_requests b1 = ps @ tb_requests b2 \<and> list_all2 (completes c m2) ps cps"
    and k: "\<forall>k \<le> n. k \<le> length (tb_pending b1) \<longrightarrow>
        (\<forall>i < k. fu_result (tb_pending b1 ! i) \<noteq> None) \<longrightarrow> k \<le> length cps" by blast
  have "thread_reap K n k b m w = Some (Inr cps, b2, m2, w2)"
    using 1 2(1) by (simp add: thread_reap_def)
  moreover have "?k \<le> length cps" using k ready len by simp
  moreover have "quiet V w w2" "tb_depth b2 = tb_depth b" "frame (bufs_of (tb_requests b)) m m2"
    using adv 2 reqs by (auto simp: tb_advance_def intro: quiet_trans frame_trans)
  ultimately show ?thesis using 2(2,6) ps reqs by (simp add: tb_in_flight_def min.assoc)
qed

lemma thread_inv_distinct:
  "thread_inv K V fd c b m w \<Longrightarrow>
     distinct (map rq_buf (tb_requests b)) \<and> list_all (request_fits m) (tb_requests b)"
  by (auto simp: thread_inv_def tb_requests_def list_all_iff)

lemma thread_submit_correct:
  assumes inv: "thread_inv K V fd c b m w" and rs: "distinct (map rq_buf rs)"
    "bufs_of rs \<inter> bufs_of (tb_requests b) = {}" "list_all (request_fits m) rs"
    and room: "tb_in_flight b + length rs \<le> unat (tb_depth b)"
  shows "\<exists>b'. thread_submit rs b m w = Some (Inr (), b', m, w) \<and>
    tb_requests b' = tb_requests b @ rs \<and> tb_depth b' = tb_depth b \<and> thread_inv K V fd c b' m w"
proof -
  let ?b = "b\<lparr>tb_pending := tb_pending b @ map (\<lambda>r. \<lparr>fu_request = r, fu_result = None\<rparr>) rs\<rparr>"
  have reqs: "tb_requests ?b = tb_requests b @ rs" by (simp add: tb_requests_def comp_def)
  have "distinct (map rq_buf (tb_requests ?b))"
    using inv rs unfolding reqs by (auto simp: thread_inv_def bufs_of_def)
  then have "thread_inv K V fd c ?b m w"
    using inv rs by (auto simp: thread_inv_def list_all_iff)
  with reqs room show ?thesis by (auto simp: thread_submit_def tb_in_flight_def)
qed

lemma thread_destroy_correct:
  assumes inv: "thread_inv K V fd c b m w"
  shows "\<exists>m' w'. thread_destroy K b m w = Some (m', w') \<and> quiet V w w' \<and>
    frame (bufs_of (tb_requests b)) m m'"
proof -
  from pool_progress_advances [OF inv] obtain b1 m1 w1 where
    "pool_progress K b m w = Some (b1, m1, w1)" "tb_advance K V fd c b m w b1 m1 w1" by blast
  then show ?thesis by (simp add: thread_destroy_def tb_advance_def)
qed

lemma open_thread_backend_correct:
  assumes world: "thread_world K V w" and fd: "0 \<le> fd" "v_fds V w fd = Some c"
    and call: "open_thread_backend K fd options w = (r, w')"
  shows "quiet V w w' \<and> (\<forall>b. r = Inr b \<longrightarrow> tb_requests b = [] \<and>
    tb_depth b = bo_queue_depth options \<and> thread_inv K V fd c b [] w')"
proof (cases "bo_queue_depth options = 0")
  case True
  with world call show ?thesis by (auto simp: open_thread_backend_def thread_world_def)
next
  case False
  let ?n = "if bo_threads options = 0 then 2 else bo_threads options"
  obtain p w1 where p: "pool_start K ?n w = (p, w1)" by (cases "pool_start K ?n w")
  have law: "files_law K V" "v_good V w" using world by (auto simp: thread_world_def)
  have q: "quiet V w w1" by (rule pool_start_quiet [OF files_lawD(7) [OF law(1)] law(2) p])
  from call False p have "w' = w1" "r = (case p of None \<Rightarrow> Inr \<lparr>tb_fd = fd,
      tb_depth = bo_queue_depth options, tb_pending = []\<rparr>
      | Some BadAlloc \<Rightarrow> Inl (BackendError (AllocationFailed ''open_thread_backend''))
      | Some (SystemError what) \<Rightarrow> Inl (BackendError (ThreadsRefused what)))"
    by (auto simp: open_thread_backend_def split: option.splits pool_failure.splits)
  with q fd thread_world_quiet [OF world q] show ?thesis
    by (auto simp: tb_requests_def thread_inv_def quiet_def split: option.splits pool_failure.splits)
qed

lemma thread_inv_empty:
  "thread_inv K V fd c b m w \<Longrightarrow> tb_pending b = [] \<Longrightarrow> thread_inv K V fd c b m' w"
  by (simp add: thread_inv_def)

text \<open>With nothing pending, the pool has nothing to run.\<close>

lemma run_tasks_idle: "tb_pending b = [] \<Longrightarrow> run_tasks K is b m w = Some (b, m, w)"
  by (induction "is") (simp_all add: run_task_def)

lemma thread_destroy_idle:
  assumes "tb_in_flight b = 0" and "thread_world K V w"
  shows "\<exists>w'. thread_destroy K b m w = Some (m, w') \<and> quiet V w w'"
proof -
  have none: "tb_pending b = []" using assms(1) by (simp add: tb_in_flight_def)
  obtain "is" w' where f: "pool_finish K (length (tb_pending b)) w = (is, w')" by (metis prod.exhaust)
  have "quiet V w w'"
    using assms(2) pool_finish_quiet [OF _ _ f] files_lawD(7) by (auto simp: thread_world_def)
  moreover have "thread_destroy K b m w = Some (m, w')"
    using f by (simp add: thread_destroy_def pool_progress_def run_tasks_idle [OF none])
  ultimately show ?thesis by blast
qed

interpretation tb: async_backend "thread_ops K" "thread_world K V" "v_fds V" tb_requests
    "\<lambda>b. unat (tb_depth b)" "thread_inv K V" "\<lambda>_. True" "\<lambda>_. True" for K V
proof
  fix fd c b m w
  show "thread_inv K V fd c b m w \<Longrightarrow> thread_world K V w" by (simp add: thread_inv_def)
  show "thread_inv K V fd c b m w \<Longrightarrow>
      distinct (map rq_buf (tb_requests b)) \<and> list_all (request_fits m) (tb_requests b)"
    by (rule thread_inv_distinct)
  show "thread_inv K V fd c b m' w'" if "thread_inv K V fd c b m w" "thread_world K V w'"
      "v_fds V w' fd = v_fds V w fd" "m' = m \<or> tb_requests b = []" for m' w'
    using that by (auto simp: thread_inv_def tb_requests_def)
  show "thread_inv K V fd c b m w \<Longrightarrow> True \<and> bk_in_flight (thread_ops K) b = length (tb_requests b)"
    by (simp add: thread_ops_def tb_in_flight_def tb_requests_def)
next
  fix w w' fd c opts r m
  assume w: "thread_world K V w" and fd: "0 \<le> fd" "v_fds V w fd = Some c"
    and "bk_open (thread_ops K) fd opts w = (r, w')"
  then have "open_thread_backend K fd opts w = (r, w')" by (simp add: thread_ops_def)
  from open_thread_backend_correct [OF w fd this] thread_world_quiet [OF w, of w'] thread_inv_empty
  show "thread_world K V w' \<and> v_fds V w' = v_fds V w \<and> (\<forall>b. r = Inr b \<longrightarrow> tb_requests b = [] \<and>
      unat (tb_depth b) = unat (bo_queue_depth opts) \<and> thread_inv K V fd c b m w')"
    by (auto simp: quiet_def tb_requests_def)
next
  fix fd c b m w rs
  assume inv: "thread_inv K V fd c b m w" and rs: "distinct (map rq_buf rs)"
    "bufs_of rs \<inter> bufs_of (tb_requests b) = {}" "list_all (request_fits m) rs"
  show "\<exists>r b' m' w'. bk_submit (thread_ops K) rs b m w = Some (r, b', m', w') \<and>
      thread_world K V w' \<and> v_fds V w' = v_fds V w \<and>
      frame (bufs_of (tb_requests b) \<union> bufs_of rs) m m' \<and>
      (unat (tb_depth b) < length (tb_requests b) + length rs \<longrightarrow> r \<noteq> Inr () \<and> b' = b \<and> m' = m \<and> w' = w) \<and>
      (r = Inr () \<longrightarrow> mset (tb_requests b') = mset (tb_requests b) + mset rs \<and>
         unat (tb_depth b') = unat (tb_depth b) \<and> thread_inv K V fd c b' m' w')"
  proof (cases "tb_in_flight b + length rs \<le> unat (tb_depth b)")
    case True
    have "thread_world K V w" "length (tb_requests b) = tb_in_flight b"
      using inv by (simp_all add: thread_inv_def tb_requests_def tb_in_flight_def)
    with thread_submit_correct [OF inv rs True] True show ?thesis
      by (auto simp: thread_ops_def)
  next
    case False
    with inv show ?thesis
      by (auto simp: thread_ops_def thread_submit_def tb_in_flight_def tb_requests_def thread_inv_def)
  qed
next
  fix fd c b m w n k
  assume inv: "thread_inv K V fd c b m w"
  from thread_reap_correct [OF inv, of n k] obtain cps b' m' w' where
    r: "thread_reap K n k b m w = Some (Inr cps, b', m', w')" "thread_inv K V fd c b' m' w'"
      "quiet V w w'" "frame (bufs_of (tb_requests b)) m m'" "tb_depth b' = tb_depth b"
      "length cps \<le> n" "min k (min n (tb_in_flight b)) \<le> length cps"
    and ps: "\<exists>ps. tb_requests b = ps @ tb_requests b' \<and> list_all2 (completes c m') ps cps" by blast
  from ps have "\<exists>ps. mset (tb_requests b) = mset ps + mset (tb_requests b') \<and>
      list_all2 (completes c m') ps cps" by auto
  with r show "\<exists>r b' m' w'. bk_reap (thread_ops K) n k b m w = Some (r, b', m', w') \<and>
      thread_world K V w' \<and> v_fds V w' = v_fds V w \<and> frame (bufs_of (tb_requests b)) m m' \<and>
      (\<forall>cs. r = Inr cs \<longrightarrow> length cs \<le> n \<and> min 1 (min k (min n (length (tb_requests b)))) \<le> length cs \<and>
         unat (tb_depth b') = unat (tb_depth b) \<and> thread_inv K V fd c b' m' w' \<and>
         (\<exists>ps. mset (tb_requests b) = mset ps + mset (tb_requests b') \<and>
            list_all2 (completes c m') ps cs))"
    by (simp add: thread_ops_def tb_in_flight_def tb_requests_def quiet_def thread_inv_def)
next
  fix fd c b m w
  assume inv: "thread_inv K V fd c b m w"
  then have "thread_world K V w" by (simp add: thread_inv_def)
  with thread_destroy_correct [OF inv] thread_world_quiet
  show "\<exists>m' w'. bk_destroy (thread_ops K) b m w = Some (m', w') \<and> thread_world K V w' \<and>
      v_fds V w' = v_fds V w \<and> frame (bufs_of (tb_requests b)) m m'"
    by (fastforce simp: thread_ops_def quiet_def)
next
  fix b m w
  assume "bk_in_flight (thread_ops K) b = 0" and world: "thread_world K V w"
  then have "tb_in_flight b = 0" by (simp add: thread_ops_def)
  from thread_destroy_idle [OF this world] thread_world_quiet [OF world]
  show "\<exists>m' w'. bk_destroy (thread_ops K) b m w = Some (m', w') \<and> thread_world K V w' \<and> v_fds V w' = v_fds V w"
    by (fastforce simp: thread_ops_def quiet_def)
qed simp_all

section \<open>Properties\<close>

text \<open>
  Property C12 (reap). In a world where reads are short only at the end of the file, \<open>reap\<close> on a
  thread backend always returns. It hands out the completions of the oldest requests, in the order of
  their submission, at least \<open>min (min, out.size (), in_flight ())\<close> and at most \<open>out.size ()\<close> of
  them; each completion is an error or says how much of the destination the file's bytes fill, and
  they are there. Only destinations of reads in flight are written.
\<close>

theorem thread_reap_in_order:
  assumes "thread_inv K V fd c b m w"
  shows "\<exists>cps b' m' w'. thread_reap K out_size at_least b m w = Some (Inr cps, b', m', w') \<and>
    length cps \<le> out_size \<and> min at_least (min out_size (tb_in_flight b)) \<le> length cps \<and>
    list_all2 (completes c m') (take (length cps) (tb_requests b)) cps \<and>
    tb_requests b' = drop (length cps) (tb_requests b) \<and>
    frame (bufs_of (tb_requests b)) m m' \<and> thread_inv K V fd c b' m' w'"
proof -
  from thread_reap_correct [OF assms, of out_size at_least] obtain cps b' m' w' ps where
    r: "thread_reap K out_size at_least b m w = Some (Inr cps, b', m', w')" "thread_inv K V fd c b' m' w'"
      "frame (bufs_of (tb_requests b)) m m'" "length cps \<le> out_size"
      "min at_least (min out_size (tb_in_flight b)) \<le> length cps"
    and ps: "tb_requests b = ps @ tb_requests b'" "list_all2 (completes c m') ps cps" by blast
  have "length ps = length cps" using ps(2) by (rule list_all2_lengthD)
  with ps have "take (length cps) (tb_requests b) = ps"
    "drop (length cps) (tb_requests b) = tb_requests b'" by simp_all
  with r ps show ?thesis by auto
qed

theorem thread_reap_in_order_witness:
  "\<exists>b' m' w'. thread_reap memfs_sys 2 2
     \<lparr>tb_fd = 3, tb_depth = 4, tb_pending =
       [\<lparr>fu_request = \<lparr>rq_offset = 0, rq_buf = 1, rq_len = 2, rq_token = 1\<rparr>, fu_result = None\<rparr>,
        \<lparr>fu_request = \<lparr>rq_offset = 2, rq_buf = 0, rq_len = 2, rq_token = 0\<rparr>, fu_result = None\<rparr>]\<rparr>
     [\<lparr>sp_addr = 0, sp_bytes = [0, 0]\<rparr>, \<lparr>sp_addr = 8, sp_bytes = [0, 0]\<rparr>]
     \<lparr>mf_files = [(''a'', [1, 2, 3])], mf_fds = [(3, ''a'')], mf_next = 4, mf_signals = 1,
       mf_chunk = None, mf_block = 1\<rparr>
   = Some (Inr [\<lparr>cp_token = 1, cp_bytes = 2, cp_error = 0\<rparr>, \<lparr>cp_token = 0, cp_bytes = 1, cp_error = 0\<rparr>],
       b', m', w') \<and> take 1 (sp_bytes (m' ! 0)) = [3] \<and> tb_requests b' = []"
proof -
  let ?r1 = "\<lparr>rq_offset = 0, rq_buf = 1, rq_len = 2, rq_token = 1\<rparr>"
  let ?r2 = "\<lparr>rq_offset = 2, rq_buf = 0, rq_len = 2, rq_token = 0\<rparr>"
  let ?b = "\<lparr>tb_fd = 3, tb_depth = 4, tb_pending =
       [\<lparr>fu_request = ?r1, fu_result = None\<rparr>, \<lparr>fu_request = ?r2, fu_result = None\<rparr>]\<rparr>"
  let ?m = "[\<lparr>sp_addr = 0, sp_bytes = [0, 0]\<rparr>, \<lparr>sp_addr = 8, sp_bytes = [0, 0]\<rparr>]"
  let ?w = "\<lparr>mf_files = [(''a'', [1, 2, 3])], mf_fds = [(3, ''a'')], mf_next = 4, mf_signals = 1,
       mf_chunk = None, mf_block = 1\<rparr>"
  let ?V = "memfs_view True [(''a'', [1, 2, 3])]"
  have "thread_inv memfs_sys ?V 3 [1, 2, 3] ?b ?m ?w"
    by (simp add: thread_inv_def thread_world_def memfs_files_law memfs_full_pread_law
        memfs_good_def memfs_content_def tb_requests_def request_fits_def span_size_def)
  from thread_reap_in_order [OF this, of 2 2] obtain cps b' m' w' where
    r: "thread_reap memfs_sys 2 2 ?b ?m ?w = Some (Inr cps, b', m', w')"
    and l: "list_all2 (completes [1, 2, 3] m') (take (length cps) (tb_requests ?b)) cps"
      "tb_requests b' = drop (length cps) (tb_requests ?b)" by blast
  have "\<exists>b' m' w'. thread_reap memfs_sys 2 2 ?b ?m ?w = Some (Inr
      [\<lparr>cp_token = 1, cp_bytes = 2, cp_error = 0\<rparr>, \<lparr>cp_token = 0, cp_bytes = 1, cp_error = 0\<rparr>], b', m', w')"
    by (simp add: thread_reap_def wait_for_task_def pool_progress_def run_task_def read_once_def
        retry_eintr.simps memfs_pread_def memfs_content_def span_first_def span_size_def window_def
        numeral_2_eq_2 upt_rec)
  with r have cps: "cps = [\<lparr>cp_token = 1, cp_bytes = 2, cp_error = 0\<rparr>,
      \<lparr>cp_token = 0, cp_bytes = 1, cp_error = 0\<rparr>]" by auto
  with l have "take 1 (sp_bytes (m' ! 0)) = [3]" "tb_requests b' = []"
    by (simp_all add: tb_requests_def completes_def window_def)
  with r cps show ?thesis by blast
qed

text \<open>
  Property C14 (a batch of reads). Requests for distinct buffers that fit the queue are accepted by a
  fresh thread backend; reaping as many as were submitted then gives one completion for each, in
  order, and each is true of the buffers. More requests than the queue holds are refused with
  \<open>EAGAIN\<close>, and nothing changes.
\<close>

theorem thread_read_batch:
  assumes "thread_world K V w" and "0 \<le> fd" and "v_fds V w fd = Some c"
    and "open_thread_backend K fd options w = (Inr b, w1)"
    and "distinct (map rq_buf rs)" and "list_all (request_fits m) rs"
  shows "\<exists>r b1 m1 w2. thread_submit rs b m w1 = Some (r, b1, m1, w2) \<and>
    (if length rs \<le> unat (bo_queue_depth options)
     then r = Inr () \<and> tb_in_flight b1 = length rs \<and>
       (\<exists>cps b2 m2 w3. thread_reap K (length rs) (length rs) b1 m1 w2 = Some (Inr cps, b2, m2, w3) \<and>
          length cps = length rs \<and> list_all2 (completes c m2) rs cps \<and> tb_in_flight b2 = 0 \<and>
          frame (bufs_of rs) m m2)
     else r = Inl (BackendError (QueueFull ''ThreadBackend'' EAGAIN)) \<and>
       b1 = b \<and> m1 = m \<and> w2 = w1)"
proof -
  from open_thread_backend_correct [OF assms(1-4)]
  have b: "tb_requests b = []" "tb_depth b = bo_queue_depth options" "thread_inv K V fd c b [] w1" by auto
  then have empty: "tb_pending b = []" "tb_in_flight b = 0" by (simp_all add: tb_requests_def tb_in_flight_def)
  have inv: "thread_inv K V fd c b m w1" by (rule thread_inv_empty [OF b(3) empty(1)])
  show ?thesis
  proof (cases "length rs \<le> unat (bo_queue_depth options)")
    case False
    with b empty show ?thesis by (simp add: thread_submit_def)
  next
    case True
    have "bufs_of rs \<inter> bufs_of (tb_requests b) = {}" using b(1) by (simp add: bufs_of_def)
    from thread_submit_correct [OF inv assms(5) this assms(6)] True b empty obtain b1 where
      s: "thread_submit rs b m w1 = Some (Inr (), b1, m, w1)" "tb_requests b1 = rs"
        "thread_inv K V fd c b1 m w1" by auto
    have n: "tb_in_flight b1 = length rs" using s(2) by (auto simp: tb_in_flight_def tb_requests_def)
    from thread_reap_correct [OF s(3), of "length rs" "length rs"] obtain cps b2 m2 w3 ps where
      r: "thread_reap K (length rs) (length rs) b1 m w1 = Some (Inr cps, b2, m2, w3)"
        "frame (bufs_of (tb_requests b1)) m m2" "length cps \<le> length rs" "length rs \<le> length cps"
      and ps: "tb_requests b1 = ps @ tb_requests b2" "list_all2 (completes c m2) ps cps"
      using n by auto
    have "length ps = length cps" using ps(2) by (rule list_all2_lengthD)
    with ps(1) s(2) r(3,4) have "ps = rs" "tb_requests b2 = []" by auto
    then have "tb_in_flight b2 = 0" by (simp add: tb_in_flight_def tb_requests_def)
    with s n r ps \<open>ps = rs\<close> True show ?thesis by auto
  qed
qed

theorem thread_read_batch_witness:
  "\<exists>b b1 m1 w1 w2. open_thread_backend memfs_sys 3 \<lparr>bo_queue_depth = 1, bo_threads = 0\<rparr>
       \<lparr>mf_files = [(''a'', [1, 2, 3])], mf_fds = [(3, ''a'')], mf_next = 4, mf_signals = 0,
         mf_chunk = None, mf_block = 1\<rparr> = (Inr b, w1) \<and>
     thread_submit [\<lparr>rq_offset = 1, rq_buf = 0, rq_len = 2, rq_token = 7\<rparr>] b
       [\<lparr>sp_addr = 0, sp_bytes = [0, 0]\<rparr>] w1 = Some (Inr (), b1, m1, w2) \<and> tb_in_flight b1 = 1"
proof -
  let ?o = "\<lparr>bo_queue_depth = 1, bo_threads = 0\<rparr>"
  let ?w = "\<lparr>mf_files = [(''a'', [1, 2, 3])], mf_fds = [(3, ''a'')], mf_next = 4, mf_signals = 0,
         mf_chunk = None, mf_block = 1\<rparr>"
  let ?r = "\<lparr>rq_offset = 1, rq_buf = 0, rq_len = 2, rq_token = 7\<rparr>"
  let ?m = "[\<lparr>sp_addr = 0, sp_bytes = [0, 0]\<rparr>]"
  have w: "thread_world memfs_sys (memfs_view True [(''a'', [1, 2, 3])]) ?w"
    by (simp add: thread_world_def memfs_files_law memfs_full_pread_law memfs_good_def)
  obtain b w1 where o: "open_thread_backend memfs_sys 3 ?o ?w = (Inr b, w1)"
    by (simp add: open_thread_backend_def)
  have "v_fds (memfs_view True [(''a'', [1, 2, 3])]) ?w 3 = Some [1, 2, 3]"
    by (simp add: memfs_content_def)
  moreover have "list_all (request_fits ?m) [?r]" by (simp add: request_fits_def span_size_def)
  ultimately show ?thesis
    using thread_read_batch [OF w _ _ o, of "[1, 2, 3]" "[?r]" ?m] o by auto
qed

end
