(* ===== verification/Shard.thy ===== *)
theory Shard
  imports Outside "HOL-Library.Char_ord" "HOL-Library.List_Lexorder"
begin

text \<open>
  \<open>include/dsio/shard.hpp\<close> and \<open>src/shard.cpp\<close>: byte ranges of files, the text manifest that lists
  them, and the discovery of the files of a directory. The parts of the standard library that the
  manifest code uses are defined first: searching a string, \<open>std::from_chars\<close>, \<open>std::getline\<close> and
  the POSIX rules of \<open>std::filesystem::path\<close>.
\<close>

section \<open>Standard library\<close>

text \<open>\<open>text.find (c, from)\<close>; \<open>None\<close> is \<open>npos\<close>.\<close>

fun find_char :: "char \<Rightarrow> string \<Rightarrow> nat option" where
  "find_char c [] = None"
| "find_char c (x # xs) = (if x = c then Some 0 else map_option Suc (find_char c xs))"

definition find_from :: "char \<Rightarrow> nat \<Rightarrow> string \<Rightarrow> nat option" where
  "find_from c from text = map_option (\<lambda>i. from + i) (find_char c (drop from text))"

definition is_digit :: "char \<Rightarrow> bool" where
  "is_digit c \<longleftrightarrow> 48 \<le> (of_char c :: nat) \<and> (of_char c :: nat) \<le> 57"

definition digits_value :: "string \<Rightarrow> nat" where
  "digits_value ds = foldl (\<lambda>v c. 10 * v + (of_char c - 48)) 0 ds"

text \<open>
  \<open>std::from_chars\<close> for an unsigned 64-bit integer in base 10: the value of the longest prefix of
  digits and the rest of the text, or nothing when there is no digit or the value does not fit.
\<close>

definition from_chars :: "string \<Rightarrow> (u64 \<times> string) option" where
  "from_chars text =
     (let ds = takeWhile is_digit text in
      if ds = [] \<or> 2 ^ 64 \<le> digits_value ds then None
      else Some (of_nat (digits_value ds), dropWhile is_digit text))"

text \<open>\<open>operator<<\<close> and \<open>std::to_string\<close> for unsigned integers.\<close>

fun decimal :: "nat \<Rightarrow> string" where
  "decimal n = (if n < 10 then [char_of (48 + n)] else decimal (n div 10) @ [char_of (48 + n mod 10)])"

declare decimal.simps [simp del]

definition newline :: char where "newline = char_of (10 :: nat)"
definition tab :: char where "tab = char_of (9 :: nat)"
definition carriage_return :: char where "carriage_return = char_of (13 :: nat)"

text \<open>
  The lines that a loop over \<open>std::getline\<close> sees: text after the last newline is a line when it is
  not empty, unless a failed read ended it.
\<close>

fun getlines :: "bool \<Rightarrow> string \<Rightarrow> string \<Rightarrow> string list" where
  "getlines bad acc [] = (if acc = [] \<or> bad then [] else [rev acc])"
| "getlines bad acc (c # cs) =
     (if c = newline then rev acc # getlines bad [] cs else getlines bad (c # acc) cs)"

definition path_is_relative :: "string \<Rightarrow> bool" where
  "path_is_relative p \<longleftrightarrow> (case p of [] \<Rightarrow> True | c # _ \<Rightarrow> c \<noteq> CHR ''/'')"

definition path_filename :: "string \<Rightarrow> string" where
  "path_filename p = rev (takeWhile (\<lambda>c. c \<noteq> CHR ''/'') (rev p))"

definition parent_path :: "string \<Rightarrow> string" where
  "parent_path p =
     (let before = dropWhile (\<lambda>c. c \<noteq> CHR ''/'') (rev p);
          stem = dropWhile (\<lambda>c. c = CHR ''/'') before
      in if before = [] then [] else if stem = [] then ''/'' else rev stem)"

text \<open>\<open>directory / p\<close> for a relative path \<open>p\<close>.\<close>

definition path_append :: "string \<Rightarrow> string \<Rightarrow> string" where
  "path_append d p = (if d = [] \<or> last d = CHR ''/'' then d @ p else d @ ''/'' @ p)"

section \<open>Shards\<close>

record shard =
  sh_path :: string
  sh_offset :: u64
  sh_length :: u64

definition shard_end :: "shard \<Rightarrow> u64" where
  "shard_end s = sh_offset s + sh_length s"

definition shard_contains :: "shard \<Rightarrow> u64 \<Rightarrow> bool" where
  "shard_contains s position \<longleftrightarrow> position \<ge> sh_offset s \<and> position < shard_end s"

text \<open>A \<open>ShardSet\<close> is its vector of shards.\<close>

type_synonym shard_set = "shard list"

definition shard_set_add :: "shard_set \<Rightarrow> shard \<Rightarrow> shard_set" where
  "shard_set_add shards s = shards @ [s]"

fun sum_lengths :: "u64 \<Rightarrow> shard list \<Rightarrow> u64" where
  "sum_lengths total' [] = total'"
| "sum_lengths total' (s # ss) = sum_lengths (total' + sh_length s) ss"

definition total_bytes :: "shard_set \<Rightarrow> u64" where
  "total_bytes shards = sum_lengths 0 shards"

section \<open>Reading a manifest\<close>

definition parse_u64 :: "string \<Rightarrow> u64 option" where
  "parse_u64 text =
     (if text = [] then None
      else case from_chars text of
          None \<Rightarrow> None
        | Some (out, rest) \<Rightarrow> if rest = [] then Some out else None)"

definition split_line :: "string \<Rightarrow> (string \<times> string \<times> string) option" where
  "split_line line =
     (case find_from tab 0 line of
        None \<Rightarrow> None
      | Some first \<Rightarrow>
          (case find_from tab (first + 1) line of
             None \<Rightarrow> None
           | Some second \<Rightarrow>
               if find_from tab (second + 1) line \<noteq> None then None
               else Some (take first line,
                          take (second - first - 1) (drop (first + 1) line),
                          drop (second + 1) line)))"

definition load_error :: "string \<Rightarrow> load_problem \<Rightarrow> error" where
  "load_error manifest message = ShardError (LoadError manifest message)"

text \<open>
  The body of the loop for one line that is neither empty nor a comment. \<open>None\<close>: the division by
  an alignment of zero.
\<close>

definition load_line :: "string \<Rightarrow> string \<Rightarrow> u64 \<Rightarrow> nat \<Rightarrow> string \<Rightarrow> shard outcome option" where
  "load_line manifest directory alignment number line =
     (case split_line line of
        None \<Rightarrow> Some (Inl (load_error manifest (ExpectedThreeFields number)))
      | Some (path, offset_text, length_text) \<Rightarrow>
          if path = [] then Some (Inl (load_error manifest (EmptyPath number)))
          else
            (case (parse_u64 offset_text, parse_u64 length_text) of
               (Some offset, Some len) \<Rightarrow>
                 if len = 0 then Some (Inl (load_error manifest (ZeroLength number)))
                 else if alignment = 0 then None
                 else if offset mod alignment \<noteq> 0
                 then Some (Inl (load_error manifest (MisalignedOffset number offset alignment)))
                 else if offset + len < offset
                 then Some (Inl (load_error manifest (EndOverflows number)))
                 else
                   (let resolved = (if path_is_relative path \<and> directory \<noteq> []
                                    then path_append directory path else path)
                    in Some (Inr \<lparr>sh_path = resolved, sh_offset = offset, sh_length = len\<rparr>))
             | _ \<Rightarrow> Some (Inl (load_error manifest (NotDecimal number)))))"

text \<open>A trailing carriage return is dropped; empty lines and lines that start with \<open>#\<close> are skipped.\<close>

definition chomp :: "string \<Rightarrow> string" where
  "chomp line = (if line \<noteq> [] \<and> last line = carriage_return then butlast line else line)"

definition skipped :: "string \<Rightarrow> bool" where
  "skipped line \<longleftrightarrow> line = [] \<or> hd line = CHR ''#''"

fun load_lines :: "string \<Rightarrow> string \<Rightarrow> u64 \<Rightarrow> nat \<Rightarrow> shard list \<Rightarrow> string list \<Rightarrow>
    shard list outcome option" where
  "load_lines manifest directory alignment number shards [] = Some (Inr shards)"
| "load_lines manifest directory alignment number shards (raw # ls) =
     (let number' = number + 1; line = chomp raw in
      if skipped line then load_lines manifest directory alignment number' shards ls
      else
        (case load_line manifest directory alignment number' line of
           None \<Rightarrow> None
         | Some (Inl e) \<Rightarrow> Some (Inl e)
         | Some (Inr s) \<Rightarrow> load_lines manifest directory alignment number' (shards @ [s]) ls))"

definition shard_set_load :: "'w fs \<Rightarrow> string \<Rightarrow> u64 \<Rightarrow> 'w \<Rightarrow> shard_set outcome option" where
  "shard_set_load F manifest alignment w =
     (case in_text F manifest w of
        None \<Rightarrow> Some (Inl (load_error manifest CannotOpenManifest))
      | Some (text, bad) \<Rightarrow>
          (case load_lines manifest (parent_path manifest) alignment 0 [] (getlines bad [] text) of
             None \<Rightarrow> None
           | Some (Inl e) \<Rightarrow> Some (Inl e)
           | Some (Inr shards) \<Rightarrow>
               Some (if bad then Inl (load_error manifest ReadFailed) else Inr shards)))"

section \<open>Discovering the files of a directory\<close>

text \<open>
  The loop over the entries: the files kept so far and whether the error code is set. Every call
  overwrites the error code.
\<close>

fun discover_entries :: "'w fs \<Rightarrow> 'w \<Rightarrow> string list \<Rightarrow> bool \<Rightarrow> string list \<Rightarrow> string list \<times> bool" where
  "discover_entries F w files ec [] = (files, ec)"
| "discover_entries F w files ec (entry # es) =
     (let name = path_filename entry in
      if name \<noteq> [] \<and> hd name = CHR ''.'' then discover_entries F w files ec es
      else
        (case fs_is_regular F entry w of (regular, ec') \<Rightarrow>
           if \<not> regular then discover_entries F w files ec' es
           else discover_entries F w (files @ [entry]) ec' es))"

fun discover_sizes :: "'w fs \<Rightarrow> 'w \<Rightarrow> shard list \<Rightarrow> string list \<Rightarrow> shard list outcome" where
  "discover_sizes F w shards [] = Inr shards"
| "discover_sizes F w shards (f # fs) =
     (case fs_file_size F f w of
        None \<Rightarrow> Inl (ShardError (CannotStat f))
      | Some size' \<Rightarrow>
          if size' = 0 then discover_sizes F w shards fs
          else discover_sizes F w
            (shards @ [\<lparr>sh_path = fs_absolute F f w, sh_offset = 0, sh_length = size'\<rparr>]) fs)"

definition shard_set_discover :: "'w fs \<Rightarrow> string \<Rightarrow> 'w \<Rightarrow> shard_set outcome" where
  "shard_set_discover F directory w =
     (if \<not> fs_is_directory F directory w then Inl (ShardError (NotADirectory directory))
      else
        (case (case fs_entries F directory w of
                 None \<Rightarrow> ([], True)
               | Some entries \<Rightarrow> discover_entries F w [] False entries) of
           (files, ec) \<Rightarrow>
             if ec then Inl (ShardError (CannotReadDirectory directory))
             else discover_sizes F w [] (sort_key path_filename files)))"

section \<open>Writing a manifest\<close>

definition manifest_header :: string where
  "manifest_header = ''# dsio shard manifest v1''"

definition saved_path :: "'w fs \<Rightarrow> 'w \<Rightarrow> string \<Rightarrow> string \<Rightarrow> string" where
  "saved_path F w directory path =
     (if directory \<noteq> []
      then (case fs_relative F path directory w of
              Some relative \<Rightarrow> if relative \<noteq> [] then relative else path
            | None \<Rightarrow> path)
      else path)"

definition shard_line :: "string \<Rightarrow> shard \<Rightarrow> string" where
  "shard_line path s =
     path @ [tab] @ decimal (unat (sh_offset s)) @ [tab] @ decimal (unat (sh_length s)) @ [newline]"

text \<open>The loop over the shards: the text inserted so far, or the error with that text.\<close>

fun save_lines :: "'w fs \<Rightarrow> 'w \<Rightarrow> string \<Rightarrow> string \<Rightarrow> shard list \<Rightarrow> (error \<times> string) + string" where
  "save_lines F w directory text [] = Inr text"
| "save_lines F w directory text (s # ss) =
     (if tab \<in> set (sh_path s) \<or> newline \<in> set (sh_path s)
      then Inl (ShardError (TabOrNewline (sh_path s)), text)
      else save_lines F w directory
        (text @ shard_line (saved_path F w directory (sh_path s)) s) ss)"

definition shard_set_save :: "'w fs \<Rightarrow> shard_set \<Rightarrow> string \<Rightarrow> 'w \<Rightarrow> unit outcome \<times> 'w" where
  "shard_set_save F shards manifest w =
     (case out_create F manifest w of (opened, w1) \<Rightarrow>
        if \<not> opened then (Inl (ShardError (CannotWriteManifest manifest)), w1)
        else
          (case save_lines F w1 (parent_path manifest) (manifest_header @ [newline]) shards of
             Inl (e, text) \<Rightarrow> (Inl e, out_close F manifest text w1)
           | Inr text \<Rightarrow>
               (if \<not> out_good F manifest text w1
                then (Inl (ShardError (WriteFailed manifest)), out_close F manifest text w1)
                else (Inr (), out_close F manifest text w1))))"

end
