(* ===== verification/ShardStream.thy ===== *)
theory ShardStream
  imports ThreadBackend Shard
begin

text \<open>
  \<open>src/dataset.cpp\<close>, the class \<open>ShardStream\<close>: the shards of a set as one byte stream. Each shard is
  read with a backend, several segments at a time, and the completions are put back in order.

  The stream is polymorphic in the backend: \<open>B\<close> are the functions of the backend that
  \<open>open_backend\<close> returns. Its contract is that of \<open>async_backend\<close>; with it, reading the stream is
  taking bytes from the concatenation of the windows of the shards.
\<close>

section \<open>Definitions\<close>

record batch_options =
  batch_bytes :: u64
  prefetch :: u64
  read_depth :: u64
  segment_bytes :: u64
  seed :: u64

record pending_segment =
  pe_offset :: u64
  pe_slot :: nat
  pe_bytes :: nat
  pe_done :: bool

record 'b stream =
  ss_shards :: shard_set
  ss_order :: "nat list"
  ss_options :: batch_options
  ss_read_depth :: u64
  ss_next :: nat
  ss_file :: file_t
  ss_backend :: "'b option"
  ss_buffers :: "span list"
  ss_free :: "bool list"
  ss_pending :: "pending_segment list"
  ss_block :: u64
  ss_segment :: u64
  ss_window_end :: u64
  ss_next_offset :: u64
  ss_open :: bool
  ss_carry :: "byte list"
  ss_carry_size :: nat

definition stream_init :: "shard_set \<Rightarrow> nat list \<Rightarrow> batch_options \<Rightarrow> 'b stream" where
  "stream_init shards order options =
     \<lparr>ss_shards = shards, ss_order = order, ss_options = options,
      ss_read_depth = max (read_depth options) 1, ss_next = 0, ss_file = file_none,
      ss_backend = None, ss_buffers = [], ss_free = [], ss_pending = [], ss_block = 0,
      ss_segment = 0, ss_window_end = 0, ss_next_offset = 0, ss_open = False,
      ss_carry = [], ss_carry_size = 0\<rparr>"

subsection \<open>Slots and the carry\<close>

text \<open>The first free slot, marked as taken; \<open>kNoSlot\<close> is \<open>None\<close>.\<close>

fun take_free :: "bool list \<Rightarrow> (nat \<times> bool list) option" where
  "take_free [] = None"
| "take_free (True # fs) = Some (0, False # fs)"
| "take_free (False # fs) =
     (case take_free fs of None \<Rightarrow> None | Some (i, fs') \<Rightarrow> Some (Suc i, False # fs'))"

definition release :: "nat \<Rightarrow> bool list \<Rightarrow> bool list" where
  "release slot fs = fs[slot := True]"

definition flush_carry :: "byte list \<Rightarrow> 'b stream \<Rightarrow> nat \<times> byte list \<times> 'b stream" where
  "flush_carry out s =
     (if ss_carry_size s = 0 then (0, out, s)
      else
        let take_n = min (ss_carry_size s) (length out);
            out' = overwrite 0 (take take_n (ss_carry s)) out;
            carry' = (if ss_carry_size s > take_n
                      then overwrite 0 (window take_n (ss_carry_size s - take_n) (ss_carry s)) (ss_carry s)
                      else ss_carry s)
        in (take_n, out', s\<lparr>ss_carry := carry', ss_carry_size := ss_carry_size s - take_n\<rparr>))"

subsection \<open>Opening and closing a shard\<close>

text \<open>The loop that allocates the read buffers; a failure frees those allocated before.\<close>

fun alloc_buffers :: "'w sys \<Rightarrow> nat \<Rightarrow> u64 \<Rightarrow> u64 \<Rightarrow> 'w \<Rightarrow> span list outcome \<times> 'w" where
  "alloc_buffers K 0 segment block w = (Inr [], w)"
| "alloc_buffers K (Suc n) segment block w =
     (case fp_alloc K segment block w of
        (Inl e, w1) \<Rightarrow> (Inl (BatchError (BufferAlloc e)), w1)
      | (Inr buffer, w1) \<Rightarrow>
          (case alloc_buffers K n segment block w1 of
             (Inl e, w2) \<Rightarrow> (Inl e, w2)
           | (Inr buffers, w2) \<Rightarrow> (Inr (buffer # buffers), w2)))"

definition prepare_buffers ::
  "'w sys \<Rightarrow> u64 \<Rightarrow> u64 \<Rightarrow> 'b stream \<Rightarrow> 'w \<Rightarrow> unit outcome \<times> 'b stream \<times> 'w" where
  "prepare_buffers K block segment s w =
     (if ss_buffers s \<noteq> [] \<and> ss_block s = block \<and> ss_segment s = segment \<and>
         length (ss_buffers s) = unat (ss_read_depth s)
      then (Inr (), s, w)
      else
        (case alloc_buffers K (unat (ss_read_depth s)) segment block w of
           (Inl e, w') \<Rightarrow> (Inl e, s, w')
         | (Inr buffers, w') \<Rightarrow>
             (Inr (), s\<lparr>ss_buffers := buffers, ss_free := replicate (unat (ss_read_depth s)) True,
                       ss_block := block, ss_segment := segment\<rparr>, w')))"

text \<open>The segment size before it is rounded down to whole blocks.\<close>

definition segment_target :: "batch_options \<Rightarrow> u64 \<Rightarrow> u64" where
  "segment_target options block =
     (if segment_bytes options = 0 then min (max block (batch_bytes options)) (256 * 1024)
      else segment_bytes options)"

text \<open>
  \<open>open_shard\<close>. The division by a zero block traps. On the failing paths the local file is
  closed by its destructor; on success the members take over the file and the backend, and give up
  what they held.
\<close>

definition open_shard ::
  "'w sys \<Rightarrow> ('b, 'w) backend_ops \<Rightarrow> 'b stream \<Rightarrow> 'w \<Rightarrow> (unit outcome \<times> 'b stream \<times> 'w) option" where
  "open_shard K B s w =
     (if ss_next s \<ge> length (ss_order s) \<or> ss_order s ! ss_next s \<ge> length (ss_shards s) then None
      else
        let shard = ss_shards s ! (ss_order s ! ss_next s) in
        (case file_open K (sh_path shard) DirectRead w of
           (Inl e, w1) \<Rightarrow> Some (Inl e, s, w1)
         | (Inr f, w1) \<Rightarrow>
             let block = file_alignment f;
                 target = segment_target (ss_options s) block in
             if block = 0 then None
             else
               (case prepare_buffers K block (target - target mod block) s w1 of
                  (Inl e, s1, w2) \<Rightarrow> Some (Inl e, s1, snd (file_close K f w2))
                | (Inr _, s1, w2) \<Rightarrow>
                    (case bk_open B (file_fd f)
                            \<lparr>bo_queue_depth = ss_read_depth s1, bo_threads = min (ss_read_depth s1) 8\<rparr> w2 of
                       (Inl e, w3) \<Rightarrow> Some (Inl e, s1, snd (file_close K f w3))
                     | (Inr b, w3) \<Rightarrow>
                         (case file_move_assign K (ss_file s1) f w3 of ((f', _), w4) \<Rightarrow> do {
                            (m, w5) \<leftarrow> (case ss_backend s1 of None \<Rightarrow> Some (ss_buffers s1, w4)
                                       | Some old \<Rightarrow> bk_destroy B old (ss_buffers s1) w4);
                            Some (Inr (),
                              s1\<lparr>ss_file := f', ss_backend := Some b, ss_buffers := m,
                                 ss_window_end := shard_end shard, ss_next_offset := sh_offset shard,
                                 ss_open := True\<rparr>, w5)
                          })))))"

definition close_shard ::
  "'w sys \<Rightarrow> ('b, 'w) backend_ops \<Rightarrow> 'b stream \<Rightarrow> 'w \<Rightarrow> ('b stream \<times> 'w) option" where
  "close_shard K B s w = do {
     (m, w1) \<leftarrow> (case ss_backend s of None \<Rightarrow> Some (ss_buffers s, w)
                | Some b \<Rightarrow> bk_destroy B b (ss_buffers s) w);
     (case file_move_assign K (ss_file s) file_none w1 of ((f', _), w2) \<Rightarrow>
        Some (s\<lparr>ss_backend := None, ss_buffers := m, ss_pending := [], ss_file := f',
                ss_open := False, ss_next := ss_next s + 1\<rparr>, w2))
   }"

subsection \<open>The pipeline\<close>

text \<open>
  The length of the read at an offset: a segment, or what is left of the window, in whole blocks,
  and at least one.
\<close>

definition read_length :: "u64 \<Rightarrow> u64 \<Rightarrow> u64 \<Rightarrow> u64" where
  "read_length block segment remaining =
     (let length0 = (if segment > remaining then remaining else segment);
          length1 = length0 - length0 mod block
      in if length1 = 0 then block else length1)"

lemma take_free_less:
  "take_free fs = Some (i, fs') \<Longrightarrow> i < length fs \<and> fs ! i \<and> fs' = fs[i := False]"
  by (induction fs arbitrary: i fs' rule: take_free.induct) (auto split: option.splits)

lemma take_free_count:
  "take_free fs = Some (i, fs') \<Longrightarrow> count_list fs' True < count_list fs True"
  by (induction fs arbitrary: i fs' rule: take_free.induct) (auto split: option.splits)

text \<open>
  The loop of \<open>fill_pipeline\<close>, with the requests it has collected. \<open>None\<close> is a division by a zero
  block, or a read longer than its buffer (\<open>first\<close> past the end of the span).
\<close>

function fill_loop ::
  "'b stream \<Rightarrow> read_request list \<Rightarrow> (read_request list \<times> 'b stream) option" where
  "fill_loop s requests =
     (if length (ss_pending s) + length requests < unat (ss_read_depth s) \<and>
         ss_next_offset s < ss_window_end s
      then
        (case take_free (ss_free s) of
           None \<Rightarrow> Some (requests, s)
         | Some (slot, free') \<Rightarrow>
             let offset = ss_next_offset s;
                 remaining = ss_window_end s - offset;
                 len = read_length (ss_block s) (ss_segment s) remaining
             in if ss_block s = 0 \<or> slot \<ge> length (ss_buffers s) \<or>
                   unat len > span_size (ss_buffers s ! slot) then None
                else fill_loop
                  (s\<lparr>ss_free := free',
                     ss_pending := ss_pending s @
                       [\<lparr>pe_offset = offset, pe_slot = slot, pe_bytes = 0, pe_done = False\<rparr>],
                     ss_next_offset := offset + min len remaining\<rparr>)
                  (requests @ [\<lparr>rq_offset = offset, rq_buf = slot, rq_len = unat len,
                                rq_token = of_nat slot\<rparr>]))
      else Some (requests, s))"
  by pat_completeness auto

termination fill_loop
  by (relation "measure (\<lambda>(s, requests). count_list (ss_free s) True)") (auto dest: take_free_count)

declare fill_loop.simps [simp del]

text \<open>The loop that takes the rejected requests back.\<close>

fun rollback :: "nat \<Rightarrow> 'b stream \<Rightarrow> 'b stream" where
  "rollback 0 s = s"
| "rollback (Suc n) s =
     rollback n (s\<lparr>ss_free := release (pe_slot (last (ss_pending s))) (ss_free s),
                   ss_pending := butlast (ss_pending s)\<rparr>)"

definition fill_pipeline ::
  "('b, 'w) backend_ops \<Rightarrow> 'b stream \<Rightarrow> 'w \<Rightarrow> (unit outcome \<times> 'b stream \<times> 'w) option" where
  "fill_pipeline B s w = do {
     (requests, s1) \<leftarrow> fill_loop s [];
     if requests = [] then Some (Inr (), s1, w)
     else (case ss_backend s1 of
         None \<Rightarrow> None
       | Some b \<Rightarrow> do {
           (r, b', m', w') \<leftarrow> bk_submit B requests b (ss_buffers s1) w;
           let s2 = s1\<lparr>ss_backend := Some b', ss_buffers := m'\<rparr>;
           (case r of
              Inr _ \<Rightarrow> Some (Inr (), s2, w')
            | Inl e \<Rightarrow> Some (Inl e, (rollback (length requests) s2)\<lparr>ss_next_offset := ss_next_offset s\<rparr>, w'))
         })
   }"

text \<open>The first pending entry whose slot is the token, with its index.\<close>

fun find_slot :: "u64 \<Rightarrow> pending_segment list \<Rightarrow> nat option" where
  "find_slot token [] = None"
| "find_slot token (p # ps) =
     (if of_nat (pe_slot p) = token then Some 0
      else (case find_slot token ps of None \<Rightarrow> None | Some i \<Rightarrow> Some (Suc i)))"

text \<open>The entry of a completion: its bytes, trimmed to the window.\<close>

definition complete_entry :: "u64 \<Rightarrow> completion \<Rightarrow> pending_segment \<Rightarrow> pending_segment" where
  "complete_entry window_end cp p =
     p\<lparr>pe_bytes := min (cp_bytes cp) (unat (window_end - pe_offset p)), pe_done := True\<rparr>"

partial_function (option) await_front ::
  "('b, 'w) backend_ops \<Rightarrow> 'b stream \<Rightarrow> 'w \<Rightarrow> (unit outcome \<times> 'b stream \<times> 'w) option" where
  "await_front B s w =
     (if ss_pending s = [] then None
      else if pe_done (hd (ss_pending s)) then Some (Inr (), s, w)
      else (case ss_backend s of
          None \<Rightarrow> None
        | Some b \<Rightarrow> do {
            (got, b', m', w') \<leftarrow> bk_reap B 1 1 b (ss_buffers s) w;
            let s1 = s\<lparr>ss_backend := Some b', ss_buffers := m'\<rparr>;
            (case got of
               Inl e \<Rightarrow> Some (Inl e, s1, w')
             | Inr [] \<Rightarrow> Some (Inl (BatchError ReapedNothing), s1, w')
             | Inr (cp # _) \<Rightarrow>
                 (case find_slot (cp_token cp) (ss_pending s1) of
                    None \<Rightarrow> Some (Inl (BatchError UnknownCompletion), s1, w')
                  | Some i \<Rightarrow>
                      if cp_error cp \<noteq> 0 then Some (Inl (BatchError (ReadErrno (cp_error cp))), s1, w')
                      else await_front B (s1\<lparr>ss_pending := (ss_pending s1)
                             [i := complete_entry (ss_window_end s1) cp (ss_pending s1 ! i)]\<rparr>) w'))
          }))"

subsection \<open>Reading\<close>

text \<open>How an iteration of the loop of \<open>read\<close> ends.\<close>

datatype progress = Continue | Break | Fail error

text \<open>
  The second half of the loop's body: the bytes of the front entry go to \<open>out\<close> from position
  \<open>filled\<close> on, what does not fit goes to the carry, the slot is free again.
\<close>

definition consume_front ::
  "'w sys \<Rightarrow> ('b, 'w) backend_ops \<Rightarrow> nat \<Rightarrow> byte list \<Rightarrow> 'b stream \<Rightarrow> 'w \<Rightarrow>
     (progress \<times> nat \<times> byte list \<times> 'b stream \<times> 'w) option" where
  "consume_front K B filled out s w =
     (case ss_pending s of
        [] \<Rightarrow> None
      | entry # rest \<Rightarrow>
          let take_n = min (length out - filled) (pe_bytes entry);
              data = sp_bytes (ss_buffers s ! pe_slot entry);
              out' = (if take_n > 0 then overwrite filled (take take_n data) out else out);
              left = pe_bytes entry - take_n;
              s1 = (if left > 0
                    then s\<lparr>ss_carry := overwrite 0 (window take_n left data)
                             (if length (ss_carry s) < left
                              then ss_carry s @ replicate (left - length (ss_carry s)) 0
                              else ss_carry s),
                           ss_carry_size := left\<rparr>
                    else s);
              s2 = s1\<lparr>ss_free := release (pe_slot entry) (ss_free s1), ss_pending := rest\<rparr>
          in if left > 0 then Some (Break, filled + take_n, out', s2, w)
             else if pe_bytes entry = 0 then do {
               (s3, w') \<leftarrow> close_shard K B s2 w;
               Some (Continue, filled + take_n, out', s3, w')
             }
             else Some (Continue, filled + take_n, out', s2, w))"

text \<open>The body of the loop once a shard is open.\<close>

definition read_open ::
  "'w sys \<Rightarrow> ('b, 'w) backend_ops \<Rightarrow> nat \<Rightarrow> byte list \<Rightarrow> 'b stream \<Rightarrow> 'w \<Rightarrow>
     (progress \<times> nat \<times> byte list \<times> 'b stream \<times> 'w) option" where
  "read_open K B filled out s w = do {
     (submitted, s1, w1) \<leftarrow> fill_pipeline B s w;
     (case submitted of
        Inl e \<Rightarrow> Some (Fail e, filled, out, s1, w1)
      | Inr _ \<Rightarrow>
          if ss_pending s1 = [] then do {
            (s2, w2) \<leftarrow> close_shard K B s1 w1;
            Some (Continue, filled, out, s2, w2)
          }
          else do {
            (awaited, s2, w2) \<leftarrow> await_front B s1 w1;
            (case awaited of
               Inl e \<Rightarrow> Some (Fail e, filled, out, s2, w2)
             | Inr _ \<Rightarrow> consume_front K B filled out s2 w2)
          })
   }"

definition read_step ::
  "'w sys \<Rightarrow> ('b, 'w) backend_ops \<Rightarrow> nat \<Rightarrow> byte list \<Rightarrow> 'b stream \<Rightarrow> 'w \<Rightarrow>
     (progress \<times> nat \<times> byte list \<times> 'b stream \<times> 'w) option" where
  "read_step K B filled out s w =
     (if ss_open s then read_open K B filled out s w
      else if ss_next s \<ge> length (ss_order s) then Some (Break, filled, out, s, w)
      else do {
        (opened, s1, w1) \<leftarrow> open_shard K B s w;
        (case opened of
           Inl e \<Rightarrow> Some (Fail e, filled, out, s1, w1)
         | Inr _ \<Rightarrow> read_open K B filled out s1 w1)
      })"

partial_function (option) read_loop ::
  "'w sys \<Rightarrow> ('b, 'w) backend_ops \<Rightarrow> nat \<Rightarrow> byte list \<Rightarrow> 'b stream \<Rightarrow> 'w \<Rightarrow>
     (nat outcome \<times> byte list \<times> 'b stream \<times> 'w) option" where
  "read_loop K B filled out s w =
     (if filled < length out then do {
        (p, filled', out', s', w') \<leftarrow> read_step K B filled out s w;
        (case p of
           Continue \<Rightarrow> read_loop K B filled' out' s' w'
         | Break \<Rightarrow> Some (Inr filled', out', s', w')
         | Fail e \<Rightarrow> Some (Inl e, out', s', w'))
      }
      else Some (Inr filled, out, s, w))"

definition stream_read ::
  "'w sys \<Rightarrow> ('b, 'w) backend_ops \<Rightarrow> byte list \<Rightarrow> 'b stream \<Rightarrow> 'w \<Rightarrow>
     (nat outcome \<times> byte list \<times> 'b stream \<times> 'w) option" where
  "stream_read K B out s w =
     (case flush_carry out s of (filled, out', s') \<Rightarrow> read_loop K B filled out' s' w)"

subsection \<open>Destruction\<close>

text \<open>
  The members are destroyed in the reverse order of their declaration: the buffers before the backend,
  the backend before the file. While the backend has reads in flight, the buffers are gone before the requests are, which
  the contract of \<open>Backend\<close> excludes (\<open>every request's buffer must outlive the requests\<close>): \<open>None\<close>.
\<close>

definition stream_destroy :: "'w sys \<Rightarrow> ('b, 'w) backend_ops \<Rightarrow> 'b stream \<Rightarrow> 'w \<Rightarrow> 'w option" where
  "stream_destroy K B s w =
     (case ss_backend s of
        None \<Rightarrow> Some (snd (file_close K (ss_file s) w))
      | Some b \<Rightarrow>
          if bk_in_flight B b \<noteq> 0 then None
          else do {
            (m, w') \<leftarrow> bk_destroy B b [] w;
            Some (snd (file_close K (ss_file s) w'))
          })"

declare await_front.simps [code]
declare read_loop.simps [code]

section \<open>The bytes that are left\<close>

text \<open>The segments that are waited for.\<close>

definition in_flight :: "'b stream \<Rightarrow> pending_segment list" where
  "in_flight s = filter (\<lambda>p. \<not> pe_done p) (ss_pending s)"

text \<open>The bytes of a shard: its window of the file, shorter where the file ends before it.\<close>

definition shard_content :: "'w view \<Rightarrow> shard \<Rightarrow> byte list" where
  "shard_content V sh =
     (case v_files V (sh_path sh) of
        None \<Rightarrow> []
      | Some c \<Rightarrow> window (unat (sh_offset sh)) (unat (sh_length sh)) c)"

definition current_shard :: "'b stream \<Rightarrow> shard" where
  "current_shard s = ss_shards s ! (ss_order s ! ss_next s)"

text \<open>The offset of the next byte that the stream delivers from the open shard.\<close>

definition stream_pos :: "'b stream \<Rightarrow> u64" where
  "stream_pos s = (case ss_pending s of [] \<Rightarrow> ss_next_offset s | p # _ \<Rightarrow> pe_offset p)"

definition open_rest :: "'w view \<Rightarrow> 'b stream \<Rightarrow> byte list" where
  "open_rest V s =
     (if ss_open s
      then window (unat (stream_pos s)) (unat (ss_window_end s) - unat (stream_pos s))
             (the (v_files V (sh_path (current_shard s))))
      else [])"

definition later_shards :: "'b stream \<Rightarrow> shard list" where
  "later_shards s =
     map (\<lambda>i. ss_shards s ! i) (drop (if ss_open s then ss_next s + 1 else ss_next s) (ss_order s))"

definition stream_rest :: "'w view \<Rightarrow> 'b stream \<Rightarrow> byte list" where
  "stream_rest V s =
     take (ss_carry_size s) (ss_carry s) @ open_rest V s @
     concat (map (shard_content V) (later_shards s))"

section \<open>The invariant\<close>

text \<open>
  What the stream needs of the devices: block sizes are positive and at most \<open>n\<close>; and the segment
  size of the options is at least one block of that size.
\<close>

definition block_law :: "'w sys \<Rightarrow> 'w view \<Rightarrow> u64 \<Rightarrow> bool" where
  "block_law K V n \<longleftrightarrow>
     (\<forall>fd w l w'. v_good V w \<longrightarrow> sys_blksszget K fd w = (Ret l, w') \<longrightarrow> l \<le> uint n) \<and>
     (\<forall>p w l w'. v_good V w \<longrightarrow> sys_statfs K p w = (Ret l, w') \<longrightarrow> 0 < l \<and> l \<le> uint n)"

definition segments_hold :: "batch_options \<Rightarrow> u64 \<Rightarrow> bool" where
  "segments_hold options n \<longleftrightarrow>
     (if segment_bytes options = 0 then n \<le> 256 * 1024 else n \<le> segment_bytes options)"

text \<open>The largest segment that the options allow, and whether a backend accepts reads of that length.\<close>

definition segment_limit :: "batch_options \<Rightarrow> u64" where
  "segment_limit options = (if segment_bytes options = 0 then 256 * 1024 else segment_bytes options)"

definition options_fit :: "(nat \<Rightarrow> bool) \<Rightarrow> batch_options \<Rightarrow> u64 \<Rightarrow> bool" where
  "options_fit len_ok options n \<longleftrightarrow>
     segments_hold options n \<and> (\<forall>l \<le> unat (segment_limit options). len_ok l)"

lemma options_fit_any [simp]: "options_fit (\<lambda>_. True) options n \<longleftrightarrow> segments_hold options n"
  by (simp add: options_fit_def)

text \<open>The requests of the entries, and the offsets that follow one another up to \<open>stop\<close>.\<close>

definition request_of :: "'b stream \<Rightarrow> pending_segment \<Rightarrow> read_request" where
  "request_of s p =
     \<lparr>rq_offset = pe_offset p, rq_buf = pe_slot p,
      rq_len = unat (read_length (ss_block s) (ss_segment s) (ss_window_end s - pe_offset p)),
      rq_token = of_nat (pe_slot p)\<rparr>"

definition segment_step :: "'b stream \<Rightarrow> u64 \<Rightarrow> u64" where
  "segment_step s off =
     min (read_length (ss_block s) (ss_segment s) (ss_window_end s - off)) (ss_window_end s - off)"

fun chained :: "'b stream \<Rightarrow> u64 \<Rightarrow> pending_segment list \<Rightarrow> u64 \<Rightarrow> bool" where
  "chained s off [] stop \<longleftrightarrow> off = stop"
| "chained s off (p # ps) stop \<longleftrightarrow>
     pe_offset p = off \<and> off < ss_window_end s \<and> chained s (off + segment_step s off) ps stop"

text \<open>A done entry: as many bytes as the file has in the segment, and they are in its buffer.\<close>

definition entry_ok :: "byte list \<Rightarrow> 'b stream \<Rightarrow> pending_segment \<Rightarrow> bool" where
  "entry_ok c s p \<longleftrightarrow>
     pe_slot p < length (ss_buffers s) \<and> \<not> ss_free s ! pe_slot p \<and>
     (pe_done p \<longrightarrow>
        pe_bytes p = min (unat (segment_step s (pe_offset p))) (length c - unat (pe_offset p)) \<and>
        take (pe_bytes p) (sp_bytes (ss_buffers s ! pe_slot p)) =
          window (unat (pe_offset p)) (pe_bytes p) c)"

text \<open>
  The static part. A slot is free or taken by an entry, or it has leaked; what matters is that one is
  free when nothing is pending.
\<close>

definition buffers_ok :: "'b stream \<Rightarrow> bool" where
  "buffers_ok s \<longleftrightarrow>
     length (ss_buffers s) = unat (ss_read_depth s) \<and> length (ss_free s) = length (ss_buffers s) \<and>
     (\<forall>m \<in> set (ss_buffers s). unat (ss_segment s) \<le> span_size m) \<and>
     ss_block s \<noteq> 0 \<and> ss_block s \<le> ss_segment s \<and> ss_segment s \<le> segment_limit (ss_options s)"

definition stream_static :: "'b stream \<Rightarrow> bool" where
  "stream_static s \<longleftrightarrow>
     ss_read_depth s \<noteq> 0 \<and> ss_carry_size s \<le> length (ss_carry s) \<and>
     (\<forall>i \<in> set (ss_order s). i < length (ss_shards s) \<and>
        unat (sh_offset (ss_shards s ! i)) + unat (sh_length (ss_shards s ! i)) < 2 ^ 64) \<and>
     (ss_buffers s = [] \<or> buffers_ok s \<and> (ss_pending s = [] \<longrightarrow> True \<in> set (ss_free s)))"

definition pipeline_ok :: "byte list \<Rightarrow> 'b stream \<Rightarrow> bool" where
  "pipeline_ok c s \<longleftrightarrow>
     buffers_ok s \<and> chained s (stream_pos s) (ss_pending s) (ss_next_offset s) \<and>
     distinct (map pe_slot (ss_pending s)) \<and> (\<forall>p \<in> set (ss_pending s). entry_ok c s p)"

definition open_inv ::
  "'w view \<Rightarrow> ('b \<Rightarrow> read_request list) \<Rightarrow> (int \<Rightarrow> byte list \<Rightarrow> 'b \<Rightarrow> span list \<Rightarrow> 'w \<Rightarrow> bool) \<Rightarrow>
     byte list \<Rightarrow> 'b stream \<Rightarrow> 'w \<Rightarrow> bool" where
  "open_inv V pend binv c s w \<longleftrightarrow>
     ss_open s \<and> ss_next s < length (ss_order s) \<and>
     v_files V (sh_path (current_shard s)) = Some c \<and>
     0 \<le> file_fd (ss_file s) \<and> v_fds V w (file_fd (ss_file s)) = Some c \<and> pipeline_ok c s \<and>
     (\<exists>b. ss_backend s = Some b \<and> binv (file_fd (ss_file s)) c b (ss_buffers s) w \<and>
        mset (pend b) = mset (map (request_of s) (in_flight s)))"

definition stream_inv ::
  "'w view \<Rightarrow> ('w \<Rightarrow> bool) \<Rightarrow> ('b \<Rightarrow> read_request list) \<Rightarrow>
     (int \<Rightarrow> byte list \<Rightarrow> 'b \<Rightarrow> span list \<Rightarrow> 'w \<Rightarrow> bool) \<Rightarrow> 'b stream \<Rightarrow> 'w \<Rightarrow> bool" where
  "stream_inv V ok pend binv s w \<longleftrightarrow>
     ok w \<and> stream_static s \<and>
     (if ss_open s then \<exists>c. open_inv V pend binv c s w
      else ss_pending s = [] \<and> ss_backend s = None \<and> \<not> is_open (ss_file s))"

section \<open>Segments\<close>

lemma block_size_bounds:
  assumes law: "files_law K V" and blk: "block_law K V n" and good: "v_good V w"
    and call: "block_size K path w = (Inr b, w')"
  shows "b \<noteq> 0 \<and> b \<le> n"
proof -
  note laws = files_lawD [OF law]
  have fit: "word_of_int l \<noteq> (0 :: u64) \<and> word_of_int l \<le> n" if "0 < l" "l \<le> uint n" for l
    using that by (rule positive_size_fits)
  obtain r1 w1 where o: "sys_open K path [O_RDONLY, O_CLOEXEC] w = (r1, w1)"
    by (cases "sys_open K path [O_RDONLY, O_CLOEXEC] w")
  then obtain fd where r1: "r1 = Ret fd" using call by (cases r1) (auto simp: block_size_def)
  have "O_RDWR \<notin> set [O_RDONLY, O_CLOEXEC]" by simp
  from open_lawD [OF laws(1) good this o] r1 have g1: "v_good V w1" by (auto simp: quiet_def)
  obtain r2 w2 where b: "sys_blksszget K fd w1 = (r2, w2)" by (cases "sys_blksszget K fd w1")
  let ?w3 = "sys_close K fd w2"
  have "v_good V w2" by (rule quiet_good [OF blksszget_quiet [OF laws(3) g1 b]])
  then have g3: "v_good V ?w3" using close_lawD [OF laws(2)] by blast
  obtain r4 w4 where s: "sys_statfs K path ?w3 = (r4, w4)" by (cases "sys_statfs K path ?w3")
  have st: "l > 0 \<and> l \<le> uint n" if "r4 = Ret l" for l
    using blk g3 s that unfolding block_law_def by blast
  have io: "l \<le> uint n" if "r2 = Ret l" for l
    using blk g1 b that unfolding block_law_def by blast
  have "(\<exists>l. r2 = Ret l \<and> l > 0 \<and> b = word_of_int l) \<or> (\<exists>l. r4 = Ret l \<and> b = word_of_int l)"
    using call o r1 b s by (auto simp: block_size_def Let_def split: sysret.splits if_splits)
  then show ?thesis using fit st io by metis
qed

lemma file_open_block:
  assumes law: "files_law K V" and blk: "block_law K V n" and good: "v_good V w"
    and call: "file_open K path DirectRead w = (Inr f, w')"
  shows "file_alignment f \<noteq> 0 \<and> file_alignment f \<le> n"
proof -
  obtain r1 w1 where o: "sys_open K path (open_flags DirectRead) w = (r1, w1)"
    by (cases "sys_open K path (open_flags DirectRead) w")
  then obtain fd where r1: "r1 = Ret fd" using call by (cases r1) (auto simp: file_open_def)
  have "O_RDWR \<notin> set (open_flags DirectRead)" by (simp add: open_flags_def)
  from open_lawD [OF files_lawD(1) [OF law] good this o] r1 have g1: "v_good V w1"
    by (auto simp: quiet_def)
  obtain b w2 where "block_size K path w1 = (Inr b, w2)" "file_alignment f = b"
    using call o r1 by (auto simp: file_open_def split: prod.splits sum.splits)
  with block_size_bounds [OF law blk g1] show ?thesis by blast
qed

text \<open>The segment is whole blocks, and at least one.\<close>

lemma segment_holds_block:
  assumes "segments_hold options n" and "block \<noteq> 0" and "block \<le> n"
  shows "block \<le> segment_target options block - segment_target options block mod block"
proof -
  let ?t = "segment_target options block"
  have "block \<le> ?t"
    using assms by (auto simp: segments_hold_def segment_target_def intro: order_trans)
  then have "unat block \<le> unat ?t" by (simp add: u64_le_nat)
  moreover have "0 < unat block" using assms(2) by (simp add: unat_gt_0)
  ultimately have "unat block \<le> unat block * (unat ?t div unat block)"
    by (simp add: div_greater_zero_iff Suc_le_eq)
  also have "\<dots> = unat ?t - unat ?t mod unat block" by (rule minus_mod_eq_mult_div [symmetric])
  finally show ?thesis by (simp add: u64_le_nat unat_minus_mod_u64)
qed

lemma segment_below_limit:
  "segment_target options block - segment_target options block mod block \<le> segment_limit options"
proof -
  have "segment_target options block \<le> segment_limit options"
    by (simp add: segment_target_def segment_limit_def)
  moreover have "x - x mod block \<le> x" for x :: u64 by (simp add: u64_le_nat u64_nat)
  ultimately show ?thesis by (rule order_trans [rotated])
qed

lemma read_length_bounds:
  assumes "block \<noteq> 0" and "block \<le> segment"
  shows "0 < unat (read_length block segment remaining)"
    and "unat (read_length block segment remaining) \<le> unat segment"
proof -
  have "unat (x - x mod block) \<le> unat x" for x :: u64 by (simp add: u64_nat)
  moreover have "unat block \<le> unat segment" using assms(2) by (simp add: u64_le_nat)
  moreover have "0 < unat block" using assms(1) by (simp add: unat_gt_0)
  ultimately show "0 < unat (read_length block segment remaining)"
    "unat (read_length block segment remaining) \<le> unat segment"
    by (auto simp: read_length_def Let_def unat_gt_0 u64_less_nat not_less
        intro: order_trans [of _ "unat remaining"])
qed

lemma segment_step_bounds:
  assumes "buffers_ok s" and "off < ss_window_end s"
  shows "0 < unat (segment_step s off)"
    and "unat off + unat (segment_step s off) \<le> unat (ss_window_end s)"
    and "unat (off + segment_step s off) = unat off + unat (segment_step s off)"
proof -
  from assms(1) have "ss_block s \<noteq> 0" "ss_block s \<le> ss_segment s" by (simp_all add: buffers_ok_def)
  from read_length_bounds(1) [OF this]
  have len: "0 < unat (read_length (ss_block s) (ss_segment s) (ss_window_end s - off))" .
  have off: "unat off < unat (ss_window_end s)" using assms(2) by (simp add: u64_less_nat)
  have rem: "unat (ss_window_end s - off) = unat (ss_window_end s) - unat off"
    using assms(2) by (simp add: u64_nat)
  show "0 < unat (segment_step s off)"
    using len rem off by (simp add: segment_step_def unat_min_u64)
  show le: "unat off + unat (segment_step s off) \<le> unat (ss_window_end s)"
    using rem off by (simp add: segment_step_def unat_min_u64)
  then show "unat (off + segment_step s off) = unat off + unat (segment_step s off)"
    using unat_u64_less [of "ss_window_end s"] by (intro unat_plus_u64) linarith
qed

text \<open>The front entry holds the next bytes of the window.\<close>

lemma entry_window:
  assumes "buffers_ok s" and "off < ss_window_end s"
    and "n = min (unat (segment_step s off)) (length c - unat off)"
  shows "window (unat off) (unat (ss_window_end s) - unat off) c =
    window (unat off) n c @ window (unat (off + segment_step s off))
      (unat (ss_window_end s) - unat (off + segment_step s off)) c"
proof -
  note b = segment_step_bounds [OF assms(1,2)]
  let ?k = "unat (segment_step s off)"
  have "window (unat off) ?k c = window (unat off) n c"
    using assms(3) by (simp add: window_def min_def)
  then show ?thesis
    using window_split [of ?k "unat (ss_window_end s) - unat off" "unat off" c] b
    by (simp add: diff_diff_eq)
qed

section \<open>Slots, buffers and the carry\<close>

lemma take_free_None: "take_free fs = None \<longleftrightarrow> True \<notin> set fs"
  by (induction fs rule: take_free.induct) (auto split: option.splits)

lemma alloc_buffers_correct:
  assumes law: "files_law K V"
  shows "v_good V w \<Longrightarrow> alloc_buffers K n segment block w = (r, w') \<Longrightarrow>
    quiet V w w' \<and>
    (\<forall>bs. r = Inr bs \<longrightarrow> length bs = n \<and> (\<forall>m \<in> set bs. unat segment \<le> span_size m))"
proof (induction n arbitrary: w r w')
  case (Suc n)
  obtain a w1 where a: "fp_alloc K segment block w = (a, w1)" by (cases "fp_alloc K segment block w")
  from alloc_lawD [OF files_lawD(6) [OF law] Suc.prems(1) a]
  have q: "quiet V w w1" and sz: "\<And>s. a = Inr s \<Longrightarrow> unat segment \<le> span_size s" by auto
  show ?case
  proof (cases a)
    case (Inl e)
    with Suc.prems(2) a q show ?thesis by auto
  next
    case (Inr m)
    obtain r2 w2 where r2: "alloc_buffers K n segment block w1 = (r2, w2)"
      by (cases "alloc_buffers K n segment block w1")
    from Suc.IH [OF quiet_good [OF q] r2] Suc.prems(2) a Inr r2 sz q show ?thesis
      by (cases r2) (auto intro: quiet_trans)
  qed
qed auto

lemma flush_carry_correct:
  assumes "ss_carry_size s \<le> length (ss_carry s)"
  shows "\<exists>n carry. flush_carry out s = (n, overwrite 0 (take n (ss_carry s)) out,
      s\<lparr>ss_carry := carry, ss_carry_size := ss_carry_size s - n\<rparr>) \<and>
    n = min (ss_carry_size s) (length out) \<and> ss_carry_size s - n \<le> length carry \<and>
    take (ss_carry_size s - n) carry = drop n (take (ss_carry_size s) (ss_carry s))"
proof (cases "ss_carry_size s = 0")
  case True
  then have "s\<lparr>ss_carry := ss_carry s, ss_carry_size := ss_carry_size s - 0\<rparr> = s" by simp
  with True show ?thesis by (intro exI [of _ 0] exI [of _ "ss_carry s"]) (simp add: flush_carry_def bytes_simps)
next
  case False
  let ?n = "min (ss_carry_size s) (length out)"
  let ?tail = "window ?n (ss_carry_size s - ?n) (ss_carry s)"
  let ?carry = "if ss_carry_size s > ?n then overwrite 0 ?tail (ss_carry s) else ss_carry s"
  have len: "length ?tail = ss_carry_size s - ?n" using assms by (simp add: bytes_simps)
  have "?tail = drop ?n (take (ss_carry_size s) (ss_carry s))" by (simp add: window_def drop_take)
  moreover have "take (length ?tail) (overwrite 0 ?tail (ss_carry s)) = ?tail"
    using take_overwrite [of 0 "ss_carry s" ?tail] by simp
  ultimately have "take (ss_carry_size s - ?n) ?carry = drop ?n (take (ss_carry_size s) (ss_carry s))"
    using len by auto
  moreover have "ss_carry_size s - ?n \<le> length ?carry"
    using assms len by (auto simp: length_overwrite)
  moreover have "flush_carry out s = (?n, overwrite 0 (take ?n (ss_carry s)) out,
      s\<lparr>ss_carry := ?carry, ss_carry_size := ss_carry_size s - ?n\<rparr>)"
    using False by (simp add: flush_carry_def Let_def)
  ultimately show ?thesis by blast
qed

section \<open>The pipeline\<close>

lemma chained_append:
  "chained s off (ps @ [p]) stop \<longleftrightarrow>
   (\<exists>mid. chained s off ps mid \<and> pe_offset p = mid \<and> mid < ss_window_end s \<and>
     stop = mid + segment_step s mid)"
  by (induction ps arbitrary: off) auto

text \<open>What does not depend on the fields that the pipeline updates.\<close>

lemma segment_step_update [simp]:
  "segment_step (s\<lparr>ss_free := x1\<rparr>) off = segment_step s off"
  "segment_step (s\<lparr>ss_pending := x2\<rparr>) off = segment_step s off"
  "segment_step (s\<lparr>ss_next_offset := x3\<rparr>) off = segment_step s off"
  "segment_step (s\<lparr>ss_backend := x4\<rparr>) off = segment_step s off"
  "segment_step (s\<lparr>ss_buffers := x5\<rparr>) off = segment_step s off"
  "segment_step (s\<lparr>ss_carry := x6\<rparr>) off = segment_step s off"
  "segment_step (s\<lparr>ss_carry_size := x7\<rparr>) off = segment_step s off"
  by (simp_all add: segment_step_def)

lemma request_of_update [simp]:
  "request_of (s\<lparr>ss_free := x8\<rparr>) = request_of s"
  "request_of (s\<lparr>ss_pending := x9\<rparr>) = request_of s"
  "request_of (s\<lparr>ss_next_offset := x10\<rparr>) = request_of s"
  "request_of (s\<lparr>ss_backend := x11\<rparr>) = request_of s"
  "request_of (s\<lparr>ss_buffers := x12\<rparr>) = request_of s"
  "request_of (s\<lparr>ss_carry := x13\<rparr>) = request_of s"
  "request_of (s\<lparr>ss_carry_size := x14\<rparr>) = request_of s"
  by (simp_all add: fun_eq_iff request_of_def)

lemma chained_update [simp]:
  "chained (s\<lparr>ss_free := x15\<rparr>) off ps stop = chained s off ps stop"
  "chained (s\<lparr>ss_pending := x16\<rparr>) off ps stop = chained s off ps stop"
  "chained (s\<lparr>ss_next_offset := x17\<rparr>) off ps stop = chained s off ps stop"
  "chained (s\<lparr>ss_backend := x18\<rparr>) off ps stop = chained s off ps stop"
  "chained (s\<lparr>ss_buffers := x19\<rparr>) off ps stop = chained s off ps stop"
  "chained (s\<lparr>ss_carry := x20\<rparr>) off ps stop = chained s off ps stop"
  "chained (s\<lparr>ss_carry_size := x21\<rparr>) off ps stop = chained s off ps stop"
  by (induction ps arbitrary: off) simp_all

lemma stream_pos_update [simp]:
  "stream_pos (s\<lparr>ss_free := x22\<rparr>) = stream_pos s"
  "stream_pos (s\<lparr>ss_backend := x23\<rparr>) = stream_pos s"
  "stream_pos (s\<lparr>ss_buffers := x24\<rparr>) = stream_pos s"
  "stream_pos (s\<lparr>ss_carry := x25\<rparr>) = stream_pos s"
  "stream_pos (s\<lparr>ss_carry_size := x26\<rparr>) = stream_pos s"
  by (simp_all add: stream_pos_def split: list.split)

lemma current_shard_update [simp]:
  "current_shard (s\<lparr>ss_free := x27\<rparr>) = current_shard s"
  "current_shard (s\<lparr>ss_pending := x28\<rparr>) = current_shard s"
  "current_shard (s\<lparr>ss_next_offset := x29\<rparr>) = current_shard s"
  "current_shard (s\<lparr>ss_backend := x30\<rparr>) = current_shard s"
  "current_shard (s\<lparr>ss_buffers := x31\<rparr>) = current_shard s"
  "current_shard (s\<lparr>ss_carry := x32\<rparr>) = current_shard s"
  "current_shard (s\<lparr>ss_carry_size := x33\<rparr>) = current_shard s"
  by (simp_all add: current_shard_def)

lemma later_shards_update [simp]:
  "later_shards (s\<lparr>ss_free := x34\<rparr>) = later_shards s"
  "later_shards (s\<lparr>ss_pending := x35\<rparr>) = later_shards s"
  "later_shards (s\<lparr>ss_next_offset := x36\<rparr>) = later_shards s"
  "later_shards (s\<lparr>ss_backend := x37\<rparr>) = later_shards s"
  "later_shards (s\<lparr>ss_buffers := x38\<rparr>) = later_shards s"
  "later_shards (s\<lparr>ss_carry := x39\<rparr>) = later_shards s"
  "later_shards (s\<lparr>ss_carry_size := x40\<rparr>) = later_shards s"
  by (simp_all add: later_shards_def)

lemma in_flight_update [simp]:
  "in_flight (s\<lparr>ss_free := x41\<rparr>) = in_flight s"
  "in_flight (s\<lparr>ss_next_offset := x42\<rparr>) = in_flight s"
  "in_flight (s\<lparr>ss_backend := x43\<rparr>) = in_flight s"
  "in_flight (s\<lparr>ss_buffers := x44\<rparr>) = in_flight s"
  "in_flight (s\<lparr>ss_carry := x45\<rparr>) = in_flight s"
  "in_flight (s\<lparr>ss_carry_size := x46\<rparr>) = in_flight s"
  by (simp_all add: in_flight_def)

lemma buffers_ok_update [simp]:
  "buffers_ok (s\<lparr>ss_pending := x47\<rparr>) = buffers_ok s"
  "buffers_ok (s\<lparr>ss_next_offset := x48\<rparr>) = buffers_ok s"
  "buffers_ok (s\<lparr>ss_backend := x49\<rparr>) = buffers_ok s"
  "buffers_ok (s\<lparr>ss_carry := x50\<rparr>) = buffers_ok s"
  "buffers_ok (s\<lparr>ss_carry_size := x51\<rparr>) = buffers_ok s"
  by (simp_all add: buffers_ok_def)

lemma entry_ok_update [simp]:
  "entry_ok c (s\<lparr>ss_pending := x1\<rparr>) p = entry_ok c s p"
  "entry_ok c (s\<lparr>ss_next_offset := x2\<rparr>) p = entry_ok c s p"
  "entry_ok c (s\<lparr>ss_backend := x3\<rparr>) p = entry_ok c s p"
  "entry_ok c (s\<lparr>ss_carry := x4\<rparr>) p = entry_ok c s p"
  "entry_ok c (s\<lparr>ss_carry_size := x5\<rparr>) p = entry_ok c s p"
  by (simp_all add: entry_ok_def)

lemma pipeline_ok_update [simp]:
  "pipeline_ok c (s\<lparr>ss_backend := x1\<rparr>) = pipeline_ok c s"
  "pipeline_ok c (s\<lparr>ss_carry := x2\<rparr>) = pipeline_ok c s"
  "pipeline_ok c (s\<lparr>ss_carry_size := x3\<rparr>) = pipeline_ok c s"
  by (simp_all add: pipeline_ok_def)

lemma open_rest_update [simp]:
  "open_rest V (s\<lparr>ss_carry := x1\<rparr>) = open_rest V s"
  "open_rest V (s\<lparr>ss_carry_size := x2\<rparr>) = open_rest V s"
  "open_rest V (s\<lparr>ss_backend := x3\<rparr>) = open_rest V s"
  "open_rest V (s\<lparr>ss_buffers := x4\<rparr>) = open_rest V s"
  by (simp_all add: open_rest_def)

lemma chained_map_offset:
  "map pe_offset ps = map pe_offset qs \<Longrightarrow> chained s off ps stop = chained s off qs stop"
proof (induction ps arbitrary: qs off)
  case (Cons p ps)
  from Cons.prems obtain q qs' where qs: "qs = q # qs'" by (cases qs) simp_all
  then have "pe_offset p = pe_offset q" and tail: "map pe_offset ps = map pe_offset qs'"
    using Cons.prems by simp_all
  then show ?case unfolding qs chained.simps Cons.IH [OF tail] by (simp only:)
qed simp

text \<open>
  The loop that fills the pipeline returns: no read is longer than its buffer. The new entries
  continue the chain, and each has its request. It stops when the window has been requested, the
  depth is reached, or no slot is free. The second counter of its condition counts each new entry
  again, so with \<open>n\<close> new entries the depth was at least \<open>2 * n - 1\<close> more than the entries before.
\<close>

lemma fill_loop_correct:
  "pipeline_ok c s \<Longrightarrow>
   \<exists>new s'. fill_loop s requests = Some (requests @ map (request_of s) new, s') \<and>
     pipeline_ok c s' \<and> list_all (\<lambda>p. \<not> pe_done p) new \<and>
     (\<exists>fs stop. s' = s\<lparr>ss_free := fs, ss_pending := ss_pending s @ new, ss_next_offset := stop\<rparr>) \<and>
     stream_pos s' = stream_pos s \<and> (new = [] \<longrightarrow> s' = s) \<and>
     (ss_window_end s \<le> ss_next_offset s' \<or> True \<notin> set (ss_free s') \<or>
      unat (ss_read_depth s) \<le> length (ss_pending s') + length requests + length new) \<and>
     (new \<noteq> [] \<longrightarrow> length (ss_pending s) + length requests + 2 * length new < unat (ss_read_depth s) + 2)"
proof (induction s requests rule: fill_loop.induct)
  case (1 s requests)
  note ok = 1(2)
  have stopped: ?case
    if run: "fill_loop s requests = Some (requests, s)"
      and why: "ss_window_end s \<le> ss_next_offset s \<or> True \<notin> set (ss_free s) \<or>
        unat (ss_read_depth s) \<le> length (ss_pending s) + length requests"
  proof -
    have "s = s\<lparr>ss_free := ss_free s, ss_pending := ss_pending s @ [], ss_next_offset := ss_next_offset s\<rparr>"
      by simp
    then have "\<exists>fs stop. s = s\<lparr>ss_free := fs, ss_pending := ss_pending s @ [], ss_next_offset := stop\<rparr>"
      by blast
    moreover have "fill_loop s requests = Some (requests @ map (request_of s) [], s)" using run by simp
    moreover have "list_all (\<lambda>p. \<not> pe_done p) []" "[] = [] \<longrightarrow> s = s" by simp_all
    moreover have "ss_window_end s \<le> ss_next_offset s \<or> True \<notin> set (ss_free s) \<or>
        unat (ss_read_depth s) \<le> length (ss_pending s) + length requests + length []" using why by simp
    ultimately show ?case using ok by blast
  qed
  show ?case
  proof (cases "length (ss_pending s) + length requests < unat (ss_read_depth s) \<and>
         ss_next_offset s < ss_window_end s")
    case False
    then have "fill_loop s requests = Some (requests, s)" by (subst fill_loop.simps) (rule if_not_P)
    then show ?thesis by (rule stopped) (use False in auto)
  next
    case True
    note guard = this
    show ?thesis
    proof (cases "take_free (ss_free s)")
      case None
      with guard have "fill_loop s requests = Some (requests, s)" by (simp add: fill_loop.simps [of s])
      then show ?thesis by (rule stopped) (use None take_free_None in auto)
    next
      case (Some sf)
      then obtain slot fs where sf: "take_free (ss_free s) = Some (slot, fs)" by (cases sf) auto
      let ?off = "ss_next_offset s"
      let ?rem = "ss_window_end s - ?off"
      let ?len = "read_length (ss_block s) (ss_segment s) ?rem"
      let ?p = "\<lparr>pe_offset = ?off, pe_slot = slot, pe_bytes = 0, pe_done = False\<rparr>"
      let ?s = "s\<lparr>ss_free := fs, ss_pending := ss_pending s @ [?p], ss_next_offset := ?off + min ?len ?rem\<rparr>"
      note tf = take_free_less [OF sf]
      from ok have bufs: "buffers_ok s" by (simp add: pipeline_ok_def)
      then have blk: "ss_block s \<noteq> 0" and slot: "slot < length (ss_buffers s)"
        and fits: "unat ?len \<le> span_size (ss_buffers s ! slot)"
        using tf read_length_bounds(2) [of "ss_block s" "ss_segment s" ?rem]
        by (auto simp: buffers_ok_def intro: order_trans dest: nth_mem)
      have fresh: "slot \<notin> set (map pe_slot (ss_pending s))"
        using ok tf by (auto simp: pipeline_ok_def entry_ok_def)
      have pos: "stream_pos ?s = stream_pos s"
        by (simp add: stream_pos_def split: list.split)
      have pl: "pipeline_ok c ?s"
        unfolding pipeline_ok_def
      proof (intro conjI ballI)
        show "buffers_ok ?s" using bufs tf by (simp add: buffers_ok_def)
        have "chained s (stream_pos s) (ss_pending s @ [?p]) (?off + segment_step s ?off)"
          using ok guard unfolding chained_append by (simp add: pipeline_ok_def)
        then show "chained ?s (stream_pos ?s) (ss_pending ?s) (ss_next_offset ?s)"
          unfolding pos by (simp add: segment_step_def)
        show "distinct (map pe_slot (ss_pending ?s))" using ok fresh by (simp add: pipeline_ok_def)
        fix q assume "q \<in> set (ss_pending ?s)"
        then consider "q \<in> set (ss_pending s)" | "q = ?p" by auto
        then show "entry_ok c ?s q"
        proof cases
          case 1
          then have "pe_slot q \<noteq> slot" using fresh by auto
          moreover have "entry_ok c s q" using ok 1 by (simp add: pipeline_ok_def)
          ultimately show ?thesis using tf by (auto simp: entry_ok_def)
        next
          case 2
          with tf slot show ?thesis by (simp add: entry_ok_def)
        qed
      qed
      have nb: "\<not> (ss_block s = 0 \<or> length (ss_buffers s) \<le> slot \<or>
          span_size (ss_buffers s ! slot) < unat ?len)"
        using blk slot fits by simp
      have rq: "\<lparr>rq_offset = ?off, rq_buf = slot, rq_len = unat ?len, rq_token = of_nat slot\<rparr> =
          request_of s ?p" by (simp add: request_of_def)
      note IH = 1(1) [OF guard sf refl refl refl refl nb pl, unfolded rq]
      from IH obtain new s' fs' stop where
        rec: "fill_loop ?s (requests @ [request_of s ?p]) =
          Some ((requests @ [request_of s ?p]) @ map (request_of ?s) new, s')"
        and r: "pipeline_ok c s'" "list_all (\<lambda>p. \<not> pe_done p) new"
          "s' = ?s\<lparr>ss_free := fs', ss_pending := ss_pending ?s @ new, ss_next_offset := stop\<rparr>"
          "stream_pos s' = stream_pos ?s"
        and stop: "ss_window_end ?s \<le> ss_next_offset s' \<or> True \<notin> set (ss_free s') \<or>
          unat (ss_read_depth ?s) \<le> length (ss_pending s') + length (requests @ [request_of s ?p]) + length new"
        and cnt: "new \<noteq> [] \<longrightarrow> length (ss_pending ?s) + length (requests @ [request_of s ?p]) +
          2 * length new < unat (ss_read_depth ?s) + 2"
        by blast
      have "fill_loop s requests = Some (requests @ map (request_of s) (?p # new), s')"
        using guard sf nb rec by (simp add: fill_loop.simps [of s] Let_def request_of_def)
      moreover have "\<exists>fs stop. s' = s\<lparr>ss_free := fs, ss_pending := ss_pending s @ ?p # new, ss_next_offset := stop\<rparr>"
        using r(3) by auto
      moreover have "list_all (\<lambda>p. \<not> pe_done p) (?p # new)" using r(2) by simp
      moreover have "stream_pos s' = stream_pos s" using r(4) pos by simp
      moreover have "ss_window_end s \<le> ss_next_offset s' \<or> True \<notin> set (ss_free s') \<or>
          unat (ss_read_depth s) \<le> length (ss_pending s') + length requests + length (?p # new)"
        using stop by simp
      moreover have "length (ss_pending s) + length requests + 2 * length (?p # new) < unat (ss_read_depth s) + 2"
        using cnt guard by (cases new) simp_all
      ultimately show ?thesis using r(1) by blast
    qed
  qed
qed

lemma buffers_ok_frame:
  "buffers_ok s \<Longrightarrow> frame A (ss_buffers s) m \<Longrightarrow> buffers_ok (s\<lparr>ss_backend := b, ss_buffers := m\<rparr>)"
  by (simp add: buffers_ok_def frame_def all_set_conv_all_nth)

text \<open>The backend writes only into buffers of entries that are not done.\<close>

lemma pipeline_ok_frame:
  assumes ok: "pipeline_ok c s" and fr: "frame (pe_slot ` set (in_flight s)) (ss_buffers s) m"
  shows "pipeline_ok c (s\<lparr>ss_backend := b, ss_buffers := m\<rparr>)"
  unfolding pipeline_ok_def
proof (intro conjI ballI)
  let ?s = "s\<lparr>ss_backend := b, ss_buffers := m\<rparr>"
  show "buffers_ok ?s" using ok fr by (auto simp: pipeline_ok_def intro: buffers_ok_frame)
  show "chained ?s (stream_pos ?s) (ss_pending ?s) (ss_next_offset ?s)"
    using ok by (simp add: pipeline_ok_def)
  show "distinct (map pe_slot (ss_pending ?s))" using ok by (simp add: pipeline_ok_def)
  fix p assume "p \<in> set (ss_pending ?s)"
  then have p: "p \<in> set (ss_pending s)" by simp
  with ok have old: "entry_ok c s p" and dist: "distinct (map pe_slot (ss_pending s))"
    by (simp_all add: pipeline_ok_def)
  have "pe_slot p \<notin> pe_slot ` set (in_flight s)" if "pe_done p"
  proof
    assume "pe_slot p \<in> pe_slot ` set (in_flight s)"
    then obtain q where "q \<in> set (ss_pending s)" "\<not> pe_done q" "pe_slot p = pe_slot q"
      by (auto simp: in_flight_def)
    with dist p that show False by (metis distinct_map inj_onD)
  qed
  with old fr show "entry_ok c ?s p"
    by (auto simp: entry_ok_def frame_length frame_same)
qed

lemma in_flight_bufs:
  assumes "mset rs = mset (map (request_of s) (in_flight s))"
  shows "bufs_of rs = pe_slot ` set (in_flight s)"
proof -
  have "set rs = set (map (request_of s) (in_flight s))" by (rule mset_eq_setD [OF assms])
  then show ?thesis by (simp add: bufs_of_def image_image request_of_def)
qed

lemma find_slot_nth:
  assumes "distinct (map pe_slot ps)" and "p \<in> set ps"
    and "\<forall>q \<in> set ps. pe_slot q < 18446744073709551616"
  shows "\<exists>xs ys. ps = xs @ p # ys \<and> find_slot (of_nat (pe_slot p)) ps = Some (length xs)"
  using assms
proof (induction ps)
  case (Cons q ps)
  show ?case
  proof (cases "q = p")
    case True
    then have "q # ps = [] @ p # ps" "find_slot (of_nat (pe_slot p)) (q # ps) = Some (length [])"
      by simp_all
    then show ?thesis by blast
  next
    case False
    with Cons.prems have p: "p \<in> set ps" by simp
    with Cons obtain xs ys where "ps = xs @ p # ys" "find_slot (of_nat (pe_slot p)) ps = Some (length xs)"
      by auto
    moreover have "pe_slot q \<noteq> pe_slot p" using Cons.prems p by auto
    then have "(of_nat (pe_slot q) :: u64) \<noteq> of_nat (pe_slot p)"
      using Cons.prems(3) p of_nat_u64_inj [of "pe_slot q" "pe_slot p"] by simp
    ultimately have "q # ps = (q # xs) @ p # ys"
      "find_slot (of_nat (pe_slot p)) (q # ps) = Some (length (q # xs))" by simp_all
    then show ?thesis by blast
  qed
qed simp

text \<open>A true completion makes its entry a true done entry.\<close>

lemma complete_entry_ok:
  assumes "completes c (ss_buffers s) (request_of s p) cp" and "cp_error cp = 0" and "entry_ok c s p"
  shows "entry_ok c s (complete_entry (ss_window_end s) cp p)"
proof -
  let ?rem = "ss_window_end s - pe_offset p"
  let ?n = "min (cp_bytes cp) (unat ?rem)"
  have cp: "cp_bytes cp = min (rq_len (request_of s p)) (length c - unat (pe_offset p))"
    "take (cp_bytes cp) (sp_bytes (ss_buffers s ! pe_slot p)) = window (unat (pe_offset p)) (cp_bytes cp) c"
    using assms(1,2) by (auto simp: completes_def request_of_def)
  have "?n = min (unat (segment_step s (pe_offset p))) (length c - unat (pe_offset p))"
    using cp(1) by (simp add: segment_step_def request_of_def unat_min_u64 min.commute min.left_commute)
  moreover have "take ?n (sp_bytes (ss_buffers s ! pe_slot p)) = window (unat (pe_offset p)) ?n c"
    using arg_cong [OF cp(2), of "take ?n"] by (simp add: bytes_simps min.commute)
  ultimately show ?thesis
    using assms(3) by (simp add: entry_ok_def complete_entry_def)
qed

lemma rollback_backend: "ss_backend (rollback n s) = ss_backend s"
  by (induction n arbitrary: s) simp_all

lemma rollback_file: "ss_file (rollback n s) = ss_file s"
  by (induction n arbitrary: s) simp_all

lemma chained_start:
  "chained s off ps stop \<Longrightarrow> (case ps of [] \<Rightarrow> stop | p # _ \<Rightarrow> pe_offset p) = off"
  by (cases ps) auto

text \<open>Taking a done entry off the front: its bytes are the next ones, and its slot is free.\<close>

lemma pop_front:
  assumes ok: "pipeline_ok c s" and pend: "ss_pending s = e # rest" and e: "pe_done e"
  defines "s2 \<equiv> s\<lparr>ss_free := release (pe_slot e) (ss_free s), ss_pending := rest\<rparr>"
  shows "pipeline_ok c s2" "in_flight s2 = in_flight s" "True \<in> set (ss_free s2)"
    and "stream_pos s < ss_window_end s" "stream_pos s2 = stream_pos s + segment_step s (stream_pos s)"
    and "pe_bytes e = min (unat (segment_step s (stream_pos s))) (length c - unat (stream_pos s))"
    and "take (pe_bytes e) (sp_bytes (ss_buffers s ! pe_slot e)) =
      window (unat (stream_pos s)) (pe_bytes e) c"
proof -
  from ok pend have bufs: "buffers_ok s" and ch: "chained s (stream_pos s) (e # rest) (ss_next_offset s)"
    and dist: "distinct (map pe_slot (e # rest))" and ent: "\<forall>p \<in> set (e # rest). entry_ok c s p"
    by (simp_all add: pipeline_ok_def)
  from ch have pos: "pe_offset e = stream_pos s" and lt: "stream_pos s < ss_window_end s"
    and tail: "chained s (stream_pos s + segment_step s (stream_pos s)) rest (ss_next_offset s)"
    by simp_all
  have pos2: "stream_pos s2 = stream_pos s + segment_step s (stream_pos s)"
    using chained_start [OF tail] by (cases rest) (simp_all add: s2_def stream_pos_def)
  have slot: "pe_slot e < length (ss_free s)" "length (ss_free s) = length (ss_buffers s)"
    using ent bufs by (auto simp: entry_ok_def buffers_ok_def)
  show "pipeline_ok c s2"
    unfolding pipeline_ok_def
  proof (intro conjI ballI)
    show "buffers_ok s2" using bufs by (simp add: s2_def buffers_ok_def release_def)
    show "chained s2 (stream_pos s2) (ss_pending s2) (ss_next_offset s2)"
      unfolding pos2 using tail by (simp add: s2_def)
    show "distinct (map pe_slot (ss_pending s2))" using dist by (simp add: s2_def)
    fix p assume p: "p \<in> set (ss_pending s2)"
    then have "p \<in> set rest" by (simp add: s2_def)
    then have "entry_ok c s p" "pe_slot p \<in> pe_slot ` set rest" using ent by simp_all
    moreover have "pe_slot e \<notin> pe_slot ` set rest" using dist by simp
    ultimately have "entry_ok c s p" "pe_slot p \<noteq> pe_slot e" by metis+
    then show "entry_ok c s2 p" by (auto simp: s2_def entry_ok_def release_def)
  qed
  show "in_flight s2 = in_flight s" using pend e by (simp add: s2_def in_flight_def)
  show "True \<in> set (ss_free s2)" using slot by (auto simp: s2_def release_def set_update_memI)
  show "stream_pos s < ss_window_end s" by (rule lt)
  show "stream_pos s2 = stream_pos s + segment_step s (stream_pos s)" by (rule pos2)
  have "entry_ok c s e" using ent by simp
  then show "pe_bytes e = min (unat (segment_step s (stream_pos s))) (length c - unat (stream_pos s))"
    "take (pe_bytes e) (sp_bytes (ss_buffers s ! pe_slot e)) = window (unat (stream_pos s)) (pe_bytes e) c"
    using e by (auto simp: entry_ok_def pos)
qed

lemma prepare_buffers_correct:
  assumes law: "files_law K V" and good: "v_good V w" and st: "stream_static s" and idle: "ss_pending s = []"
    and block: "block \<noteq> 0" "block \<le> segment" "segment \<le> segment_limit (ss_options s)"
    and call: "prepare_buffers K block segment s w = (r, s', w')"
  shows "quiet V w w' \<and> ss_file s' = ss_file s \<and> ss_backend s' = ss_backend s \<and>
    (r = Inr () \<longrightarrow> buffers_ok s' \<and> True \<in> set (ss_free s') \<and> ss_buffers s' \<noteq> [] \<and>
       (\<exists>m fs. s' = s\<lparr>ss_buffers := m, ss_free := fs, ss_block := block, ss_segment := segment\<rparr>))"
proof (cases "ss_buffers s \<noteq> [] \<and> ss_block s = block \<and> ss_segment s = segment \<and>
         length (ss_buffers s) = unat (ss_read_depth s)")
  case True
  then have res: "r = Inr ()" "s' = s" "w' = w" using call by (simp_all add: prepare_buffers_def)
  have "s = s\<lparr>ss_buffers := ss_buffers s, ss_free := ss_free s, ss_block := block, ss_segment := segment\<rparr>"
    using True by simp
  then have "\<exists>m fs. s = s\<lparr>ss_buffers := m, ss_free := fs, ss_block := block, ss_segment := segment\<rparr>" by blast
  with res True st idle good show ?thesis by (simp add: stream_static_def)
next
  case False
  obtain a w1 where a: "alloc_buffers K (unat (ss_read_depth s)) segment block w = (a, w1)"
    by (cases "alloc_buffers K (unat (ss_read_depth s)) segment block w")
  from alloc_buffers_correct [OF law good a] have q: "quiet V w w1"
    and bs: "\<And>bs. a = Inr bs \<Longrightarrow> length bs = unat (ss_read_depth s) \<and>
      (\<forall>m \<in> set bs. unat segment \<le> span_size m)" by auto
  have depth: "0 < unat (ss_read_depth s)" using st by (simp add: stream_static_def unat_gt_0)
  show ?thesis
  proof (cases a)
    case (Inl e)
    with call False a q show ?thesis by (auto simp: prepare_buffers_def)
  next
    case (Inr m)
    let ?s = "s\<lparr>ss_buffers := m, ss_free := replicate (unat (ss_read_depth s)) True,
      ss_block := block, ss_segment := segment\<rparr>"
    have res: "r = Inr ()" "s' = ?s" "w' = w1"
      using call False a Inr by (auto simp: prepare_buffers_def)
    have "buffers_ok ?s" using bs [OF Inr] block by (simp add: buffers_ok_def)
    moreover have "m \<noteq> []" using bs [OF Inr] depth by auto
    ultimately show ?thesis using res q depth by auto
  qed
qed

text \<open>The parts of a stream that no operation changes.\<close>

definition same_config :: "'b stream \<Rightarrow> 'b stream \<Rightarrow> bool" where
  "same_config s s' \<longleftrightarrow> ss_shards s' = ss_shards s \<and> ss_order s' = ss_order s \<and>
     ss_options s' = ss_options s \<and> ss_read_depth s' = ss_read_depth s"

lemma same_config_trans: "same_config s s1 \<Longrightarrow> same_config s1 s2 \<Longrightarrow> same_config s s2"
  by (simp add: same_config_def)

text \<open>The descriptors: the stream's own beside those of the rest of the program.\<close>

definition owns_file :: "'w view \<Rightarrow> (int \<Rightarrow> byte list option) \<Rightarrow> 'b stream \<Rightarrow> 'w \<Rightarrow> bool" where
  "owns_file V D s w \<longleftrightarrow>
     (if is_open (ss_file s)
      then D (file_fd (ss_file s)) = None \<and> (\<exists>c. v_fds V w = D(file_fd (ss_file s) \<mapsto> c))
      else v_fds V w = D)"

text \<open>What is left to do, for the termination of the loop of \<open>read\<close>.\<close>

definition stream_left :: "'b stream \<Rightarrow> nat" where
  "stream_left s = (length (ss_order s) - ss_next s) * (2 ^ 64 + 1) +
     (if ss_open s then unat (ss_window_end s) - unat (stream_pos s) else 2 ^ 64)"

end
