(* ===== verification/Pipeline.thy ===== *)
theory Pipeline
  imports ShardStream
begin

text \<open>
  How many segment reads of a \<open>ShardStream\<close> are in flight. The condition of the loop in
  \<open>fill_pipeline\<close> adds the entries that are pending and the requests that the loop has collected, and
  each new request is in both, so a new request counts twice.
\<close>

lemma fill_loop_count:
  "fill_loop s requests = Some (rs, s') \<Longrightarrow> ss_read_depth s' = ss_read_depth s \<and>
     (\<exists>k. length (ss_pending s') = length (ss_pending s) + k \<and> length rs = length requests + k \<and>
       (0 < k \<longrightarrow> length (ss_pending s) + length requests + 2 * k < unat (ss_read_depth s) + 2))"
proof (induction s requests rule: fill_loop.induct)
  case (1 s requests)
  show ?case
  proof (cases "length (ss_pending s) + length requests < unat (ss_read_depth s) \<and>
         ss_next_offset s < ss_window_end s")
    case False
    then have "fill_loop s requests = Some (requests, s)" by (subst fill_loop.simps) (rule if_not_P)
    with 1(2) show ?thesis by auto
  next
    case True
    show ?thesis
    proof (cases "take_free (ss_free s)")
      case None
      with True 1(2) show ?thesis by (simp add: fill_loop.simps [of s])
    next
      case (Some sf)
      then obtain slot fs where sf: "take_free (ss_free s) = Some (slot, fs)" by (cases sf) auto
      let ?off = "ss_next_offset s"
      let ?rem = "ss_window_end s - ?off"
      let ?len = "read_length (ss_block s) (ss_segment s) ?rem"
      show ?thesis
      proof (cases "ss_block s = 0 \<or> slot \<ge> length (ss_buffers s) \<or>
                   unat ?len > span_size (ss_buffers s ! slot)")
        case bad: True
        have "fill_loop s requests = None"
          by (subst fill_loop.simps) (simp only: True sf bad if_True option.case prod.case Let_def simp_thms)
        with 1(2) show ?thesis by simp
      next
        case ok: False
        from 1(2) True sf ok obtain s1 r1 where
          rec: "fill_loop s1 r1 = Some (rs, s')" "length (ss_pending s1) = Suc (length (ss_pending s))"
            "length r1 = Suc (length requests)" "ss_read_depth s1 = ss_read_depth s"
          and IH: "fill_loop s1 r1 = Some (rs, s') \<Longrightarrow> ss_read_depth s' = ss_read_depth s1 \<and>
            (\<exists>k. length (ss_pending s') = length (ss_pending s1) + k \<and> length rs = length r1 + k \<and>
              (0 < k \<longrightarrow> length (ss_pending s1) + length r1 + 2 * k < unat (ss_read_depth s1) + 2))"
          using 1(1) [OF True sf refl refl refl refl ok]
          by (simp add: fill_loop.simps [of s] Let_def)
        from IH [OF rec(1)] obtain k where
          "length (ss_pending s') = length (ss_pending s1) + k" "length rs = length r1 + k"
          "0 < k \<longrightarrow> length (ss_pending s1) + length r1 + 2 * k < unat (ss_read_depth s1) + 2"
          "ss_read_depth s' = ss_read_depth s1" by blast
        with rec True show ?thesis by (intro conjI exI [of _ "Suc k"]) auto
      qed
    qed
  qed
qed

lemma rollback_length:
  "length (ss_pending (rollback n s)) = length (ss_pending s) - n \<and>
   ss_read_depth (rollback n s) = ss_read_depth s"
  by (induction n arbitrary: s) auto

text \<open>
  Between the turns of the loop of \<open>read\<close>, at least two of the depth \<open>d\<close> are unused; with a depth of one, nothing is pending.
\<close>

definition below_depth :: "nat \<Rightarrow> 'b stream \<Rightarrow> bool" where
  "below_depth d s \<longleftrightarrow> unat (ss_read_depth s) = d \<and> length (ss_pending s) + 2 \<le> max 2 d"

lemma fill_pipeline_below:
  assumes "below_depth d s" and "fill_pipeline B s w = Some (r, s', w')"
  shows "unat (ss_read_depth s') = d \<and> length (ss_pending s') < max 2 d"
proof -
  obtain rs s1 where f: "fill_loop s [] = Some (rs, s1)"
    using assms(2) by (auto simp: fill_pipeline_def elim: bind_eq_SomeE)
  from fill_loop_count [OF f] obtain k where
    k: "length (ss_pending s1) = length (ss_pending s) + k" "length rs = k"
      "0 < k \<longrightarrow> length (ss_pending s) + 2 * k < unat (ss_read_depth s) + 2"
      "ss_read_depth s1 = ss_read_depth s" by auto
  have lt: "length (ss_pending s1) < max 2 d"
    using k assms(1) by (cases "k = 0") (auto simp: below_depth_def max_def split: if_splits)
  show ?thesis
  proof (cases "rs = []")
    case True
    with assms f k lt show ?thesis by (simp add: fill_pipeline_def below_depth_def)
  next
    case False
    with assms(2) f obtain b x b' m' where
      b: "ss_backend s1 = Some b" "bk_submit B rs b (ss_buffers s1) w = Some (x, b', m', w')"
        "s' = s1\<lparr>ss_backend := Some b', ss_buffers := m'\<rparr> \<or>
         s' = (rollback (length rs) (s1\<lparr>ss_backend := Some b', ss_buffers := m'\<rparr>))
                \<lparr>ss_next_offset := ss_next_offset s\<rparr>"
      by (auto simp: fill_pipeline_def Let_def elim!: bind_eq_SomeE split: option.splits sum.splits)
    with k lt assms(1) show ?thesis by (auto simp: below_depth_def rollback_length)
  qed
qed

lemma await_front_length:
  assumes "await_front B s w = Some (r, s', w')"
  shows "length (ss_pending s') = length (ss_pending s) \<and> ss_read_depth s' = ss_read_depth s"
proof -
  let ?Q = "\<lambda>B s w y. length (ss_pending (fst (snd y))) = length (ss_pending s) \<and>
    ss_read_depth (fst (snd y)) = ss_read_depth s"
  have "?Q B s w (r, s', w')"
  proof (rule await_front.raw_induct [where P = ?Q, OF _ assms])
    fix f B s w y
    assume IH: "\<And>B s w y. f B s w = Some y \<Longrightarrow> ?Q B s w y"
      and eq: "(if ss_pending s = [] then None
      else if pe_done (hd (ss_pending s)) then Some (Inr (), s, w)
      else (case ss_backend s of
          None \<Rightarrow> None
        | Some b \<Rightarrow> do {
            (got, b', m', w') \<leftarrow> bk_reap B 1 1 b (ss_buffers s) w;
            let s1 = s\<lparr>ss_backend := Some b', ss_buffers := m'\<rparr>;
            (case got of
               Inl e \<Rightarrow> Some (Inl e, s1, w')
             | Inr [] \<Rightarrow> Some (Inl (BatchError ReapedNothing), s1, w')
             | Inr (cp # _) \<Rightarrow>
                 (case find_slot (cp_token cp) (ss_pending s1) of
                    None \<Rightarrow> Some (Inl (BatchError UnknownCompletion), s1, w')
                  | Some i \<Rightarrow>
                      if cp_error cp \<noteq> 0 then Some (Inl (BatchError (ReadErrno (cp_error cp))), s1, w')
                      else f B (s1\<lparr>ss_pending := (ss_pending s1)
                             [i := complete_entry (ss_window_end s1) cp (ss_pending s1 ! i)]\<rparr>) w'))
          })) = Some y"
    from eq show "?Q B s w y"
      by (auto simp: Let_def elim!: bind_eq_SomeE dest!: IH split: if_splits option.splits sum.splits list.splits)
  qed
  then show ?thesis by simp
qed

lemma close_shard_below:
  assumes "close_shard K B s w = Some (s', w')" and "unat (ss_read_depth s) = d"
  shows "below_depth d s'"
  using assms by (auto simp: close_shard_def below_depth_def elim!: bind_eq_SomeE split: prod.splits)

lemma prepare_buffers_below:
  "prepare_buffers K block segment s w = (r, s', w') \<Longrightarrow>
     ss_pending s' = ss_pending s \<and> ss_read_depth s' = ss_read_depth s"
  by (auto simp: prepare_buffers_def split: if_splits prod.splits sum.splits)

lemma open_shard_below:
  assumes "open_shard K B s w = Some (r, s', w')"
  shows "below_depth d s' = below_depth d s"
  using assms
  by (auto simp: open_shard_def below_depth_def Let_def dest!: prepare_buffers_below elim!: bind_eq_SomeE
      split: if_splits prod.splits sum.splits)

lemma consume_front_below:
  assumes "consume_front K B filled out s w = Some (p, f', o', s', w')"
    and "unat (ss_read_depth s) = d" and "length (ss_pending s) < max 2 d"
  shows "below_depth d s'"
proof -
  from assms(1) obtain entry rest where ps: "ss_pending s = entry # rest"
    by (auto simp: consume_front_def split: list.splits)
  show ?thesis
    using assms ps
    by (auto simp: consume_front_def Let_def below_depth_def elim!: bind_eq_SomeE
        dest!: close_shard_below [where d = d] split: if_splits)
qed

lemma read_open_below:
  assumes "read_open K B filled out s w = Some (p, f', o', s', w')" and "below_depth d s"
    and "p = Continue \<or> p = Break"
  shows "below_depth d s'"
proof -
  obtain r s1 w1 where f: "fill_pipeline B s w = Some (r, s1, w1)"
    using assms(1) by (cases "fill_pipeline B s w") (auto simp: read_open_def)
  note b = fill_pipeline_below [OF assms(2) f]
  from assms(1,3) f have r: "r = Inr ()" by (auto simp: read_open_def split: sum.splits)
  show ?thesis
  proof (cases "ss_pending s1 = []")
    case True
    with assms(1) f r obtain w2 where "close_shard K B s1 w1 = Some (s', w2)"
      by (auto simp: read_open_def elim!: bind_eq_SomeE)
    then show ?thesis using b by (blast intro: close_shard_below)
  next
    case False
    with assms(1) f r obtain r2 s2 w2 where aw: "await_front B s1 w1 = Some (r2, s2, w2)"
      by (cases "await_front B s1 w1") (auto simp: read_open_def)
    with assms(1,3) f r False have "consume_front K B filled out s2 w2 = Some (p, f', o', s', w')"
      by (auto simp: read_open_def split: sum.splits)
    moreover have "unat (ss_read_depth s2) = d" "length (ss_pending s2) < max 2 d"
      using await_front_length [OF aw] b by simp_all
    ultimately show ?thesis by (rule consume_front_below)
  qed
qed

lemma read_step_below:
  assumes "read_step K B filled out s w = Some (p, f', o', s', w')" and "below_depth d s"
    and "p = Continue \<or> p = Break"
  shows "below_depth d s'"
proof (cases "ss_open s \<or> length (ss_order s) \<le> ss_next s")
  case True
  with assms show ?thesis by (auto simp: read_step_def intro: read_open_below split: if_splits)
next
  case False
  with assms(1) obtain r s1 w1 where o: "open_shard K B s w = Some (r, s1, w1)"
    by (cases "open_shard K B s w") (auto simp: read_step_def)
  with False assms(1,3) have "read_open K B filled out s1 w1 = Some (p, f', o', s', w')"
    by (auto simp: read_step_def split: sum.splits)
  moreover have "below_depth d s1" using open_shard_below [OF o] assms(2) by simp
  ultimately show ?thesis using assms(3) by (rule read_open_below)
qed

lemma read_step_below_continue:
  "read_step K B filled out s w = Some (Continue, f', o', s', w') \<Longrightarrow> below_depth d s \<Longrightarrow> below_depth d s'"
  by (erule read_step_below) simp_all

lemma read_step_below_break:
  "read_step K B filled out s w = Some (Break, f', o', s', w') \<Longrightarrow> below_depth d s \<Longrightarrow> below_depth d s'"
  by (erule read_step_below) simp_all

lemma read_loop_below:
  assumes "read_loop K B filled out s w = Some (r, out', s', w')" and "below_depth d s" and "r = Inr n"
  shows "below_depth d s'"
proof -
  let ?Q = "\<lambda>K B filled out s w y. below_depth d s \<longrightarrow> (\<exists>n. fst y = Inr n) \<longrightarrow>
    below_depth d (fst (snd (snd y)))"
  have "?Q K B filled out s w (r, out', s', w')"
  proof (rule read_loop.raw_induct [where P = ?Q, OF _ assms(1)])
    fix f K B filled out s w y
    assume IH: "\<And>K B filled out s w y. f K B filled out s w = Some y \<Longrightarrow> ?Q K B filled out s w y"
      and eq: "(if filled < length out then do {
        (p, filled', out', s', w') \<leftarrow> read_step K B filled out s w;
        (case p of
           Continue \<Rightarrow> f K B filled' out' s' w'
         | Break \<Rightarrow> Some (Inr filled', out', s', w')
         | Fail e \<Rightarrow> Some (Inl e, out', s', w'))
      }
      else Some (Inr filled, out, s, w)) = Some y"
    show "?Q K B filled out s w y"
    proof (cases "filled < length out")
      case False
      with eq show ?thesis by auto
    next
      case True
      with eq obtain p f1 o1 s1 w1 where step: "read_step K B filled out s w = Some (p, f1, o1, s1, w1)"
        and rest: "(case p of Continue \<Rightarrow> f K B f1 o1 s1 w1 | Break \<Rightarrow> Some (Inr f1, o1, s1, w1)
          | Fail e \<Rightarrow> Some (Inl e, o1, s1, w1)) = Some y"
        by (auto elim!: bind_eq_SomeE)
      show ?thesis
        using rest step IH [of K B f1 o1 s1 w1 y]
        by (cases p) (auto dest: read_step_below_continue read_step_below_break)
    qed
  qed
  with assms(2,3) show ?thesis by simp
qed

section \<open>Property\<close>

text \<open>
  Property C21 (the pipeline is never full). After any fill, at most one less than the read depth segment reads are in
  flight, and one with a depth of one: so with a depth of two, too, there is never more than one. This holds from
  a state in which two of the depth are unused (nothing pending, with a depth below two), which the state after
  construction is, and a read that succeeds ends in such a state again.
\<close>

theorem pipeline_never_full:
  fixes s :: "'b stream"
  assumes "length (ss_pending s) + 2 \<le> max 2 (unat (ss_read_depth s))"
  shows "(\<forall>r s' w'. fill_pipeline B s w = Some (r, s', w') \<longrightarrow>
           length (ss_pending s') \<le> max 1 (unat (ss_read_depth s) - 1)) \<and>
    (\<forall>n out' s' w'. stream_read K B out s w = Some (Inr n, out', s', w') \<longrightarrow>
       ss_read_depth s' = ss_read_depth s \<and>
       length (ss_pending s') + 2 \<le> max 2 (unat (ss_read_depth s))) \<and>
    (let s0 = stream_init shards order options :: 'b stream in
       length (ss_pending s0) + 2 \<le> max 2 (unat (ss_read_depth s0)))"
proof (intro conjI allI impI)
  let ?d = "unat (ss_read_depth s)"
  have below: "below_depth ?d s" using assms by (simp add: below_depth_def)
  fix r s' w' assume "fill_pipeline B s w = Some (r, s', w')"
  from fill_pipeline_below [OF below this] show "length (ss_pending s') \<le> max 1 (?d - 1)" by (auto simp: max_def split: if_splits)
next
  let ?d = "unat (ss_read_depth s)"
  fix n out' s' w' assume run: "stream_read K B out s w = Some (Inr n, out', s', w')"
  obtain k o1 s1 where fl: "flush_carry out s = (k, o1, s1)" by (cases "flush_carry out s")
  then have "below_depth ?d s1"
    using assms by (auto simp: flush_carry_def Let_def below_depth_def split: if_splits)
  from read_loop_below [OF _ this refl] run fl have "below_depth ?d s'"
    by (simp add: stream_read_def)
  then show "ss_read_depth s' = ss_read_depth s" "length (ss_pending s') + 2 \<le> max 2 ?d"
    by (simp_all add: below_depth_def word_unat_eq_iff)
qed (simp add: stream_init_def)

text \<open>The witness: the state after the first read of a stream with depth three.\<close>

theorem pipeline_never_full_witness:
  "\<exists>out s w. stream_read memfs_sys (thread_ops memfs_sys) [0, 0]
       (stream_init [\<lparr>sh_path = ''a'', sh_offset = 0, sh_length = 6\<rparr>] [0]
         \<lparr>batch_bytes = 2, prefetch = 1, read_depth = 3, segment_bytes = 2, seed = 0\<rparr>)
       (memfs_world [(''a'', [1, 2, 3, 4, 5, 6])] 2) = Some (Inr 2, out, s, w) \<and>
     out = [1, 2] \<and> length (ss_pending s) + 2 \<le> 3"
proof -
  let ?s = "stream_init [\<lparr>sh_path = ''a'', sh_offset = 0, sh_length = 6\<rparr>] [0]
         \<lparr>batch_bytes = 2, prefetch = 1, read_depth = 3, segment_bytes = 2, seed = 0\<rparr> ::
         thread_backend stream"
  let ?w = "memfs_world [(''a'', [1, 2, 3, 4, 5, 6])] 2"
  let ?run = "stream_read memfs_sys (thread_ops memfs_sys) [0, 0] ?s ?w"
  have "map_option (\<lambda>(r, out, s, w). (r, out)) ?run = Some (Inr 2, [1, 2])" by code_simp
  then obtain s w where run: "?run = Some (Inr 2, [1, 2], s, w)" by auto
  have depth: "ss_read_depth ?s = 3" and start: "length (ss_pending ?s) + 2 \<le> max 2 (unat (ss_read_depth ?s))"
    by (simp_all add: stream_init_def max_def word_le_nat_alt)
  from pipeline_never_full [OF start] run depth have "length (ss_pending s) + 2 \<le> 3" by fastforce
  with run show ?thesis by blast
qed

section \<open>Two runs\<close>

text \<open>
  After the first batch of two bytes, a second read is in flight. Destroying the stream now, as
  \<open>for_each_batch\<close> does when the callback stops it, frees the buffer of that read before the backend.
\<close>

lemma early_stop_frees_buffers_in_flight:
  "(case stream_read memfs_sys (thread_ops memfs_sys) [0, 0]
       (stream_init [\<lparr>sh_path = ''a'', sh_offset = 0, sh_length = 6\<rparr>] [0]
         \<lparr>batch_bytes = 2, prefetch = 1, read_depth = 3, segment_bytes = 2, seed = 0\<rparr>)
       (memfs_world [(''a'', [1, 2, 3, 4, 5, 6])] 2) of
     Some (r, out, s, w) \<Rightarrow> r = Inr 2 \<and> stream_destroy memfs_sys (thread_ops memfs_sys) s w = None
   | None \<Rightarrow> False)"
  by code_simp

text \<open>
  A file that is shorter than its window, with a depth of four: when the read at the end of the file
  returns nothing, two reads are pending. Closing the shard forgets them with their slots marked as
  taken, and the next shard, which keeps the buffers, has two slots instead of four.
\<close>

lemma truncated_shard_loses_slots:
  "(case stream_read memfs_sys (thread_ops memfs_sys) [0, 0, 0, 0, 0]
       (stream_init [\<lparr>sh_path = ''a'', sh_offset = 0, sh_length = 64\<rparr>,
                     \<lparr>sh_path = ''b'', sh_offset = 0, sh_length = 3\<rparr>] [0, 1]
         \<lparr>batch_bytes = 5, prefetch = 1, read_depth = 4, segment_bytes = 4, seed = 0\<rparr>)
       (memfs_world [(''a'', [1, 2, 3, 4]), (''b'', [5, 6, 7, 8, 9])] 4) of
     Some (r, out, s, w) \<Rightarrow> r = Inr 5 \<and> out = [1, 2, 3, 4, 5] \<and> ss_pending s = [] \<and>
       ss_free s = [False, True, False, True]
   | None \<Rightarrow> False)"
  by code_simp

text \<open>
  A world whose reads return one byte at a time, as \<open>pread\<close> may: a completion that is shorter than its
  request is taken as it is, and the next segment starts where it always did. The bytes between are
  missing from the batch, without an error.
\<close>

lemma short_completion_skips_bytes:
  "(case stream_read memfs_sys (thread_ops memfs_sys) [0, 0, 0, 0, 0]
       (stream_init [\<lparr>sh_path = ''a'', sh_offset = 0, sh_length = 6\<rparr>] [0]
         \<lparr>batch_bytes = 5, prefetch = 1, read_depth = 4, segment_bytes = 2, seed = 0\<rparr>)
       ((memfs_world [(''a'', [1, 2, 3, 4, 5, 6])] 2)\<lparr>mf_chunk := Some 1\<rparr>) of
     Some (r, out, s, w) \<Rightarrow> r = Inr 3 \<and> out = [1, 3, 5, 0, 0]
   | None \<Rightarrow> False)"
  by code_simp

end
