(* ===== verification/Manifest.thy ===== *)
theory Manifest
  imports Shard "HOL-Library.Multiset" "HOL-Library.Code_Target_Nat"
begin

text \<open>
  What the manifest code of \<open>src/shard.cpp\<close> promises: numbers and lines are read back as they are
  written, a manifest that loads holds valid shards only, a saved set loads again, and a directory is
  listed in the order of its names.
\<close>

section \<open>Numbers\<close>

lemma of_char_digit: "k < 10 \<Longrightarrow> (of_char (char_of (48 + k :: nat)) :: nat) = 48 + k"
  by simp

lemma is_digit_char: "k < 10 \<Longrightarrow> is_digit (char_of (48 + k :: nat))"
  by (simp add: is_digit_def)

lemma decimal_digits: "list_all is_digit (decimal n)"
proof (induction n rule: less_induct)
  case (less n)
  have last: "is_digit (char_of (48 + n mod 10))" by (rule is_digit_char) simp
  show ?case
  proof (cases "n < 10")
    case True
    then show ?thesis using is_digit_char [of n] by (subst decimal.simps) simp
  next
    case False
    then have "decimal n = decimal (n div 10) @ [char_of (48 + n mod 10)]"
      by (subst decimal.simps) simp
    then show ?thesis using less [of "n div 10"] False last by simp
  qed
qed

lemma digits_value_snoc: "digits_value (ds @ [c]) = 10 * digits_value ds + (of_char c - 48)"
  by (simp add: digits_value_def)

lemma digits_value_decimal: "digits_value (decimal n) = n"
proof (induction n rule: less_induct)
  case (less n)
  show ?case
  proof (cases "n < 10")
    case True
    then show ?thesis by (subst decimal.simps) (simp add: digits_value_def)
  next
    case False
    then have "decimal n = decimal (n div 10) @ [char_of (48 + n mod 10)]"
      by (subst decimal.simps) simp
    then have "digits_value (decimal n) = 10 * digits_value (decimal (n div 10)) + n mod 10"
      by (simp add: digits_value_snoc)
    with less [of "n div 10"] False show ?thesis by simp
  qed
qed

lemma decimal_nonempty: "decimal n \<noteq> []"
  by (subst decimal.simps) simp

lemma takeWhile_all: "list_all P xs \<Longrightarrow> takeWhile P xs = xs"
  by (induction xs) auto

lemma dropWhile_all: "dropWhile P xs = [] \<longleftrightarrow> list_all P xs"
  by (induction xs) auto

lemma parse_u64_digits:
  "parse_u64 text = (if text \<noteq> [] \<and> list_all is_digit text \<and> digits_value text < 2 ^ 64
     then Some (of_nat (digits_value text)) else None)"
proof (cases "list_all is_digit text")
  case True
  note all = takeWhile_all [OF True] dropWhile_all [THEN iffD2, OF True]
  show ?thesis
    unfolding parse_u64_def from_chars_def Let_def all using True by (simp add: not_less)
next
  case False
  then have "dropWhile is_digit text \<noteq> []" by (simp only: dropWhile_all not_False_eq_True)
  with False show ?thesis by (auto simp: parse_u64_def from_chars_def Let_def)
qed

lemma parse_decimal: "n < 2 ^ 64 \<Longrightarrow> parse_u64 (decimal n) = Some (of_nat n)"
  by (simp add: parse_u64_digits decimal_nonempty digits_value_decimal decimal_digits)

text \<open>No digit is a tab, a newline, a carriage return or the start of a comment.\<close>

lemma digit_not_special:
  "is_digit c \<Longrightarrow> c \<noteq> tab \<and> c \<noteq> newline \<and> c \<noteq> carriage_return"
  by (auto simp: is_digit_def tab_def newline_def carriage_return_def)

lemma decimal_not_special: "c \<in> set (decimal n) \<Longrightarrow> c \<noteq> tab \<and> c \<noteq> newline \<and> c \<noteq> carriage_return"
  using decimal_digits [of n] digit_not_special by (auto simp: list_all_iff)

section \<open>Lines\<close>

lemma find_char_hit: "c \<notin> set xs \<Longrightarrow> find_char c (xs @ c # ys) = Some (length xs)"
  by (induction xs) auto

lemma find_char_miss: "find_char c xs = None \<longleftrightarrow> c \<notin> set xs"
  by (induction xs) auto

lemma find_char_SomeD:
  "find_char c xs = Some i \<Longrightarrow> \<exists>ys zs. xs = ys @ c # zs \<and> length ys = i \<and> c \<notin> set ys"
proof (induction xs arbitrary: i)
  case (Cons x xs)
  show ?case
  proof (cases "x = c")
    case True
    with Cons.prems have "x # xs = [] @ c # xs \<and> length ([] :: string) = i \<and> c \<notin> set []" by simp
    then show ?thesis by blast
  next
    case False
    with Cons.prems obtain j where j: "find_char c xs = Some j" "i = Suc j" by auto
    from Cons.IH [OF j(1)] obtain ys zs where "xs = ys @ c # zs" "length ys = j" "c \<notin> set ys" by blast
    with j(2) False have "x # xs = (x # ys) @ c # zs \<and> length (x # ys) = i \<and> c \<notin> set (x # ys)" by simp
    then show ?thesis by blast
  qed
qed simp

lemma split_line_fields:
  assumes "tab \<notin> set a" and "tab \<notin> set b" and "tab \<notin> set c"
  shows "split_line (a @ tab # b @ tab # c) = Some (a, b, c)"
proof -
  let ?line = "a @ tab # b @ tab # c"
  have "find_from tab 0 ?line = Some (length a)"
    using find_char_hit [OF assms(1)] by (simp add: find_from_def)
  moreover have "drop (length a + 1) ?line = b @ tab # c" by simp
  then have "find_from tab (length a + 1) ?line = Some (length a + 1 + length b)"
    using find_char_hit [OF assms(2), of c] by (simp add: find_from_def)
  moreover have "drop (length a + 1 + length b + 1) ?line = c" by simp
  then have "find_from tab (length a + 1 + length b + 1) ?line = None"
    using assms(3) by (simp add: find_from_def find_char_miss)
  ultimately show ?thesis by (simp add: split_line_def)
qed

lemma split_line_SomeD:
  assumes "split_line line = Some (a, b, c)"
  shows "line = a @ tab # b @ tab # c \<and> tab \<notin> set a \<and> tab \<notin> set b \<and> tab \<notin> set c"
proof -
  from assms obtain i where i: "find_char tab line = Some i"
    by (auto simp: split_line_def find_from_def split: option.splits)
  from find_char_SomeD [OF i] obtain xs rest where
    line: "line = xs @ tab # rest" "length xs = i" "tab \<notin> set xs" by blast
  have "find_from tab 0 line = Some i" using i by (simp add: find_from_def)
  moreover have "drop (i + 1) line = rest" using line by simp
  ultimately obtain j where j: "find_char tab rest = Some j"
    using assms by (cases "find_char tab rest") (auto simp: split_line_def find_from_def)
  from find_char_SomeD [OF j] obtain ys zs where
    rest: "rest = ys @ tab # zs" "length ys = j" "tab \<notin> set ys" by blast
  have "tab \<notin> set zs"
    using assms line rest find_char_hit [OF line(3), of rest] find_char_hit [OF rest(3), of zs]
    by (auto simp: split_line_def find_from_def find_char_miss split: if_splits)
  with split_line_fields [OF line(3) rest(3) this] assms line rest show ?thesis by simp
qed

lemma getlines_line:
  "newline \<notin> set line \<Longrightarrow> getlines bad acc (line @ newline # rest) = (rev acc @ line) # getlines bad [] rest"
  by (induction line arbitrary: acc) auto

section \<open>What a manifest denotes\<close>

text \<open>A shard that the readers can use: not empty, aligned, and its end does not wrap.\<close>

definition valid_shard :: "u64 \<Rightarrow> shard \<Rightarrow> bool" where
  "valid_shard alignment s \<longleftrightarrow>
     sh_length s \<noteq> 0 \<and> sh_offset s mod alignment = 0 \<and>
     unat (sh_offset s) + unat (sh_length s) < 2 ^ 64"

text \<open>\<open>text\<close> is a decimal number of 64 bits, with any number of leading zeros.\<close>

definition denotes_u64 :: "string \<Rightarrow> u64 \<Rightarrow> bool" where
  "denotes_u64 text x \<longleftrightarrow> text \<noteq> [] \<and> list_all is_digit text \<and> digits_value text = unat x"

text \<open>The path of a manifest's line, seen from the manifest's directory.\<close>

definition resolve_path :: "string \<Rightarrow> string \<Rightarrow> string" where
  "resolve_path directory path =
     (if path_is_relative path \<and> directory \<noteq> [] then path_append directory path else path)"

definition denotes_shard :: "string \<Rightarrow> u64 \<Rightarrow> string \<Rightarrow> shard \<Rightarrow> bool" where
  "denotes_shard directory alignment line s \<longleftrightarrow>
     (\<exists>path offset_text length_text.
        line = path @ tab # offset_text @ tab # length_text \<and>
        tab \<notin> set path \<and> path \<noteq> [] \<and>
        denotes_u64 offset_text (sh_offset s) \<and> denotes_u64 length_text (sh_length s) \<and>
        valid_shard alignment s \<and> sh_path s = resolve_path directory path)"

lemma denotes_u64_parse: "denotes_u64 text x \<longleftrightarrow> parse_u64 text = Some x"
proof -
  have "unat x < 2 ^ 64" using unsigned_less [of x] by simp
  then show ?thesis
    unfolding denotes_u64_def parse_u64_digits
    by (auto simp: unat_of_nat take_bit_nat_eq_self)
qed

lemma denotes_u64_no_tab: "denotes_u64 text x \<Longrightarrow> tab \<notin> set text"
  by (auto simp: denotes_u64_def list_all_iff dest: digit_not_special)

lemma denotes_u64_decimal: "denotes_u64 (decimal (unat x)) x"
  by (simp add: denotes_u64_def decimal_nonempty decimal_digits digits_value_decimal)

lemma mod_sum_less: "a < m \<Longrightarrow> b < m \<Longrightarrow> (a + b) mod m < a \<longleftrightarrow> m \<le> a + (b :: nat)"
  by (cases "a + b < m") (auto simp: mod_if [of "a + b"] not_less)

lemma end_overflows_iff: "x + y < x \<longleftrightarrow> 2 ^ 64 \<le> unat x + unat (y :: u64)"
proof -
  have "unat x < 2 ^ LENGTH(64)" "unat y < 2 ^ LENGTH(64)" by (rule unsigned_less)+
  from mod_sum_less [OF this] show ?thesis
    by (simp only: word_less_nat_alt unat_word_ariths len_num0 len_num1 len_bit0) simp
qed

lemma load_line_denotes:
  assumes "alignment \<noteq> 0"
  shows "load_line manifest directory alignment number line = Some (Inr s) \<longleftrightarrow>
     denotes_shard directory alignment line s" (is "?load \<longleftrightarrow> ?den")
proof
  assume ?load
  then obtain path ot lt where split: "split_line line = Some (path, ot, lt)"
    by (auto simp: load_line_def split: option.splits)
  with \<open>?load\<close> assms have facts: "path \<noteq> []" "parse_u64 ot = Some (sh_offset s)"
      "parse_u64 lt = Some (sh_length s)" "sh_length s \<noteq> 0" "sh_offset s mod alignment = 0"
      "\<not> sh_offset s + sh_length s < sh_offset s" "sh_path s = resolve_path directory path"
    by (auto simp: load_line_def resolve_path_def Let_def split: option.splits if_splits
        del: mod_0_imp_dvd)
  from facts(4-6) have "valid_shard alignment s"
    by (simp only: valid_shard_def end_overflows_iff not_le simp_thms)
  with split_line_SomeD [OF split] facts show ?den
    unfolding denotes_shard_def denotes_u64_parse by (intro exI conjI) simp_all
next
  assume ?den
  then obtain path ot lt where line: "line = path @ tab # ot @ tab # lt" "tab \<notin> set path" "path \<noteq> []"
      and num: "denotes_u64 ot (sh_offset s)" "denotes_u64 lt (sh_length s)"
      and valid: "valid_shard alignment s" and res: "sh_path s = resolve_path directory path"
    unfolding denotes_shard_def by blast
  from split_line_fields [OF line(2) num [THEN denotes_u64_no_tab]] line(1)
  have "split_line line = Some (path, ot, lt)" by simp
  moreover from valid have "\<not> sh_offset s + sh_length s < sh_offset s"
    by (simp only: valid_shard_def end_overflows_iff not_le)
  ultimately show ?load
    using num assms valid res line(3)
    by (simp add: load_line_def denotes_u64_parse valid_shard_def resolve_path_def Let_def)
qed

lemma load_line_returns: "alignment \<noteq> 0 \<Longrightarrow> load_line manifest directory alignment number line \<noteq> None"
  by (auto simp: load_line_def Let_def split: option.splits)

text \<open>The lines that hold shards, without their carriage returns.\<close>

definition shard_lines :: "string list \<Rightarrow> string list" where
  "shard_lines raws = filter (\<lambda>line. \<not> skipped line) (map chomp raws)"

lemma load_lines_denotes:
  assumes "alignment \<noteq> 0"
  shows "load_lines manifest directory alignment number acc raws = Some (Inr result) \<longleftrightarrow>
     (\<exists>shards. result = acc @ shards \<and>
        list_all2 (denotes_shard directory alignment) (shard_lines raws) shards)"
proof (induction raws arbitrary: number acc)
  case Nil
  then show ?case by (auto simp: shard_lines_def)
next
  case (Cons raw raws)
  let ?line = "chomp raw"
  show ?case
  proof (cases "skipped ?line")
    case True
    with Cons show ?thesis by (simp add: shard_lines_def Let_def)
  next
    case False
    then have lines: "shard_lines (raw # raws) = ?line # shard_lines raws" by (simp add: shard_lines_def)
    show ?thesis
    proof (cases "\<exists>s. load_line manifest directory alignment (number + 1) ?line = Some (Inr s)")
      case True
      then obtain s where s: "load_line manifest directory alignment (number + 1) ?line = Some (Inr s)"
        by blast
      have uniq: "denotes_shard directory alignment ?line s' \<longleftrightarrow> s' = s" for s'
        using s load_line_denotes [OF assms] by (metis option.inject sum.inject(2))
      have "load_lines manifest directory alignment number acc (raw # raws) =
          load_lines manifest directory alignment (number + 1) (acc @ [s]) raws"
        using s False by (simp add: Let_def)
      then show ?thesis using Cons.IH [of "number + 1" "acc @ [s]"] uniq
        by (auto simp: lines list_all2_Cons1)
    next
      case noshard: False
      then have "\<not> denotes_shard directory alignment ?line s'" for s'
        using load_line_denotes [OF assms] by blast
      moreover obtain e where "load_line manifest directory alignment (number + 1) ?line = Some (Inl e)"
        using noshard load_line_returns [OF assms, of manifest directory "number + 1" ?line]
        by (metis not_Some_eq obj_sumE)
      ultimately show ?thesis using False by (auto simp: lines list_all2_Cons1 Let_def)
    qed
  qed
qed

lemma load_lines_returns:
  "alignment \<noteq> 0 \<Longrightarrow> load_lines manifest directory alignment number acc raws \<noteq> None"
proof (induction raws arbitrary: number acc)
  case (Cons raw raws)
  with load_line_returns [OF Cons.prems, of manifest directory "number + 1" "chomp raw"]
  show ?case by (auto simp: Let_def split: sum.splits)
qed simp

section \<open>Saving\<close>

text \<open>What \<open>save\<close> writes when it writes everything.\<close>

definition manifest_text :: "'w fs \<Rightarrow> 'w \<Rightarrow> string \<Rightarrow> shard list \<Rightarrow> string" where
  "manifest_text F w directory shards =
     manifest_header @ [newline] @
     concat (map (\<lambda>s. shard_line (saved_path F w directory (sh_path s)) s) shards)"

definition separator_in :: "string \<Rightarrow> bool" where
  "separator_in path \<longleftrightarrow> tab \<in> set path \<or> newline \<in> set path"

lemma save_lines_step:
  "save_lines F w directory body (s # ss) =
     (if separator_in (sh_path s) then Inl (ShardError (TabOrNewline (sh_path s)), body)
      else save_lines F w directory
        (body @ shard_line (saved_path F w directory (sh_path s)) s) ss)"
  by (simp add: separator_in_def)

lemma save_lines_result:
  "save_lines F w directory body shards =
     (case dropWhile (\<lambda>s. \<not> separator_in (sh_path s)) shards of
        [] \<Rightarrow> Inr (body @ concat (map (\<lambda>s. shard_line (saved_path F w directory (sh_path s)) s) shards))
      | s # _ \<Rightarrow> Inl (ShardError (TabOrNewline (sh_path s)), body @
          concat (map (\<lambda>s. shard_line (saved_path F w directory (sh_path s)) s)
            (takeWhile (\<lambda>s. \<not> separator_in (sh_path s)) shards))))"
proof (induction shards arbitrary: body)
  case (Cons s ss)
  then show ?case
    by (cases "separator_in (sh_path s)")
      (simp_all add: save_lines_step del: save_lines.simps(2) dropWhile_eq_Nil_conv split: list.split)
qed simp

text \<open>
  A shard whose line can be read back: its written path has no separator, does not make the line a
  comment, and resolves to the shard's path again.
\<close>

definition path_survives :: "'w fs \<Rightarrow> 'w \<Rightarrow> string \<Rightarrow> string \<Rightarrow> bool" where
  "path_survives F w directory path \<longleftrightarrow>
     (let written = saved_path F w directory path in
      \<not> separator_in written \<and> written \<noteq> [] \<and> hd written \<noteq> CHR ''#'' \<and>
      resolve_path directory written = path)"

lemma chomp_shard_line:
  assumes "written \<noteq> []"
  shows "chomp (written @ tab # a @ tab # decimal n) = written @ tab # a @ tab # decimal n"
proof -
  have "last (decimal n) \<in> set (decimal n)" by (simp add: decimal_nonempty)
  with decimal_not_special have "last (decimal n) \<noteq> carriage_return" by blast
  then show ?thesis by (simp add: chomp_def decimal_nonempty)
qed

lemma getlines_shard_line:
  assumes "\<not> separator_in written"
  shows "getlines bad [] (shard_line written s @ rest) =
     (written @ tab # decimal (unat (sh_offset s)) @ tab # decimal (unat (sh_length s))) #
       getlines bad [] rest"
proof -
  let ?line = "written @ tab # decimal (unat (sh_offset s)) @ tab # decimal (unat (sh_length s))"
  have "newline \<noteq> tab" by (simp add: newline_def tab_def)
  with assms have "newline \<notin> set ?line" by (auto simp: separator_in_def dest: decimal_not_special)
  from getlines_line [OF this] show ?thesis by (simp add: shard_line_def)
qed

lemma saved_line_denotes:
  assumes "path_survives F w directory (sh_path s)" and "valid_shard alignment s"
  shows "denotes_shard directory alignment
     (saved_path F w directory (sh_path s) @ tab # decimal (unat (sh_offset s)) @ tab #
        decimal (unat (sh_length s))) s"
  unfolding denotes_shard_def
proof (intro exI conjI)
  show "denotes_u64 (decimal (unat (sh_offset s))) (sh_offset s)"
    "denotes_u64 (decimal (unat (sh_length s))) (sh_length s)" by (rule denotes_u64_decimal)+
qed (insert assms, auto simp: path_survives_def separator_in_def Let_def)

lemma saved_lines_denote:
  assumes "\<And>s. s \<in> set shards \<Longrightarrow> path_survives F w directory (sh_path s) \<and> valid_shard alignment s"
  shows "list_all2 (denotes_shard directory alignment)
    (shard_lines (getlines False []
       (concat (map (\<lambda>s. shard_line (saved_path F w directory (sh_path s)) s) shards)))) shards"
  using assms
proof (induction shards)
  case (Cons s shards)
  let ?written = "saved_path F w directory (sh_path s)"
  from Cons.prems have ok: "path_survives F w directory (sh_path s)" "valid_shard alignment s" by simp_all
  then have w: "\<not> separator_in ?written" "?written \<noteq> []" "hd ?written \<noteq> CHR ''#''"
    by (simp_all add: path_survives_def Let_def)
  from Cons saved_line_denotes [OF ok] w show ?case
    by (simp add: getlines_shard_line shard_lines_def chomp_shard_line skipped_def)
qed (simp add: shard_lines_def)

lemma manifest_text_denotes:
  assumes "\<And>s. s \<in> set shards \<Longrightarrow> path_survives F w directory (sh_path s) \<and> valid_shard alignment s"
  shows "list_all2 (denotes_shard directory alignment)
    (shard_lines (getlines False [] (manifest_text F w directory shards))) shards"
proof -
  have "newline \<notin> set manifest_header" by code_simp
  from getlines_line [OF this, of False "[]"] have
    "getlines False [] (manifest_text F w directory shards) = manifest_header # getlines False []
      (concat (map (\<lambda>s. shard_line (saved_path F w directory (sh_path s)) s) shards))"
    by (simp add: manifest_text_def)
  moreover have "skipped (chomp manifest_header)"
by code_simp
  ultimately show ?thesis using saved_lines_denote [OF assms] by (simp add: shard_lines_def)
qed

section \<open>A small file system of texts\<close>

text \<open>For concrete runs: the files are an association list from paths to texts.\<close>

definition textfs :: "(string \<times> string) list fs" where
  "textfs = \<lparr>
     in_text = (\<lambda>p w. map_option (\<lambda>t. (t, False)) (map_of w p)),
     out_create = (\<lambda>p w. (True, (p, []) # w)),
     out_good = (\<lambda>_ _ _. True),
     out_close = (\<lambda>p t w. (p, t) # w),
     fs_relative = (\<lambda>p d w. if take (length d + 1) p = d @ ''/'' then Some (drop (length d + 1) p)
        else None),
     fs_absolute = (\<lambda>p w. p),
     fs_is_directory = (\<lambda>d w. list_ex (\<lambda>(p, t). take (length d + 1) p = d @ ''/'') w),
     fs_entries = (\<lambda>d w. Some (filter (\<lambda>p. take (length d + 1) p = d @ ''/'') (map fst w))),
     fs_is_regular = (\<lambda>p w. (map_of w p \<noteq> None, map_of w p = None)),
     fs_file_size = (\<lambda>p w. map_option (\<lambda>t. of_nat (length t)) (map_of w p))\<rparr>"

section \<open>Properties of the parser\<close>

text \<open>
  Property C28 (numbers). \<open>parse_u64\<close> accepts exactly the non-empty strings of decimal digits whose value
  fits in 64 bits, and returns the value; in particular it reads back what \<open>operator<<\<close> writes.
\<close>

theorem parse_u64_accepts_decimals:
  "parse_u64 text = (if text \<noteq> [] \<and> list_all is_digit text \<and> digits_value text < 2 ^ 64
     then Some (of_nat (digits_value text)) else None) \<and>
   parse_u64 (decimal (unat x)) = Some x"
  using parse_u64_digits parse_decimal [of "unat x"] unsigned_less [of x] by simp

text \<open>
  Property C29 (fields). \<open>split_line\<close> finds three fields exactly in the lines with two tabs, and they are
  the texts between the tabs.
\<close>

theorem split_line_iff_two_tabs:
  "split_line line = Some (a, b, c) \<longleftrightarrow>
     line = a @ tab # b @ tab # c \<and> tab \<notin> set a \<and> tab \<notin> set b \<and> tab \<notin> set c"
  using split_line_fields split_line_SomeD by blast

text \<open>
  Property C3 (manifest). For an alignment that is not zero, \<open>ShardSet::load\<close> always returns, and it
  returns a set exactly when the whole manifest was read and each of its lines, comments and
  blank lines apart, denotes a valid shard: a path, an offset and a length between tabs, the numbers in decimal and in
  range, the length not zero, the offset aligned, the end not wrapping. The set is then those
  shards in the order of the lines.
\<close>

theorem load_denotes_manifest:
  assumes "alignment \<noteq> 0"
  shows "shard_set_load F manifest alignment w \<noteq> None \<and>
    (shard_set_load F manifest alignment w = Some (Inr shards) \<longleftrightarrow>
      (\<exists>text. in_text F manifest w = Some (text, False) \<and>
         list_all2 (denotes_shard (parent_path manifest) alignment)
           (shard_lines (getlines False [] text)) shards))"
proof
  show "shard_set_load F manifest alignment w \<noteq> None"
    by (simp add: shard_set_load_def load_lines_returns [OF assms] split: option.split sum.split)
  show "shard_set_load F manifest alignment w = Some (Inr shards) \<longleftrightarrow>
      (\<exists>text. in_text F manifest w = Some (text, False) \<and>
         list_all2 (denotes_shard (parent_path manifest) alignment)
           (shard_lines (getlines False [] text)) shards)" (is "?load \<longleftrightarrow> ?den")
  proof
    assume ?load
    then obtain body where "in_text F manifest w = Some (body, False)"
        "load_lines manifest (parent_path manifest) alignment 0 [] (getlines False [] body) = Some (Inr shards)"
      by (auto simp: shard_set_load_def split: option.splits sum.splits if_splits)
    with load_lines_denotes [OF assms, of manifest _ 0 "[]"] show ?den by auto
  next
    assume ?den
    then obtain body where body: "in_text F manifest w = Some (body, False)"
        "list_all2 (denotes_shard (parent_path manifest) alignment)
           (shard_lines (getlines False [] body)) shards" by blast
    then have "load_lines manifest (parent_path manifest) alignment 0 [] (getlines False [] body) =
        Some (Inr ([] @ shards))"
      using load_lines_denotes [OF assms] by blast
    with body(1) show ?load by (simp add: shard_set_load_def)
  qed
qed

lemma load_denotes_manifest_witness:
  "list_all2 (denotes_shard ''/d'' 4096)
     (shard_lines (getlines False [] (''a'' @ [tab] @ ''4096'' @ [tab] @ ''7'')))
     [\<lparr>sh_path = ''/d/a'', sh_offset = 4096, sh_length = 7\<rparr>]"
proof -
  let ?text = "''a'' @ [tab] @ ''4096'' @ [tab] @ ''7''"
  have nz: "(4096 :: u64) \<noteq> 0" by simp
  have "shard_set_load textfs ''/d/m'' 4096 [(''/d/m'', ?text)] =
      Some (Inr [\<lparr>sh_path = ''/d/a'', sh_offset = 4096, sh_length = 7\<rparr>])" by code_simp
  from load_denotes_manifest [OF nz, THEN conjunct2, THEN iffD1, OF this] obtain body where
    body: "in_text textfs ''/d/m'' [(''/d/m'', ?text)] = Some (body, False)"
      "list_all2 (denotes_shard (parent_path ''/d/m'') 4096) (shard_lines (getlines False [] body))
        [\<lparr>sh_path = ''/d/a'', sh_offset = 4096, sh_length = 7\<rparr>]" by blast
  have "in_text textfs ''/d/m'' [(''/d/m'', ?text)] = Some (?text, False)"
    by (simp add: textfs_def)
  with body(1) have "body = ?text" by simp
  moreover have "parent_path ''/d/m'' = ''/d''" by code_simp
  ultimately show ?thesis using body(2) by simp
qed

section \<open>Properties of saving\<close>

text \<open>
  Property C26 (saving). When the manifest can be created, \<open>save\<close> writes the lines of the shards up to
  the first one whose path has a tab or a newline: that path is the error, and a stream that is no
  longer good at the end is the only other one. The text written is left in the file in each case.
\<close>

theorem save_writes_until_separator:
  assumes "out_create F manifest w = (True, w1)"
  shows "shard_set_save F shards manifest w =
    (let clean = takeWhile (\<lambda>s. \<not> separator_in (sh_path s)) shards;
         written = manifest_text F w1 (parent_path manifest) clean;
         result = (case dropWhile (\<lambda>s. \<not> separator_in (sh_path s)) shards of
             s # _ \<Rightarrow> Inl (ShardError (TabOrNewline (sh_path s)))
           | [] \<Rightarrow> if out_good F manifest written w1 then Inr ()
               else Inl (ShardError (WriteFailed manifest)))
     in (result, out_close F manifest written w1))"
proof (cases "dropWhile (\<lambda>s. \<not> separator_in (sh_path s)) shards")
  case Nil
  then have all: "list_all (\<lambda>s. \<not> separator_in (sh_path s)) shards" by (simp only: dropWhile_all)
  show ?thesis
    unfolding shard_set_save_def assms save_lines_result Nil takeWhile_all [OF all]
    by (simp add: manifest_text_def)
next
  case (Cons s rest)
  show ?thesis
    unfolding shard_set_save_def assms save_lines_result Cons by (simp add: manifest_text_def)
qed

lemma save_writes_until_separator_witness:
  "fst (shard_set_save textfs [\<lparr>sh_path = ''a'' @ [tab], sh_offset = 0, sh_length = 1\<rparr>] ''m'' []) =
     Inl (ShardError (TabOrNewline (''a'' @ [tab])))"
proof -
  have "out_create textfs ''m'' [] = (True, [(''m'', [])])" by (simp add: textfs_def)
  from save_writes_until_separator [OF this]
  show ?thesis by (simp add: Let_def separator_in_def)
qed

text \<open>
  Property C4 (save, then load). A set of valid shards whose paths survive the way to the manifest and back is
  saved without error into a stream that stays good, and when the file then holds the text that was
  written, loading it gives the same set.
\<close>

theorem saved_manifest_loads:
  assumes "out_create F manifest w = (True, w1)"
    and "out_good F manifest (manifest_text F w1 (parent_path manifest) shards) w1"
    and "in_text F manifest
          (out_close F manifest (manifest_text F w1 (parent_path manifest) shards) w1) =
        Some (manifest_text F w1 (parent_path manifest) shards, False)"
    and "alignment \<noteq> 0"
    and "\<And>s. s \<in> set shards \<Longrightarrow> \<not> separator_in (sh_path s) \<and> valid_shard alignment s \<and>
          path_survives F w1 (parent_path manifest) (sh_path s)"
  shows "\<exists>w2. shard_set_save F shards manifest w = (Inr (), w2) \<and>
    shard_set_load F manifest alignment w2 = Some (Inr shards)"
proof (intro exI conjI)
  let ?text = "manifest_text F w1 (parent_path manifest) shards"
  have all: "list_all (\<lambda>s. \<not> separator_in (sh_path s)) shards"
    using assms(5) by (simp add: list_all_iff)
  note nil = dropWhile_all [THEN iffD2, OF all]
  show "shard_set_save F shards manifest w = (Inr (), out_close F manifest ?text w1)"
    using assms(2) unfolding shard_set_save_def assms(1) save_lines_result nil
    by (simp add: manifest_text_def)
  have "list_all2 (denotes_shard (parent_path manifest) alignment)
      (shard_lines (getlines False [] ?text)) shards"
    using assms(5) by (intro manifest_text_denotes) simp
  with load_lines_denotes [OF assms(4), of manifest _ 0 "[]"]
  have "load_lines manifest (parent_path manifest) alignment 0 [] (getlines False [] ?text) =
      Some (Inr shards)" by auto
  with assms(3) show "shard_set_load F manifest alignment (out_close F manifest ?text w1) =
      Some (Inr shards)" by (simp add: shard_set_load_def)
qed

definition sample_shards :: "shard list" where
  "sample_shards =
     [\<lparr>sh_path = ''/d/b'', sh_offset = 8192, sh_length = 70\<rparr>,
      \<lparr>sh_path = ''/e'', sh_offset = 0, sh_length = 1\<rparr>]"

lemma saved_manifest_loads_witness:
  "\<exists>w2. shard_set_save textfs sample_shards ''/d/m'' [] = (Inr (), w2) \<and>
    shard_set_load textfs ''/d/m'' 4096 w2 = Some (Inr sample_shards)"
proof (rule saved_manifest_loads)
  show "out_create textfs ''/d/m'' [] = (True, [(''/d/m'', [])])" by (simp add: textfs_def)
  show "(4096 :: u64) \<noteq> 0" by simp
  have ok: "list_all (\<lambda>s. \<not> separator_in (sh_path s) \<and> valid_shard 4096 s \<and>
      path_survives textfs [(''/d/m'', [])] (parent_path ''/d/m'') (sh_path s)) sample_shards" by code_simp
  show "\<not> separator_in (sh_path s) \<and> valid_shard 4096 s \<and>
      path_survives textfs [(''/d/m'', [])] (parent_path ''/d/m'') (sh_path s)"
    if "s \<in> set sample_shards" for s
    using ok that unfolding list_all_iff by blast
qed (simp_all add: textfs_def)

text \<open>
  A path that starts with a number sign is written as a comment: the shard is gone after the
  round trip, and no call fails. (\<open>path_survives\<close> excludes it.)
\<close>

lemma hash_path_is_lost:
  "case shard_set_save textfs [\<lparr>sh_path = ''#1'', sh_offset = 0, sh_length = 1\<rparr>] ''m'' [] of (saved, w) \<Rightarrow>
     saved = Inr () \<and> shard_set_load textfs ''m'' 4096 w = Some (Inr [])"
  by code_simp

text \<open>An empty shard is written, and makes the manifest one that does not load.\<close>

lemma empty_shard_spoils_manifest:
  "case shard_set_save textfs [\<lparr>sh_path = ''a'', sh_offset = 0, sh_length = 0\<rparr>] ''m'' [] of (saved, w) \<Rightarrow>
     saved = Inr () \<and>
     shard_set_load textfs ''m'' 4096 w = Some (Inl (ShardError (LoadError ''m'' (ZeroLength 2))))"
  by code_simp

section \<open>Properties of discovery and of the total\<close>

definition hidden :: "string \<Rightarrow> bool" where
  "hidden path \<longleftrightarrow> path_filename path \<noteq> [] \<and> hd (path_filename path) = CHR ''.''"

text \<open>The files of a directory that \<open>discover\<close> turns into shards, and their shards.\<close>

definition data_file :: "'w fs \<Rightarrow> 'w \<Rightarrow> string \<Rightarrow> bool" where
  "data_file F w path \<longleftrightarrow>
     \<not> hidden path \<and> fst (fs_is_regular F path w) \<and> fs_file_size F path w \<noteq> Some 0"

definition whole_file :: "'w fs \<Rightarrow> 'w \<Rightarrow> string \<Rightarrow> shard" where
  "whole_file F w path =
     \<lparr>sh_path = fs_absolute F path w, sh_offset = 0, sh_length = the (fs_file_size F path w)\<rparr>"

lemma discover_entries_step:
  "discover_entries F w files ec (e # es) =
     (if hidden e then discover_entries F w files ec es
      else discover_entries F w (if fst (fs_is_regular F e w) then files @ [e] else files)
        (snd (fs_is_regular F e w)) es)"
  by (simp add: hidden_def Let_def split: prod.split)

lemma discover_entries_result:
  assumes "\<And>e. e \<in> set es \<Longrightarrow> \<not> hidden e \<Longrightarrow> \<not> snd (fs_is_regular F e w)"
  shows "discover_entries F w files False es =
    (files @ filter (\<lambda>e. \<not> hidden e \<and> fst (fs_is_regular F e w)) es, False)"
  using assms
proof (induction es arbitrary: files)
  case (Cons e es)
  then show ?case by (simp add: discover_entries_step del: discover_entries.simps(2))
qed simp

lemma discover_sizes_result:
  assumes "\<And>f. f \<in> set fs \<Longrightarrow> fs_file_size F f w \<noteq> None"
  shows "discover_sizes F w shards fs =
    Inr (shards @ map (whole_file F w) (filter (\<lambda>f. fs_file_size F f w \<noteq> Some 0) fs))"
  using assms
proof (induction fs arbitrary: shards)
  case (Cons f fs)
  then obtain len where "fs_file_size F f w = Some len" by auto
  with Cons show ?case by (simp add: whole_file_def)
qed simp

lemma filter_sort_key: "filter P (sort_key k xs) = sort_key k (filter P xs)"
  by (simp add: filter_sort)

text \<open>
  Property C27 (discovery). When the directory can be listed and its files can be examined, \<open>discover\<close>
  makes one shard of every regular file that is neither hidden nor empty, each exactly once and
  over its whole length, in the order of the file names.
\<close>

theorem discover_lists_data_files:
  assumes "fs_is_directory F directory w" and "fs_entries F directory w = Some es"
    and "\<And>e. e \<in> set es \<Longrightarrow> \<not> hidden e \<Longrightarrow> \<not> snd (fs_is_regular F e w)"
    and "\<And>e. e \<in> set es \<Longrightarrow> \<not> hidden e \<Longrightarrow> fst (fs_is_regular F e w) \<Longrightarrow> fs_file_size F e w \<noteq> None"
  shows "\<exists>files. shard_set_discover F directory w = Inr (map (whole_file F w) files) \<and>
    mset files = filter_mset (data_file F w) (mset es) \<and> sorted (map path_filename files)"
proof -
  let ?files = "filter (\<lambda>e. \<not> hidden e \<and> fst (fs_is_regular F e w)) es"
  let ?nonempty = "\<lambda>f. fs_file_size F f w \<noteq> Some 0"
  have "shard_set_discover F directory w = discover_sizes F w [] (sort_key path_filename ?files)"
    using assms(1,2) discover_entries_result [of es F w "[]", OF assms(3)]
    by (simp add: shard_set_discover_def)
  also have "\<dots> = Inr (map (whole_file F w) (filter ?nonempty (sort_key path_filename ?files)))"
    using assms(4) by (subst discover_sizes_result) auto
  finally have "shard_set_discover F directory w =
      Inr (map (whole_file F w) (sort_key path_filename (filter (data_file F w) es)))"
    by (simp add: filter_sort_key data_file_def [abs_def] conj_comms)
  then show ?thesis by (intro exI [of _ "sort_key path_filename (filter (data_file F w) es)"]) simp
qed

definition sample_files :: "(string \<times> string) list" where
  "sample_files = [(''/d/b'', ''xyz''), (''/d/.h'', ''h''), (''/d/a'', ''uv''), (''/d/c'', [])]"

lemma discover_lists_data_files_witness:
  "\<exists>files. shard_set_discover textfs ''/d'' sample_files = Inr (map (whole_file textfs sample_files) files) \<and>
    mset files = filter_mset (data_file textfs sample_files)
      (mset [''/d/b'', ''/d/.h'', ''/d/a'', ''/d/c'']) \<and> sorted (map path_filename files)"
proof (rule discover_lists_data_files)
  show "fs_is_directory textfs ''/d'' sample_files" by code_simp
  show "fs_entries textfs ''/d'' sample_files = Some [''/d/b'', ''/d/.h'', ''/d/a'', ''/d/c'']" by code_simp
  have ok: "list_all (\<lambda>e. \<not> snd (fs_is_regular textfs e sample_files) \<and>
      fs_file_size textfs e sample_files \<noteq> None) [''/d/b'', ''/d/.h'', ''/d/a'', ''/d/c'']" by code_simp
  fix e assume "e \<in> set [''/d/b'', ''/d/.h'', ''/d/a'', ''/d/c'']"
  with ok have "\<not> snd (fs_is_regular textfs e sample_files) \<and> fs_file_size textfs e sample_files \<noteq> None"
    unfolding list_all_iff by blast
  then show "\<not> snd (fs_is_regular textfs e sample_files)" "fs_file_size textfs e sample_files \<noteq> None"
    by blast+
qed

lemma discover_sample:
  "shard_set_discover textfs ''/d'' sample_files = Inr
     [\<lparr>sh_path = ''/d/a'', sh_offset = 0, sh_length = 2\<rparr>,
      \<lparr>sh_path = ''/d/b'', sh_offset = 0, sh_length = 3\<rparr>]"
  by code_simp

text \<open>
  The error code of the loop is the one of the last entry that was examined: an entry that cannot be examined is
  left out without an error unless no other entry is examined after it.
\<close>

lemma discover_error_depends_on_order:
  assumes bad: "fs_is_regular F bad w = (False, True)" "\<not> hidden bad"
    and good: "fs_is_regular F good w = (True, False)" "\<not> hidden good"
  shows "discover_entries F w files False [bad, good] = (files @ [good], False)"
    and "discover_entries F w files False [good, bad] = (files @ [good], True)"
  using assms by (simp_all add: discover_entries_step del: discover_entries.simps(2))

lemma sum_lengths_mod:
  "unat (sum_lengths acc shards) = (unat acc + (\<Sum>s\<leftarrow>shards. unat (sh_length s))) mod 2 ^ 64"
proof (induction shards arbitrary: acc)
  case Nil
  have "unat acc < 2 ^ 64" using unsigned_less [of acc] by simp
  then show ?case by simp
next
  case (Cons s shards)
  have "unat (acc + sh_length s) = (unat acc + unat (sh_length s)) mod 2 ^ 64"
    by (simp add: unat_word_ariths)
  with Cons [of "acc + sh_length s"] show ?case by (simp add: mod_add_left_eq add.assoc)
qed

text \<open>
  \<open>total_bytes\<close> is the sum of the lengths modulo two to the 64, and adding a shard adds its length.
\<close>

theorem total_bytes_sum:
  "unat (total_bytes shards) = (\<Sum>s\<leftarrow>shards. unat (sh_length s)) mod 2 ^ 64 \<and>
   total_bytes (shard_set_add shards s) = total_bytes shards + sh_length s"
proof
  show "unat (total_bytes shards) = (\<Sum>s\<leftarrow>shards. unat (sh_length s)) mod 2 ^ 64"
    by (simp add: total_bytes_def sum_lengths_mod)
  have "sum_lengths acc (shards @ [s]) = sum_lengths acc shards + sh_length s" for acc
    by (induction shards arbitrary: acc) simp_all
  then show "total_bytes (shard_set_add shards s) = total_bytes shards + sh_length s"
    by (simp add: total_bytes_def shard_set_add_def)
qed

end
