(* ===== verification/ShardReader.thy ===== *)
theory ShardReader
  imports ShardStream
begin

text \<open>
  The stream of \<open>src/dataset.cpp\<close> over any backend that keeps its contract: the locale
  \<open>shard_reader\<close> holds one lemma for each operation of the stream, up to \<open>read\<close> and the destructor;
  \<^theory_text>\<open>UringStream\<close> interprets it over the backend that \<open>open_backend\<close> returns.
\<close>

section \<open>Reading with any backend that keeps the contract\<close>

locale shard_reader = async_backend +
  fixes K :: "'b sys"
    and V :: "'b view"
  assumes ok_world: "ok w \<Longrightarrow> files_law K V \<and> v_good V w"
    and ok_quiet: "ok w \<Longrightarrow> v_good V w' \<Longrightarrow> ok w'"
    and fds_view: "fds = v_fds V"
begin

lemma frame_in_flight:
  assumes "mset (pend b) = mset (map (request_of s) (in_flight s))"
  shows "bufs_of (pend b) = pe_slot ` set (in_flight s)"
  using assms by (rule in_flight_bufs)

text \<open>A backend that the stream holds, whatever has failed, can be destroyed with nothing in flight.\<close>

definition can_close :: "'a stream \<Rightarrow> bool" where
  "can_close s \<longleftrightarrow> (\<forall>b. ss_backend s = Some b \<longrightarrow> closable b)"

lemma open_can_close: "open_inv V pend binv c s w \<Longrightarrow> can_close s"
  unfolding open_inv_def can_close_def using binv_closable by fastforce

lemma inv_can_close: "stream_inv V ok pend binv s w \<Longrightarrow> can_close s"
  using open_can_close by (auto simp: stream_inv_def can_close_def split: if_splits)

lemma open_inv_stream:
  "open_inv V pend binv c s w \<Longrightarrow> stream_static s \<Longrightarrow> stream_inv V ok pend binv s w"
  unfolding stream_inv_def open_inv_def using binv_ok by fastforce

lemma fill_pipeline_correct:
  assumes inv: "open_inv V pend binv c s w" and st: "stream_static s"
    and fit: "options_fit len_ok (ss_options s) n"
  shows "\<exists>r s' w'. fill_pipeline ops s w = Some (r, s', w') \<and> ok w' \<and> v_fds V w' = v_fds V w \<and>
    ss_file s' = ss_file s \<and> can_close s' \<and>
    (r = Inr () \<longrightarrow> open_inv V pend binv c s' w' \<and> stream_static s' \<and> stream_pos s' = stream_pos s \<and>
       (\<exists>b m fs ps stop. s' = s\<lparr>ss_backend := b, ss_buffers := m, ss_free := fs,
          ss_pending := ps, ss_next_offset := stop\<rparr>) \<and>
       (ss_pending s' = [] \<longrightarrow> ss_window_end s' \<le> ss_next_offset s'))"
proof -
  from inv obtain b where b: "ss_backend s = Some b" "binv (file_fd (ss_file s)) c b (ss_buffers s) w"
    and mset: "mset (pend b) = mset (map (request_of s) (in_flight s))"
    and pl: "pipeline_ok c s" by (auto simp: open_inv_def)
  have okw: "ok w" by (rule binv_ok [OF b(2)])
  from fill_loop_correct [OF pl, of "[]"] obtain new s1 fs stop where
    "fill_loop s [] = Some ([] @ map (request_of s) new, s1)" and pl1: "pipeline_ok c s1"
    and new: "list_all (\<lambda>p. \<not> pe_done p) new" and pos: "stream_pos s1 = stream_pos s"
    and same: "new = [] \<longrightarrow> s1 = s"
    and s1: "s1 = s\<lparr>ss_free := fs, ss_pending := ss_pending s @ new, ss_next_offset := stop\<rparr>"
    and why: "ss_window_end s \<le> ss_next_offset s1 \<or> True \<notin> set (ss_free s1) \<or>
      unat (ss_read_depth s) \<le> length (ss_pending s1) + length ([] :: read_request list) + length new"
    by blast
  then have run: "fill_loop s [] = Some (map (request_of s) new, s1)" by simp
  let ?rs = "map (request_of s) new"
  have depth: "0 < unat (ss_read_depth s)" using st by (simp add: stream_static_def unat_gt_0)
  have bufs: "buffers_ok s1" using pl1 by (simp add: pipeline_ok_def)
  then have nonempty: "ss_buffers s1 \<noteq> []" using depth s1 by (auto simp: buffers_ok_def)
  show ?thesis
  proof (cases "new = []")
    case True
    with same have "s1 = s" by simp
    have "ss_window_end s \<le> ss_next_offset s" if "ss_pending s = []"
      using st why depth that nonempty True \<open>s1 = s\<close> by (auto simp: stream_static_def)
    moreover have "fill_pipeline ops s w = Some (Inr (), s, w)"
      using run True \<open>s1 = s\<close> by (simp add: fill_pipeline_def)
    moreover have "s = s\<lparr>ss_backend := ss_backend s, ss_buffers := ss_buffers s, ss_free := ss_free s,
          ss_pending := ss_pending s, ss_next_offset := ss_next_offset s\<rparr>" by simp
    ultimately show ?thesis using inv st okw open_can_close [OF inv] by blast
  next
    case False
    have fl: "in_flight s1 = in_flight s @ new"
      using new s1 by (simp add: in_flight_def list_all_iff filter_id_conv)
    have slots: "distinct (map pe_slot (ss_pending s @ new))" and entries: "\<forall>p \<in> set new. entry_ok c s1 p"
      using pl1 s1 by (simp_all add: pipeline_ok_def)
    have bufs_rs: "bufs_of ?rs = pe_slot ` set new" by (simp add: bufs_of_def image_image request_of_def)
    have bufs_b: "bufs_of (pend b) = pe_slot ` set (in_flight s)" by (rule frame_in_flight [OF mset])
    have "map rq_buf ?rs = map pe_slot new" by (simp add: request_of_def)
    then have d: "distinct (map rq_buf ?rs)" using slots by (simp del: map_map)
    have dis: "bufs_of ?rs \<inter> bufs_of (pend b) = {}"
      using slots unfolding bufs_rs bufs_b by (auto simp: in_flight_def)
    have lens: "list_all (\<lambda>r. len_ok (rq_len r)) ?rs"
    proof -
      have "unat (read_length (ss_block s) (ss_segment s) x) \<le> unat (ss_segment s)" for x
        using pl by (intro read_length_bounds(2)) (simp_all add: pipeline_ok_def buffers_ok_def)
      moreover have "unat (ss_segment s) \<le> unat (segment_limit (ss_options s))"
        using pl by (simp add: pipeline_ok_def buffers_ok_def u64_le_nat)
      ultimately show ?thesis using fit
        by (auto simp: options_fit_def list_all_iff request_of_def intro: order_trans)
    qed
    have fits: "list_all (request_fits (ss_buffers s)) ?rs"
    proof -
      have "request_fits (ss_buffers s) (request_of s p)" if "p \<in> set new" for p
      proof -
        have slot: "pe_slot p < length (ss_buffers s)" using entries that s1 by (simp add: entry_ok_def)
        have "unat (ss_segment s) \<le> span_size (ss_buffers s ! pe_slot p)"
          using pl slot by (simp add: pipeline_ok_def buffers_ok_def)
        moreover have "unat (read_length (ss_block s) (ss_segment s) x) \<le> unat (ss_segment s)" for x
          using pl by (intro read_length_bounds(2)) (simp_all add: pipeline_ok_def buffers_ok_def)
        ultimately show ?thesis using slot by (auto simp: request_fits_def request_of_def intro: order_trans)
      qed
      then show ?thesis by (simp add: list_all_iff)
    qed
    from submit_law [OF b(2) d dis fits lens] obtain r b' m' w' where
      sub: "bk_submit ops ?rs b (ss_buffers s) w = Some (r, b', m', w')" "ok w'" "fds w' = fds w"
        "frame (bufs_of (pend b) \<union> bufs_of ?rs) (ss_buffers s) m'"
      and acc: "r = Inr () \<longrightarrow> mset (pend b') = mset (pend b) + mset ?rs \<and> depth b' = depth b \<and> binv (file_fd (ss_file s)) c b' m' w'"
      by blast
    let ?s2 = "s1\<lparr>ss_backend := Some b', ss_buffers := m'\<rparr>"
    have held: "ss_backend s1 = Some b" "ss_buffers s1 = ss_buffers s" using b(1) s1 by simp_all
    show ?thesis
    proof (cases r)
      case (Inl e)
      have "closable b" using binv_closable [OF b(2)] by simp
      from submit_closable [OF this sub(1)] Inl
      have "\<exists>s'. fill_pipeline ops s w = Some (Inl e, s', w') \<and> ss_file s' = ss_file s \<and> can_close s'"
        using run False held sub(1) s1
        by (simp add: fill_pipeline_def Let_def rollback_file rollback_backend can_close_def)
      with sub(2,3) show ?thesis by (auto simp: fds_view)
    next
      case (Inr u)
      then have r: "r = Inr ()" by simp
      have go: "fill_pipeline ops s w = Some (Inr (), ?s2, w')"
        using run False held sub(1) r by (simp add: fill_pipeline_def Let_def)
      have "pe_slot ` set (in_flight s1) = bufs_of (pend b) \<union> bufs_of ?rs"
        unfolding fl bufs_rs bufs_b by auto
      then have pl2: "pipeline_ok c ?s2"
        using sub(4) held by (intro pipeline_ok_frame [OF pl1]) simp
      have "mset (pend b') = mset (map (request_of ?s2) (in_flight ?s2))"
        using acc r mset fl s1 by simp
      then have "open_inv V pend binv c ?s2 w'"
        using inv acc r pl2 sub(3) s1 by (simp add: open_inv_def fds_view)
      moreover have "stream_static ?s2"
        using st pl2 False s1 nonempty by (simp add: stream_static_def pipeline_ok_def)
      moreover have "\<exists>b m fs ps stop. ?s2 = s\<lparr>ss_backend := b, ss_buffers := m, ss_free := fs,
          ss_pending := ps, ss_next_offset := stop\<rparr>"
        using s1 by (intro exI [of _ "Some b'"] exI [of _ m'] exI [of _ fs] exI [of _ "ss_pending s @ new"]
            exI [of _ stop]) simp
      moreover have "ss_pending ?s2 \<noteq> []" "stream_pos ?s2 = stream_pos s"
        using False s1 pos by simp_all
      moreover have "ss_file ?s2 = ss_file s" using s1 by simp
      ultimately show ?thesis using go sub(2,3) by (simp add: fds_view open_can_close)
    qed
  qed
qed

lemma await_front_correct:
  "open_inv V pend binv c s w \<Longrightarrow> stream_static s \<Longrightarrow> ss_pending s \<noteq> [] \<Longrightarrow>
   \<exists>r s' w'. await_front ops s w = Some (r, s', w') \<and> ok w' \<and> v_fds V w' = v_fds V w \<and>
     ss_file s' = ss_file s \<and> can_close s' \<and>
     (r = Inr () \<longrightarrow> open_inv V pend binv c s' w' \<and> stream_static s' \<and> ss_pending s' \<noteq> [] \<and>
        pe_done (hd (ss_pending s')) \<and> stream_pos s' = stream_pos s \<and>
        (\<exists>b m ps. s' = s\<lparr>ss_backend := b, ss_buffers := m, ss_pending := ps\<rparr>))"
proof (induction "length (in_flight s)" arbitrary: s w rule: less_induct)
  case less
  note inv = less.prems(1) and st = less.prems(2) and ne = less.prems(3)
  from inv obtain b where b: "ss_backend s = Some b" "binv (file_fd (ss_file s)) c b (ss_buffers s) w"
    and mset: "mset (pend b) = mset (map (request_of s) (in_flight s))"
    and pl: "pipeline_ok c s" by (auto simp: open_inv_def)
  show ?case
  proof (cases "pe_done (hd (ss_pending s))")
    case True
    have "await_front ops s w = Some (Inr (), s, w)"
      using ne True by (subst await_front.simps) simp
    moreover have "s = s\<lparr>ss_backend := ss_backend s, ss_buffers := ss_buffers s, ss_pending := ss_pending s\<rparr>"
      by simp
    ultimately show ?thesis using inv st ne True binv_ok [OF b(2)] open_can_close [OF inv] by blast
  next
    case False
    have "hd (ss_pending s) \<in> set (in_flight s)" using False ne by (simp add: in_flight_def)
    then have "in_flight s \<noteq> []" by auto
    then have "pend b \<noteq> []" using mset by auto
    from reap_one [OF b(2) this] obtain r b' m' w' where
      reap: "bk_reap ops 1 1 b (ss_buffers s) w = Some (r, b', m', w')" "ok w'" "fds w' = fds w"
        "frame (bufs_of (pend b)) (ss_buffers s) m'"
      and good: "\<forall>cs. r = Inr cs \<longrightarrow> (\<exists>p cp. cs = [cp] \<and> completes c m' p cp \<and>
        mset (pend b) = add_mset p (mset (pend b')) \<and> depth b' = depth b \<and> binv (file_fd (ss_file s)) c b' m' w')"
      by blast
    let ?s1 = "s\<lparr>ss_backend := Some b', ss_buffers := m'\<rparr>"
    have fds: "v_fds V w' = v_fds V w" using reap(3) by (simp add: fds_view)
    have "closable b" using binv_closable [OF b(2)] by simp
    from reap_closable [OF this reap(1)] have cl: "can_close ?s1" by (simp add: can_close_def)
    show ?thesis
    proof (cases r)
      case (Inl e)
      then have "await_front ops s w = Some (Inl e, ?s1, w')"
        using ne False b(1) reap(1) by (subst await_front.simps) simp
      with reap(2) fds cl show ?thesis by auto
    next
      case (Inr cs)
      with good obtain rq cp where cs: "cs = [cp]" and cp: "completes c m' rq cp"
        and m: "mset (pend b) = add_mset rq (mset (pend b'))" and b': "binv (file_fd (ss_file s)) c b' m' w'" by blast
      have "frame (pe_slot ` set (in_flight s)) (ss_buffers s) m'"
        using reap(4) frame_in_flight [OF mset] by simp
      then have pl1: "pipeline_ok c ?s1" by (rule pipeline_ok_frame [OF pl])
      have "rq \<in># mset (map (request_of s) (in_flight s))" using m mset by simp
      then obtain e where e: "e \<in> set (ss_pending s)" "\<not> pe_done e" "rq = request_of s e"
        by (auto simp: in_flight_def)
      have bufs: "\<forall>q \<in> set (ss_pending s). pe_slot q < 18446744073709551616"
      proof
        fix q assume "q \<in> set (ss_pending s)"
        with pl have "pe_slot q < unat (ss_read_depth s)"
          by (auto simp: pipeline_ok_def entry_ok_def buffers_ok_def)
        then show "pe_slot q < 18446744073709551616"
          using unat_u64_less [of "ss_read_depth s"] by linarith
      qed
      have dist: "distinct (map pe_slot (ss_pending s))" using pl by (simp add: pipeline_ok_def)
      from find_slot_nth [OF dist e(1) bufs] obtain xs ys where
        split: "ss_pending s = xs @ e # ys"
        and found: "find_slot (of_nat (pe_slot e)) (ss_pending s) = Some (length xs)" by blast
      have token: "cp_token cp = of_nat (pe_slot e)"
        using cp e(3) by (simp add: completes_def request_of_def)
      show ?thesis
      proof (cases "cp_error cp = 0")
        case False
        then have "await_front ops s w = Some (Inl (BatchError (ReadErrno (cp_error cp))), ?s1, w')"
          using ne \<open>\<not> pe_done (hd (ss_pending s))\<close> b(1) reap(1) Inr cs token found
          by (subst await_front.simps) simp
        with reap(2) fds cl show ?thesis by auto
      next
        case True
        let ?e = "complete_entry (ss_window_end s) cp e"
        let ?ps = "xs @ ?e # ys"
        let ?s2 = "?s1\<lparr>ss_pending := ?ps\<rparr>"
        have go: "await_front ops s w = await_front ops ?s2 w'"
          using ne False b(1) reap(1) Inr cs token found True split
          by (subst await_front.simps) simp
        have off: "map pe_offset ?ps = map pe_offset (ss_pending s)"
          and slots: "map pe_slot ?ps = map pe_slot (ss_pending s)"
          using split by (simp_all add: complete_entry_def)
        have pos: "stream_pos ?s2 = stream_pos s"
          using split by (cases xs) (simp_all add: stream_pos_def complete_entry_def)
        have fl: "in_flight s = filter (\<lambda>p. \<not> pe_done p) xs @ e # filter (\<lambda>p. \<not> pe_done p) ys"
          "in_flight ?s2 = filter (\<lambda>p. \<not> pe_done p) xs @ filter (\<lambda>p. \<not> pe_done p) ys"
          using split e(2) by (simp_all add: in_flight_def complete_entry_def)
        have pl2: "pipeline_ok c ?s2"
          unfolding pipeline_ok_def
        proof (intro conjI ballI)
          show "buffers_ok ?s2" using pl1 by (simp add: pipeline_ok_def)
          have "chained s (stream_pos s) (ss_pending s) (ss_next_offset s)"
            using pl by (simp add: pipeline_ok_def)
          then show "chained ?s2 (stream_pos ?s2) (ss_pending ?s2) (ss_next_offset ?s2)"
            unfolding pos using chained_map_offset [OF off, of s] by simp
          show "distinct (map pe_slot (ss_pending ?s2))" using dist slots by simp
          fix q assume "q \<in> set (ss_pending ?s2)"
          then consider "q = ?e" | "q \<in> set (ss_pending s)" using split by auto
          then show "entry_ok c ?s2 q"
          proof cases
            case 1
            have "entry_ok c ?s1 e" using pl1 e(1) by (simp add: pipeline_ok_def)
            then have "entry_ok c ?s1 (complete_entry (ss_window_end ?s1) cp e)"
              using cp e(3) True by (intro complete_entry_ok) simp_all
            with 1 show ?thesis by simp
          next
            case 2
            then have "entry_ok c ?s1 q" using pl1 by (simp add: pipeline_ok_def)
            then show ?thesis by simp
          qed
        qed
        have "mset (pend b') = mset (map (request_of ?s2) (in_flight ?s2))"
          using m mset e(3) fl by simp
        then have inv2: "open_inv V pend binv c ?s2 w'"
          using inv pl2 b' fds by (simp add: open_inv_def)
        have st2: "stream_static ?s2"
          using st pl2 inv2 by (auto simp: stream_static_def pipeline_ok_def buffers_ok_def)
        have "length (in_flight ?s2) < length (in_flight s)" "ss_pending ?s2 \<noteq> []" using fl by simp_all
        from less.hyps [OF this(1) inv2 st2 this(2)] obtain r' s' w2 where
          rec: "await_front ops ?s2 w' = Some (r', s', w2)" "ok w2" "v_fds V w2 = v_fds V w'"
            "ss_file s' = ss_file ?s2" "can_close s'"
          and post: "r' = Inr () \<longrightarrow> open_inv V pend binv c s' w2 \<and> stream_static s' \<and>
            ss_pending s' \<noteq> [] \<and> pe_done (hd (ss_pending s')) \<and> stream_pos s' = stream_pos ?s2 \<and>
            (\<exists>b m ps. s' = ?s2\<lparr>ss_backend := b, ss_buffers := m, ss_pending := ps\<rparr>)" by blast
        have "\<exists>b m ps. s' = s\<lparr>ss_backend := b, ss_buffers := m, ss_pending := ps\<rparr>" if "r' = Inr ()"
        proof -
          from post that obtain b m ps where
            "s' = ?s2\<lparr>ss_backend := b, ss_buffers := m, ss_pending := ps\<rparr>" by blast
          then have "s' = s\<lparr>ss_backend := b, ss_buffers := m, ss_pending := ps\<rparr>" by simp
          then show ?thesis by blast
        qed
        with go rec post fds pos show ?thesis by auto
      qed
    qed
  qed
qed

lemma close_shard_correct:
  assumes inv: "open_inv V pend binv c s w" and st: "stream_static s" and free: "True \<in> set (ss_free s)"
    and own: "owns_file V D s w"
  shows "\<exists>s' w'. close_shard K ops s w = Some (s', w') \<and> stream_inv V ok pend binv s' w' \<and>
    owns_file V D s' w' \<and> \<not> ss_open s' \<and> same_config s s' \<and> later_shards s' = later_shards s \<and>
    ss_carry s' = ss_carry s \<and> ss_carry_size s' = ss_carry_size s \<and> stream_left s' < stream_left s"
proof -
  from inv obtain b where b: "ss_backend s = Some b" "binv (file_fd (ss_file s)) c b (ss_buffers s) w"
    and mset: "mset (pend b) = mset (map (request_of s) (in_flight s))" and pl: "pipeline_ok c s"
    and opened: "ss_open s" "ss_next s < length (ss_order s)" "0 \<le> file_fd (ss_file s)"
    by (auto simp: open_inv_def)
  from destroy_law [OF b(2)] obtain m w1 where
    d: "bk_destroy ops b (ss_buffers s) w = Some (m, w1)" "ok w1" "fds w1 = fds w"
      "frame (bufs_of (pend b)) (ss_buffers s) m" by blast
  let ?w2 = "sys_close K (file_fd (ss_file s)) w1"
  let ?s' = "s\<lparr>ss_backend := None, ss_buffers := m, ss_pending := [], ss_file := file_none,
      ss_open := False, ss_next := ss_next s + 1\<rparr>"
  have go: "close_shard K ops s w = Some (?s', ?w2)"
    using b(1) d(1) opened(3)
    by (simp add: close_shard_def file_move_assign_def file_close_def file_move_def file_none_def)
  have law: "files_law K V" "v_good V w1" using ok_world [OF d(2)] by auto
  have cl: "v_good V ?w2" "v_fds V ?w2 = (v_fds V w1)(file_fd (ss_file s) := None)"
    using close_lawD [OF files_lawD(2) [OF law(1)] law(2)] by auto
  have okw: "ok ?w2" by (rule ok_quiet [OF d(2) cl(1)])
  have "buffers_ok (s\<lparr>ss_backend := None, ss_buffers := m\<rparr>)"
    using pl d(4) by (intro buffers_ok_frame) (simp_all add: pipeline_ok_def)
  then have st': "stream_static ?s'"
    using st free by (simp add: stream_static_def buffers_ok_def)
  have "v_fds V ?w2 = D"
    using own opened(3) cl(2) d(3) by (auto simp: owns_file_def is_open_def fds_view fun_eq_iff)
  then have "owns_file V D ?s' ?w2" by (simp add: owns_file_def is_open_def file_none_def)
  moreover have "stream_inv V ok pend binv ?s' ?w2"
    using okw st' by (simp add: stream_inv_def is_open_def file_none_def)
  moreover have "stream_left ?s' < stream_left s"
  proof -
    obtain k where "length (ss_order s) - ss_next s = Suc k" "length (ss_order s) - Suc (ss_next s) = k"
      using opened(2) by (metis Suc_diff_Suc)
    then show ?thesis by (simp add: stream_left_def)
  qed
  ultimately show ?thesis
    using go opened(1) by (simp add: same_config_def later_shards_def)
qed

text \<open>
  One turn of the loop of \<open>read\<close> delivers \<open>n\<close> bytes: they are the next of the stream, and they are
  appended to what \<open>out\<close> holds.
\<close>

definition delivers ::
  "'c stream \<Rightarrow> nat \<Rightarrow> byte list \<Rightarrow> nat \<Rightarrow> nat \<Rightarrow> byte list \<Rightarrow> 'c stream \<Rightarrow> bool" where
  "delivers s filled out n filled' out' s' \<longleftrightarrow>
     filled' = filled + n \<and> filled + n \<le> length out \<and> n \<le> length (stream_rest V s) \<and>
     out' = overwrite filled (take n (stream_rest V s)) out \<and>
     stream_rest V s' = drop n (stream_rest V s) \<and> same_config s s'"

lemma consume_front_correct:
  assumes inv: "open_inv V pend binv c s w" and st: "stream_static s" and ne: "ss_pending s \<noteq> []"
    and front: "pe_done (hd (ss_pending s))" and own: "owns_file V D s w"
    and room: "filled < length out" and carry: "ss_carry_size s = 0"
  shows "\<exists>p n filled' out' s' w'. consume_front K ops filled out s w = Some (p, filled', out', s', w') \<and>
    delivers s filled out n filled' out' s' \<and> stream_inv V ok pend binv s' w' \<and> owns_file V D s' w' \<and>
    (p = Continue \<and> ss_carry_size s' = 0 \<and> stream_left s' < stream_left s \<or>
     p = Break \<and> filled' = length out)"
proof -
  from inv obtain b where b: "ss_backend s = Some b" "binv (file_fd (ss_file s)) c b (ss_buffers s) w"
    and mset: "mset (pend b) = mset (map (request_of s) (in_flight s))" and pl: "pipeline_ok c s"
    and opened: "ss_open s" "ss_next s < length (ss_order s)" "0 \<le> file_fd (ss_file s)"
      "v_files V (sh_path (current_shard s)) = Some c" "v_fds V w (file_fd (ss_file s)) = Some c"
    by (auto simp: open_inv_def)
  from ne obtain e rest where ps: "ss_pending s = e # rest" by (cases "ss_pending s") auto
  with front have e: "pe_done e" by simp
  let ?pop = "s\<lparr>ss_free := release (pe_slot e) (ss_free s), ss_pending := rest\<rparr>"
  note pop = pop_front [OF pl ps e]
  have bufs: "buffers_ok s" using pl by (simp add: pipeline_ok_def)
  let ?D = "window (unat (stream_pos s)) (pe_bytes e) c"
  let ?data = "sp_bytes (ss_buffers s ! pe_slot e)"
  let ?n = "min (length out - filled) (pe_bytes e)"
  have lenD: "length ?D = pe_bytes e" using pop(6) by (simp add: bytes_simps)
  have taken: "take k ?data = take k ?D" if "k \<le> pe_bytes e" for k
    using that arg_cong [OF pop(7), of "take k"] by (simp add: min_def)
  have left: "window ?n (pe_bytes e - ?n) ?data = drop ?n ?D"
    using pop(7) by (simp add: window_def drop_take [symmetric])
  have rest: "stream_rest V s = ?D @ open_rest V ?pop @ concat (map (shard_content V) (later_shards s))"
    using entry_window [OF bufs pop(4,6)] opened carry pop(5)
    by (simp add: stream_rest_def open_rest_def)
  have dist: "delivers s filled out n (filled + n) (overwrite filled (take n ?D) out) s'"
    if "n \<le> length out - filled" "n \<le> pe_bytes e" "same_config s s'"
      "stream_rest V s' = drop n ?D @ open_rest V ?pop @ concat (map (shard_content V) (later_shards s))"
    for n s'
    unfolding delivers_def rest using that lenD room by simp
  have out: "(if 0 < ?n then overwrite filled (take ?n ?data) out else out) = overwrite filled (take ?n ?D) out"
  proof (cases "0 < ?n")
    case True
    then show ?thesis using taken [of ?n] by simp
  next
    case False
    then have "?n = 0" by (metis not_gr_zero)
    then show ?thesis using False by (simp only: if_False take_0 overwrite_Nil)
  qed
  have inv2: "open_inv V pend binv c ?pop w"
    using inv pop(1,2) by (simp add: open_inv_def)
  have st2: "stream_static ?pop"
    using st pop(1,3) by (simp add: stream_static_def pipeline_ok_def)
  have fewer: "stream_left ?pop < stream_left s"
  proof -
    note b = segment_step_bounds [OF bufs pop(4)]
    have "unat (stream_pos s) < unat (ss_window_end s)" using pop(4) by (simp add: u64_less_nat)
    then have "unat (ss_window_end s) - unat (stream_pos ?pop) < unat (ss_window_end s) - unat (stream_pos s)"
      unfolding pop(5) b(3) using b(1) by linarith
    then show ?thesis using opened(1) by (simp add: stream_left_def)
  qed
  show ?thesis
  proof (cases "pe_bytes e - ?n > 0")
    case True
    let ?left = "pe_bytes e - ?n"
    let ?old = "if length (ss_carry s) < ?left then ss_carry s @ replicate (?left - length (ss_carry s)) 0
        else ss_carry s"
    let ?cs = "overwrite 0 (window ?n ?left ?data) ?old"
    let ?s2 = "?pop\<lparr>ss_carry := ?cs, ss_carry_size := ?left\<rparr>"
    have lt: "length out - filled < pe_bytes e" using True by linarith
    have go: "consume_front K ops filled out s w = Some (Break, filled + ?n,
        overwrite filled (take ?n ?D) out, ?s2, w)"
      unfolding out [symmetric] using ps True lt by (simp add: consume_front_def Let_def)
    have ll: "length (window ?n ?left ?data) = ?left" unfolding left using lenD by simp
    then have cs: "take ?left ?cs = drop ?n ?D"
      using take_overwrite [of 0 ?old "window ?n ?left ?data"] left by simp
    have "?left \<le> length ?old" by simp
    then have lc: "?left \<le> length ?cs" using ll by (simp add: length_overwrite)
    have "stream_rest V ?s2 = drop ?n ?D @ open_rest V ?pop @ concat (map (shard_content V) (later_shards s))"
      using cs by (simp add: stream_rest_def)
    then have "delivers s filled out ?n (filled + ?n) (overwrite filled (take ?n ?D) out) ?s2"
      by (intro dist) (simp_all add: same_config_def)
    moreover have "open_inv V pend binv c ?s2 w" using inv2 by (simp add: open_inv_def)
    then have "stream_inv V ok pend binv ?s2 w"
    proof (rule open_inv_stream)
      show "stream_static ?s2" using st2 lc by (simp add: stream_static_def)
    qed
    moreover have "owns_file V D ?s2 w" using own by (simp add: owns_file_def)
    moreover have "filled + ?n = length out" using True room by simp
    ultimately show ?thesis using go by blast
  next
    case False
    then have n: "?n = pe_bytes e" by simp
    have D: "take ?n ?D = ?D" "drop ?n ?D = []" using lenD n by simp_all
    show ?thesis
    proof (cases "pe_bytes e = 0")
      case False
      have go: "consume_front K ops filled out s w = Some (Continue, filled + ?n,
          overwrite filled (take ?n ?D) out, ?pop, w)"
        unfolding out [symmetric] using ps False n by (simp add: consume_front_def Let_def)
      have "stream_rest V ?pop = drop ?n ?D @ open_rest V ?pop @ concat (map (shard_content V) (later_shards s))"
        using carry D by (simp add: stream_rest_def)
      then have "delivers s filled out ?n (filled + ?n) (overwrite filled (take ?n ?D) out) ?pop"
        by (intro dist) (simp_all add: same_config_def)
      moreover have "stream_inv V ok pend binv ?pop w"
        by (rule open_inv_stream [OF inv2 st2])
      moreover have "owns_file V D ?pop w" using own by (simp add: owns_file_def)
      ultimately show ?thesis using go fewer carry by fastforce
    next
      case True
      have own2: "owns_file V D ?pop w" using own by (simp add: owns_file_def)
      from close_shard_correct [OF inv2 st2 pop(3) own2] obtain s' w' where
        cl: "close_shard K ops ?pop w = Some (s', w')" "stream_inv V ok pend binv s' w'"
          "owns_file V D s' w'" "\<not> ss_open s'" "same_config ?pop s'" "later_shards s' = later_shards ?pop"
          "ss_carry s' = ss_carry ?pop" "ss_carry_size s' = ss_carry_size ?pop"
          "stream_left s' < stream_left ?pop" by blast
      have go: "consume_front K ops filled out s w = Some (Continue, filled + ?n,
          overwrite filled (take ?n ?D) out, s', w')"
        unfolding out [symmetric] using ps True n cl(1) by (simp add: consume_front_def Let_def)
      have "open_rest V ?pop = []"
      proof -
        note b = segment_step_bounds [OF bufs pop(4)]
        have "length c \<le> unat (stream_pos s)" using pop(6) True b(1) by simp
        then have "length c \<le> unat (stream_pos ?pop)" unfolding pop(5) b(3) by simp
        then show ?thesis using opened by (simp add: open_rest_def bytes_simps)
      qed
      then have "stream_rest V s' = drop ?n ?D @ open_rest V ?pop @ concat (map (shard_content V) (later_shards s))"
        using cl carry D by (simp add: stream_rest_def open_rest_def)
      then have "delivers s filled out ?n (filled + ?n) (overwrite filled (take ?n ?D) out) s'"
        using cl(5) by (intro dist) (simp_all add: same_config_def)
      moreover have "stream_left s' < stream_left s" using cl(9) fewer by linarith
      ultimately show ?thesis using go cl carry by fastforce
    qed
  qed
qed

lemma open_shard_correct:
  assumes inv: "stream_inv V ok pend binv s w" and closed: "\<not> ss_open s"
    and more: "ss_next s < length (ss_order s)" and own: "owns_file V D s w"
    and blk: "block_law K V n" and seg: "options_fit len_ok (ss_options s) n"
  shows "\<exists>r s' w'. open_shard K ops s w = Some (r, s', w') \<and> ok w' \<and> owns_file V D s' w' \<and> can_close s' \<and>
    (r = Inr () \<longrightarrow> (\<exists>c. open_inv V pend binv c s' w') \<and> stream_static s' \<and>
       stream_rest V s' = stream_rest V s \<and> same_config s s' \<and>
       ss_carry_size s' = ss_carry_size s \<and> stream_left s' < stream_left s)"
proof -
  from inv closed have okw: "ok w" and st: "stream_static s" and idle: "ss_pending s = []"
    "ss_backend s = None" "\<not> is_open (ss_file s)" by (simp_all add: stream_inv_def)
  have D: "v_fds V w = D" using own idle(3) by (simp add: owns_file_def)
  let ?i = "ss_order s ! ss_next s"
  let ?sh = "ss_shards s ! ?i"
  have "?i \<in> set (ss_order s)" using more by simp
  then have i: "?i < length (ss_shards s)" and valid: "unat (sh_offset ?sh) + unat (sh_length ?sh) < 2 ^ 64"
    using st by (auto simp: stream_static_def)
  have law: "files_law K V" "v_good V w" using ok_world [OF okw] by auto
  obtain r1 w1 where o: "file_open K (sh_path ?sh) DirectRead w = (r1, w1)"
    by (cases "file_open K (sh_path ?sh) DirectRead w")
  have reach: "\<not> (length (ss_order s) \<le> ss_next s \<or> length (ss_shards s) \<le> ?i)" using more i by simp
  have "DirectRead = ReadOnly \<or> DirectRead = DirectRead" by simp
  from file_open_correct [OF law this o] show ?thesis
  proof (elim disjE exE conjE)
    fix e assume e: "r1 = Inl e" "quiet V w w1"
    have "open_shard K ops s w = Some (Inl e, s, w1)"
      using reach o e(1) by (simp add: open_shard_def Let_def)
    moreover have "ok w1" by (rule ok_quiet [OF okw quiet_good [OF e(2)]])
    moreover have "owns_file V D s w1" using own e(2) by (simp add: owns_file_def quiet_def)
    moreover have "can_close s" using idle by (simp add: can_close_def)
    ultimately show ?thesis by auto
  next
    fix f c assume f: "r1 = Inr f" "v_files V (sh_path ?sh) = Some c" "reads_from V f c w1"
      "v_fds V w (file_fd f) = None" "v_fds V w1 = (v_fds V w)(file_fd f \<mapsto> c)"
    let ?block = "file_alignment f"
    let ?target = "segment_target (ss_options s) ?block"
    let ?segment = "?target - ?target mod ?block"
    have o': "file_open K (sh_path ?sh) DirectRead w = (Inr f, w1)" using o f(1) by simp
    have block: "?block \<noteq> 0" "?block \<le> n" using file_open_block [OF law(1) blk law(2) o'] by auto
    have seg': "?block \<le> ?segment" by (rule segment_holds_block [OF seg [unfolded options_fit_def, THEN conjunct1] block])
    obtain r2 s1 w2 where p: "prepare_buffers K ?block ?segment s w1 = (r2, s1, w2)"
      by (metis prod.exhaust)
    from prepare_buffers_correct [OF law(1) reads_from_good [OF f(3)] st idle(1) block(1) seg' segment_below_limit p]
    have q2: "quiet V w1 w2" and file1: "ss_file s1 = ss_file s" and none1: "ss_backend s1 = None"
      and s1: "r2 = Inr () \<Longrightarrow> buffers_ok s1 \<and> True \<in> set (ss_free s1) \<and> ss_buffers s1 \<noteq> [] \<and>
        (\<exists>m fs. s1 = s\<lparr>ss_buffers := m, ss_free := fs, ss_block := ?block, ss_segment := ?segment\<rparr>)"
      using idle(2) by auto
    have ok2: "ok w2" by (rule ok_quiet [OF okw quiet_good [OF q2]])
    have fd: "0 \<le> file_fd f" "v_fds V w2 (file_fd f) = Some c"
      using f(3) q2 by (auto simp: reads_from_def quiet_def)
    have fds2: "v_fds V w2 = D(file_fd f \<mapsto> c)" "D (file_fd f) = None"
      using f(4,5) q2 D by (simp_all add: quiet_def)
    have failed: "ok (snd (file_close K f u)) \<and> owns_file V D s1 (snd (file_close K f u)) \<and> can_close s1"
      if "ok u" "v_fds V u = v_fds V w2" for u
    proof -
      have "files_law K V" "v_good V u" using ok_world [OF that(1)] by auto
      from close_lawD [OF files_lawD(2) [OF this(1)] this(2)] ok_quiet [OF that(1)] that(2) fds2 fd(1)
      show ?thesis using idle(3) file1 none1
        by (auto simp: file_close_def owns_file_def fun_eq_iff can_close_def)
    qed
    show ?thesis
    proof (cases r2)
      case (Inl e)
      have "open_shard K ops s w = Some (Inl e, s1, snd (file_close K f w2))"
        using reach o' block(1) p Inl by (simp add: open_shard_def Let_def)
      with failed [OF ok2 refl] show ?thesis by auto
    next
      case (Inr u)
      then have r2: "r2 = Inr ()" by simp
      from s1 [OF r2] obtain m fs where bufs: "buffers_ok s1" "True \<in> set (ss_free s1)" "ss_buffers s1 \<noteq> []"
        and s1': "s1 = s\<lparr>ss_buffers := m, ss_free := fs, ss_block := ?block, ss_segment := ?segment\<rparr>"
        by blast
      let ?o = "\<lparr>bo_queue_depth = ss_read_depth s1, bo_threads = min (ss_read_depth s1) 8\<rparr>"
      obtain r3 w3 where b: "bk_open ops (file_fd f) ?o w2 = (r3, w3)"
        by (cases "bk_open ops (file_fd f) ?o w2")
      have fdc: "fds w2 (file_fd f) = Some c" using fd(2) by (simp add: fds_view)
      from open_law [OF ok2 fd(1) fdc b] have ok3: "ok w3" and fds3: "v_fds V w3 = v_fds V w2"
        and nb: "\<And>b m. r3 = Inr b \<Longrightarrow> pend b = [] \<and> binv (file_fd f) c b m w3"
        by (auto simp: fds_view)
      show ?thesis
      proof (cases r3)
        case (Inl e)
        have "open_shard K ops s w = Some (Inl e, s1, snd (file_close K f w3))"
          using reach o' block(1) p r2 b Inl by (simp add: open_shard_def Let_def)
        with failed [OF ok3 fds3] show ?thesis by auto
      next
        case (Inr bk)
        let ?s = "s1\<lparr>ss_file := fst (file_move f), ss_backend := Some bk, ss_window_end := shard_end ?sh,
          ss_next_offset := sh_offset ?sh, ss_open := True\<rparr>"
        have nof: "\<not> 0 \<le> file_fd (ss_file s1)" "ss_backend s1 = None" "ss_pending s1 = []"
          using idle file1 s1' by (simp_all add: is_open_def)
        have go: "open_shard K ops s w = Some (Inr (), ?s, w3)"
          using reach o' block(1) p r2 b Inr nof
          by (simp add: open_shard_def Let_def file_move_assign_def file_close_def file_move_def)
        have mv: "file_fd (fst (file_move f)) = file_fd f" by (simp add: file_move_def)
        have cur: "current_shard ?s = ?sh" using s1' by (simp add: current_shard_def)
        have pos: "stream_pos ?s = sh_offset ?sh" using nof by (simp add: stream_pos_def)
        have wend: "unat (ss_window_end ?s) = unat (sh_offset ?sh) + unat (sh_length ?sh)"
          using valid by (simp add: shard_end_def u64_nat)
        have "buffers_ok ?s" using bufs(1) by (simp add: buffers_ok_def)
        then have pl: "pipeline_ok c ?s"
          using nof by (simp add: pipeline_ok_def stream_pos_def)
        have "in_flight ?s = []" using nof by (simp add: in_flight_def)
        then have "open_inv V pend binv c ?s w3"
          using more s1' f(2) cur fd mv fds3 pl nb [OF Inr] by (simp add: open_inv_def)
        moreover have "stream_static ?s"
          using st bufs \<open>buffers_ok ?s\<close> s1' by (simp add: stream_static_def)
        moreover have "owns_file V D ?s w3"
          using fds3 fds2 fd(1) mv by (auto simp: owns_file_def is_open_def)
        moreover have "open_rest V ?s = shard_content V ?sh"
          using f(2) cur pos wend by (simp add: open_rest_def shard_content_def)
        then have "stream_rest V ?s = stream_rest V s"
          using more closed s1' Cons_nth_drop_Suc [OF more, symmetric]
          by (simp add: stream_rest_def later_shards_def open_rest_def)
        moreover have "same_config s ?s" "ss_carry_size ?s = ss_carry_size s"
          using s1' by (simp_all add: same_config_def)
        moreover have "unat (ss_window_end ?s) - unat (stream_pos ?s) < 2 ^ 64"
          by (rule less_imp_diff_less) (use unat_u64_less [of "ss_window_end ?s"] in simp)
        then have "stream_left ?s < stream_left s"
          using closed s1' by (simp add: stream_left_def)
        ultimately show ?thesis using go ok3 open_can_close by blast
      qed
    qed
  qed
qed

lemma delivers_from:
  assumes "delivers s1 filled out n filled' out' s'" and "stream_rest V s1 = stream_rest V s"
    and "same_config s s1"
  shows "delivers s filled out n filled' out' s'"
  using assms unfolding delivers_def by (auto intro: same_config_trans)

lemma delivers_nothing:
  assumes "stream_rest V s' = stream_rest V s" and "same_config s s'" and "filled \<le> length out"
  shows "delivers s filled out 0 filled out s'"
  using assms by (simp add: delivers_def overwrite_Nil)

lemma delivers_append:
  assumes "delivers s filled out n f1 o1 s1" and "delivers s1 f1 o1 k f2 o2 s2"
  shows "delivers s filled out (n + k) f2 o2 s2"
proof -
  from assms(1) have 1: "f1 = filled + n" "filled + n \<le> length out" "n \<le> length (stream_rest V s)"
    "o1 = overwrite filled (take n (stream_rest V s)) out" "stream_rest V s1 = drop n (stream_rest V s)"
    "same_config s s1" by (simp_all add: delivers_def)
  from assms(2) have 2: "f2 = f1 + k" "f1 + k \<le> length o1" "k \<le> length (stream_rest V s1)"
    "o2 = overwrite f1 (take k (stream_rest V s1)) o1" "stream_rest V s2 = drop k (stream_rest V s1)"
    "same_config s1 s2" by (simp_all add: delivers_def)
  have len: "length (take n (stream_rest V s)) = n" using 1(3) by simp
  have "filled \<le> length out" using 1(2) by simp
  then have "o2 = overwrite filled (take n (stream_rest V s) @ take k (drop n (stream_rest V s))) out"
    using overwrite_overwrite [of filled out "take n (stream_rest V s)"] len 1 2 by simp
  moreover have "length o1 = length out" using 1(2,4) len by (simp add: length_overwrite)
  moreover have "drop k (drop n (stream_rest V s)) = drop (n + k) (stream_rest V s)"
    by (simp add: add.commute)
  ultimately show ?thesis
    unfolding delivers_def take_add using 1 2 same_config_trans [OF 1(6) 2(6)] by simp
qed

text \<open>How a turn of the loop ends.\<close>

definition turn ::
  "(int \<Rightarrow> byte list option) \<Rightarrow> 'a stream \<Rightarrow> nat \<Rightarrow> byte list \<Rightarrow>
     progress \<Rightarrow> nat \<Rightarrow> byte list \<Rightarrow> 'a stream \<Rightarrow> 'b \<Rightarrow> bool" where
  "turn D s filled out p filled' out' s' w' \<longleftrightarrow> ok w' \<and> owns_file V D s' w' \<and>
     (case p of
        Fail e \<Rightarrow> filled' = filled \<and> out' = out \<and> can_close s'
      | Continue \<Rightarrow> (\<exists>n. delivers s filled out n filled' out' s') \<and> stream_inv V ok pend binv s' w' \<and>
          ss_carry_size s' = 0 \<and> stream_left s' < stream_left s
      | Break \<Rightarrow> (\<exists>n. delivers s filled out n filled' out' s') \<and> stream_inv V ok pend binv s' w' \<and>
          (filled' = length out \<or> stream_rest V s' = [] \<and> \<not> ss_open s'))"

lemma read_open_correct:
  assumes inv: "open_inv V pend binv c s w" and st: "stream_static s" and own: "owns_file V D s w"
    and room: "filled < length out" and carry: "ss_carry_size s = 0"
    and fit: "options_fit len_ok (ss_options s) n"
  shows "\<exists>p filled' out' s' w'. read_open K ops filled out s w = Some (p, filled', out', s', w') \<and>
    turn D s filled out p filled' out' s' w'"
proof -
  from fill_pipeline_correct [OF inv st fit] obtain r s1 w1 where
    f: "fill_pipeline ops s w = Some (r, s1, w1)" "ok w1" "v_fds V w1 = v_fds V w"
      "ss_file s1 = ss_file s" and cl1: "can_close s1"
    and post: "r = Inr () \<longrightarrow> open_inv V pend binv c s1 w1 \<and> stream_static s1 \<and> stream_pos s1 = stream_pos s \<and>
       (\<exists>b m fs ps stop. s1 = s\<lparr>ss_backend := b, ss_buffers := m, ss_free := fs,
          ss_pending := ps, ss_next_offset := stop\<rparr>) \<and>
       (ss_pending s1 = [] \<longrightarrow> ss_window_end s1 \<le> ss_next_offset s1)" by blast
  have own1: "owns_file V D s1 w1" using own f(3,4) by (simp add: owns_file_def)
  show ?thesis
  proof (cases r)
    case (Inl e)
    with f own1 cl1 show ?thesis by (auto simp: read_open_def turn_def)
  next
    case (Inr u)
    then have r: "r = Inr ()" by simp
    with post obtain b m fs ps stop where inv1: "open_inv V pend binv c s1 w1" and st1: "stream_static s1"
      and pos1: "stream_pos s1 = stream_pos s" and stop: "ss_pending s1 = [] \<longrightarrow> ss_window_end s1 \<le> ss_next_offset s1"
      and s1: "s1 = s\<lparr>ss_backend := b, ss_buffers := m, ss_free := fs, ss_pending := ps, ss_next_offset := stop\<rparr>"
      by blast
    have conf1: "same_config s s1" and carry1: "ss_carry_size s1 = 0"
      using s1 carry by (simp_all add: same_config_def)
    have rest1: "stream_rest V s1 = stream_rest V s" and left1: "stream_left s1 = stream_left s"
      using pos1 s1 by (simp_all add: stream_rest_def open_rest_def stream_left_def)
    show ?thesis
    proof (cases "ss_pending s1 = []")
      case True
      have "buffers_ok s1" "ss_read_depth s1 \<noteq> 0"
        using inv1 st1 by (simp_all add: open_inv_def pipeline_ok_def stream_static_def)
      then have "ss_buffers s1 \<noteq> []" by (auto simp: buffers_ok_def unat_eq_0)
      then have free: "True \<in> set (ss_free s1)" using st1 True by (simp add: stream_static_def)
      from close_shard_correct [OF inv1 st1 free own1] obtain s2 w2 where
        cl: "close_shard K ops s1 w1 = Some (s2, w2)" "stream_inv V ok pend binv s2 w2"
          "owns_file V D s2 w2" "\<not> ss_open s2" "same_config s1 s2" "later_shards s2 = later_shards s1"
          "ss_carry s2 = ss_carry s1" "ss_carry_size s2 = ss_carry_size s1"
          "stream_left s2 < stream_left s1" by blast
      have "stream_pos s1 = ss_next_offset s1" using True by (simp add: stream_pos_def)
      then have "open_rest V s1 = []" using stop True by (simp add: open_rest_def u64_le_nat bytes_simps)
      then have "stream_rest V s2 = stream_rest V s1"
        using cl by (simp add: stream_rest_def open_rest_def)
      then have "delivers s filled out 0 filled out s2"
        using rest1 conf1 cl(5) room by (intro delivers_nothing) (auto intro: same_config_trans)
      moreover have "read_open K ops filled out s w = Some (Continue, filled, out, s2, w2)"
        using f(1) r True cl(1) by (simp add: read_open_def)
      moreover have "ok w2" using cl(2) by (simp add: stream_inv_def)
      ultimately show ?thesis using cl left1 carry1 by (auto simp: turn_def)
    next
      case False
      from await_front_correct [OF inv1 st1 False] obtain r2 s2 w2 where
        aw: "await_front ops s1 w1 = Some (r2, s2, w2)" "ok w2" "v_fds V w2 = v_fds V w1"
          "ss_file s2 = ss_file s1" and cl2: "can_close s2"
        and post2: "r2 = Inr () \<longrightarrow> open_inv V pend binv c s2 w2 \<and> stream_static s2 \<and> ss_pending s2 \<noteq> [] \<and>
          pe_done (hd (ss_pending s2)) \<and> stream_pos s2 = stream_pos s1 \<and>
          (\<exists>b m ps. s2 = s1\<lparr>ss_backend := b, ss_buffers := m, ss_pending := ps\<rparr>)" by blast
      have own2: "owns_file V D s2 w2" using own1 aw(3,4) by (simp add: owns_file_def)
      show ?thesis
      proof (cases r2)
        case (Inl e)
        with f(1) r False aw own2 cl2 show ?thesis by (auto simp: read_open_def turn_def)
      next
        case (Inr u)
        then have r2: "r2 = Inr ()" by simp
        with post2 obtain b2 m2 ps2 where inv2: "open_inv V pend binv c s2 w2" "stream_static s2"
          "ss_pending s2 \<noteq> []" "pe_done (hd (ss_pending s2))" and pos2: "stream_pos s2 = stream_pos s1"
          and s2: "s2 = s1\<lparr>ss_backend := b2, ss_buffers := m2, ss_pending := ps2\<rparr>" by blast
        have conf2: "same_config s s2" and carry2: "ss_carry_size s2 = 0"
          using conf1 s2 carry1 by (simp_all add: same_config_def)
        have "stream_rest V s2 = stream_rest V s1" "stream_left s2 = stream_left s1"
          using pos2 s2 by (simp_all add: stream_rest_def open_rest_def stream_left_def)
        then have rest2: "stream_rest V s2 = stream_rest V s" and left2: "stream_left s2 = stream_left s"
          using rest1 left1 by simp_all
        from consume_front_correct [OF inv2 own2 room carry2] obtain p n filled' out' s' w' where
          c: "consume_front K ops filled out s2 w2 = Some (p, filled', out', s', w')"
            "delivers s2 filled out n filled' out' s'" "stream_inv V ok pend binv s' w'" "owns_file V D s' w'"
          and p: "p = Continue \<and> ss_carry_size s' = 0 \<and> stream_left s' < stream_left s2 \<or>
            p = Break \<and> filled' = length out" by blast
        have "delivers s filled out n filled' out' s'" by (rule delivers_from [OF c(2) rest2 conf2])
        moreover have "read_open K ops filled out s w = Some (p, filled', out', s', w')"
          using f(1) r False aw(1) r2 c(1) by (simp add: read_open_def)
        moreover have "ok w'" using c(3) by (simp add: stream_inv_def)
        ultimately show ?thesis using p c left2 by (auto simp: turn_def)
      qed
    qed
  qed
qed

lemma read_step_correct:
  assumes inv: "stream_inv V ok pend binv s w" and own: "owns_file V D s w"
    and room: "filled < length out" and carry: "ss_carry_size s = 0"
    and blk: "block_law K V n" and seg: "options_fit len_ok (ss_options s) n"
  shows "\<exists>p filled' out' s' w'. read_step K ops filled out s w = Some (p, filled', out', s', w') \<and>
    turn D s filled out p filled' out' s' w'"
proof (cases "ss_open s")
  case True
  with inv obtain c where "open_inv V pend binv c s w" "stream_static s" by (auto simp: stream_inv_def)
  from read_open_correct [OF this own room carry seg] True show ?thesis by (simp add: read_step_def)
next
  case False
  show ?thesis
  proof (cases "ss_next s < length (ss_order s)")
    case False
    have "stream_rest V s = []"
      using False \<open>\<not> ss_open s\<close> carry by (simp add: stream_rest_def open_rest_def later_shards_def)
    moreover have "delivers s filled out 0 filled out s"
      using room by (intro delivers_nothing) (simp_all add: same_config_def)
    moreover have "ok w" using inv by (simp add: stream_inv_def)
    ultimately show ?thesis
      using False \<open>\<not> ss_open s\<close> inv own by (auto simp: read_step_def turn_def)
  next
    case True
    from open_shard_correct [OF inv False True own blk seg] obtain r s1 w1 where
      o: "open_shard K ops s w = Some (r, s1, w1)" "ok w1" "owns_file V D s1 w1" "can_close s1"
      and post: "r = Inr () \<longrightarrow> (\<exists>c. open_inv V pend binv c s1 w1) \<and> stream_static s1 \<and>
       stream_rest V s1 = stream_rest V s \<and> same_config s s1 \<and>
       ss_carry_size s1 = ss_carry_size s \<and> stream_left s1 < stream_left s" by blast
    show ?thesis
    proof (cases r)
      case (Inl e)
      with o False True show ?thesis by (auto simp: read_step_def turn_def)
    next
      case (Inr u)
      then have r: "r = Inr ()" by simp
      with post carry obtain c where s1: "open_inv V pend binv c s1 w1" "stream_static s1"
        "stream_rest V s1 = stream_rest V s" "same_config s s1" "ss_carry_size s1 = 0"
        "stream_left s1 < stream_left s" by auto
      have "options_fit len_ok (ss_options s1) n" using seg s1(4) by (simp add: same_config_def)
      from read_open_correct [OF s1(1,2) o(3) room s1(5) this] obtain p filled' out' s' w' where
        p: "read_open K ops filled out s1 w1 = Some (p, filled', out', s', w')"
          "turn D s1 filled out p filled' out' s' w'" by blast
      have "turn D s filled out p filled' out' s' w'"
        using p(2) s1(6)
        by (cases p) (fastforce simp: turn_def intro: delivers_from [OF _ s1(3,4)])+
      with p(1) o(1) r False True show ?thesis by (simp add: read_step_def)
    qed
  qed
qed

text \<open>The loop of \<open>read\<close> returns, with as many bytes as fit and are left.\<close>

lemma read_loop_correct:
  "stream_inv V ok pend binv s w \<Longrightarrow> owns_file V D s w \<Longrightarrow> filled \<le> length out \<Longrightarrow>
   (filled < length out \<Longrightarrow> ss_carry_size s = 0) \<Longrightarrow> block_law K V n \<Longrightarrow> options_fit len_ok (ss_options s) n \<Longrightarrow>
   \<exists>r out' s' w'. read_loop K ops filled out s w = Some (r, out', s', w') \<and> ok w' \<and> owns_file V D s' w' \<and>
     length out' = length out \<and> can_close s' \<and>
     (\<forall>m. r = Inr m \<longrightarrow> stream_inv V ok pend binv s' w' \<and> (m < length out \<longrightarrow> \<not> ss_open s') \<and>
        delivers s filled out (min (length out - filled) (length (stream_rest V s))) m out' s')"
proof (induction "stream_left s" arbitrary: filled out s w rule: less_induct)
  case less
  note inv = less.prems(1) and own = less.prems(2) and room = less.prems(3)
  show ?case
  proof (cases "filled < length out")
    case False
    then have "read_loop K ops filled out s w = Some (Inr filled, out, s, w)"
      by (subst read_loop.simps) simp
    moreover have "min (length out - filled) (length (stream_rest V s)) = 0" using False by simp
    moreover have "delivers s filled out 0 filled out s"
      using room by (intro delivers_nothing) (simp_all add: same_config_def)
    moreover have "ok w" using inv by (simp add: stream_inv_def)
    ultimately show ?thesis using inv own False inv_can_close [OF inv] by auto
  next
    case True
    from read_step_correct [OF inv own True less.prems(4) [OF True] less.prems(5,6)]
    obtain p f1 o1 s1 w1 where
      step: "read_step K ops filled out s w = Some (p, f1, o1, s1, w1)"
      and t: "turn D s filled out p f1 o1 s1 w1" by blast
    have base: "ok w1" "owns_file V D s1 w1" using t by (simp_all add: turn_def)
    show ?thesis
    proof (cases p)
      case (Fail e)
      then have "read_loop K ops filled out s w = Some (Inl e, o1, s1, w1)"
        using True step by (subst read_loop.simps) simp
      with base t Fail show ?thesis by (auto simp: turn_def)
    next
      case Break
      with t obtain k where d: "delivers s filled out k f1 o1 s1" and inv1: "stream_inv V ok pend binv s1 w1"
        and stop: "f1 = length out \<or> stream_rest V s1 = [] \<and> \<not> ss_open s1" by (auto simp: turn_def)
      have k: "k = min (length out - filled) (length (stream_rest V s))"
        using d stop by (auto simp: delivers_def min_def)
      have "length o1 = length out" using d by (auto simp: delivers_def length_overwrite)
      moreover have "read_loop K ops filled out s w = Some (Inr f1, o1, s1, w1)"
        using True step Break by (subst read_loop.simps) simp
      ultimately show ?thesis using base inv1 d k stop inv_can_close [OF inv1] by auto
    next
      case Continue
      with t obtain k where d: "delivers s filled out k f1 o1 s1" and inv1: "stream_inv V ok pend binv s1 w1"
        and carry1: "ss_carry_size s1 = 0" and fewer: "stream_left s1 < stream_left s"
        by (auto simp: turn_def)
      have len1: "length o1 = length out" using d by (auto simp: delivers_def length_overwrite)
      have f1: "f1 = filled + k" "f1 \<le> length o1" "k \<le> length (stream_rest V s)"
        "stream_rest V s1 = drop k (stream_rest V s)" and opts: "ss_options s1 = ss_options s"
        using d len1 by (simp_all add: delivers_def same_config_def)
      from less.hyps [OF fewer inv1 base(2) f1(2) carry1 less.prems(5)] less.prems(6) opts
      obtain r out' s' w' where
        rec: "read_loop K ops f1 o1 s1 w1 = Some (r, out', s', w')" "ok w'" "owns_file V D s' w'"
          "length out' = length o1" "can_close s'"
        and post: "\<forall>m. r = Inr m \<longrightarrow> stream_inv V ok pend binv s' w' \<and> (m < length o1 \<longrightarrow> \<not> ss_open s') \<and>
          delivers s1 f1 o1 (min (length o1 - f1) (length (stream_rest V s1))) m out' s'" by auto
      have "k + min (length o1 - f1) (length (stream_rest V s1)) =
          min (length out - filled) (length (stream_rest V s))"
      proof -
        have "length o1 - f1 = length out - filled - k" "k \<le> length out - filled"
          using f1(1,2) len1 by simp_all
        then show ?thesis using f1(3,4) by (simp add: min_diff)
      qed
      then have "\<forall>m. r = Inr m \<longrightarrow> stream_inv V ok pend binv s' w' \<and> (m < length out \<longrightarrow> \<not> ss_open s') \<and>
          delivers s filled out (min (length out - filled) (length (stream_rest V s))) m out' s'"
        using post delivers_append [OF d] len1 by metis
      moreover have "read_loop K ops filled out s w = read_loop K ops f1 o1 s1 w1"
        using True step Continue by (subst read_loop.simps) simp
      ultimately show ?thesis using rec len1 by auto
    qed
  qed
qed

lemma stream_read_correct:
  assumes inv: "stream_inv V ok pend binv s w" and own: "owns_file V D s w"
    and blk: "block_law K V n" and seg: "options_fit len_ok (ss_options s) n"
  shows "\<exists>r out' s' w'. stream_read K ops out s w = Some (r, out', s', w') \<and> ok w' \<and>
    owns_file V D s' w' \<and> length out' = length out \<and> can_close s' \<and>
    (\<forall>m. r = Inr m \<longrightarrow> stream_inv V ok pend binv s' w' \<and> (m < length out \<longrightarrow> \<not> ss_open s') \<and>
       m = min (length out) (length (stream_rest V s)) \<and>
       out' = take m (stream_rest V s) @ drop m out \<and>
       stream_rest V s' = drop m (stream_rest V s) \<and> same_config s s')"
proof -
  have "ss_carry_size s \<le> length (ss_carry s)"
    using inv by (simp add: stream_inv_def stream_static_def)
  from flush_carry_correct [OF this, of out] obtain k carry where
    fl: "flush_carry out s = (k, overwrite 0 (take k (ss_carry s)) out,
      s\<lparr>ss_carry := carry, ss_carry_size := ss_carry_size s - k\<rparr>)"
    and k: "k = min (ss_carry_size s) (length out)" and c: "ss_carry_size s - k \<le> length carry"
      "take (ss_carry_size s - k) carry = drop k (take (ss_carry_size s) (ss_carry s))" by blast
  let ?s = "s\<lparr>ss_carry := carry, ss_carry_size := ss_carry_size s - k\<rparr>"
  let ?out = "overwrite 0 (take k (ss_carry s)) out"
  let ?C = "take (ss_carry_size s) (ss_carry s)"
  have lC: "length ?C = ss_carry_size s" using inv by (simp add: stream_inv_def stream_static_def)
  have takeC: "take k (ss_carry s) = take k ?C" using k by simp
  have inv': "stream_inv V ok pend binv ?s w"
    using inv c(1) by (auto simp: stream_inv_def stream_static_def open_inv_def)
  have own': "owns_file V D ?s w" using own by (simp add: owns_file_def)
  have len: "length ?out = length out" using k lC takeC by (simp add: length_overwrite)
  have rest: "stream_rest V ?s = drop k (stream_rest V s)"
    using c(2) k lC by (simp add: stream_rest_def)
  have takeR: "take k (stream_rest V s) = take k (ss_carry s)"
    using k lC takeC by (simp add: stream_rest_def)
  have d: "delivers s 0 out k k ?out ?s"
    using rest takeR k lC by (simp add: delivers_def same_config_def stream_rest_def)
  have seg': "options_fit len_ok (ss_options ?s) n" using seg by simp
  have fits: "k \<le> length ?out" using k len by simp
  have empty: "ss_carry_size ?s = 0" if "k < length ?out" using that k len by simp
  from read_loop_correct [OF inv' own' fits empty blk seg'] obtain r out' s' w' where
    r: "read_loop K ops k ?out ?s w = Some (r, out', s', w')" "ok w'" "owns_file V D s' w'"
      "length out' = length ?out" "can_close s'"
    and post: "\<forall>m. r = Inr m \<longrightarrow> stream_inv V ok pend binv s' w' \<and> (m < length ?out \<longrightarrow> \<not> ss_open s') \<and>
        delivers ?s k ?out (min (length ?out - k) (length (stream_rest V ?s))) m out' s'" by blast
  have "k \<le> length (stream_rest V s)" using k lC by (simp add: stream_rest_def)
  then have sum: "k + min (length ?out - k) (length (stream_rest V ?s)) =
      min (length out) (length (stream_rest V s))"
    unfolding rest len using k by (simp add: min_diff)
  have "stream_inv V ok pend binv s' w' \<and> (m < length out \<longrightarrow> \<not> ss_open s') \<and> m = min (length out) (length (stream_rest V s)) \<and>
       out' = take m (stream_rest V s) @ drop m out \<and>
       stream_rest V s' = drop m (stream_rest V s) \<and> same_config s s'" if "r = Inr m" for m
  proof -
    define M where "M = min (length out) (length (stream_rest V s))"
    from post that len have closed: "m < length out \<longrightarrow> \<not> ss_open s'"
      and "stream_inv V ok pend binv s' w'"
      and "delivers ?s k ?out (min (length ?out - k) (length (stream_rest V ?s))) m out' s'" by simp_all
    from delivers_append [OF d this(3)] this(2) have del: "delivers s 0 out M m out' s'"
      and inv'': "stream_inv V ok pend binv s' w'" unfolding sum M_def by simp_all
    have lM: "length (take M (stream_rest V s)) = M" by (simp add: M_def)
    have "m = M" "out' = overwrite 0 (take M (stream_rest V s)) out"
      "stream_rest V s' = drop M (stream_rest V s)" "same_config s s'"
      using del by (simp_all add: delivers_def)
    then show ?thesis using inv'' closed lM by (simp only: overwrite_def M_def [symmetric] take_0 append_Nil add_0)
  qed
  moreover have "stream_read K ops out s w = Some (r, out', s', w')"
    using fl r(1) by (simp add: stream_read_def)
  ultimately show ?thesis using r len by auto
qed

text \<open>Destroying a stream gives its descriptor back, and is undefined only while reads are in flight.\<close>

lemma stream_destroy_correct:
  assumes okw: "ok w" and own: "owns_file V D s w" and cl: "can_close s"
  shows "case stream_destroy K ops s w of
      None \<Rightarrow> \<exists>b. ss_backend s = Some b \<and> bk_in_flight ops b \<noteq> 0
    | Some w' \<Rightarrow> ok w' \<and> v_fds V w' = D \<and> (\<forall>b. ss_backend s = Some b \<longrightarrow> bk_in_flight ops b = 0)"
proof -
  have closes: "ok (snd (file_close K (ss_file s) u)) \<and> v_fds V (snd (file_close K (ss_file s) u)) = D"
    if u: "ok u" "v_fds V u = v_fds V w" for u
  proof (cases "is_open (ss_file s)")
    case False
    with u own show ?thesis by (simp add: file_close_def is_open_def owns_file_def)
  next
    case True
    have "files_law K V" "v_good V u" using ok_world [OF u(1)] by auto
    from close_lawD [OF files_lawD(2) [OF this(1)] this(2)] ok_quiet [OF u(1)] u(2) own True
    show ?thesis by (auto simp: file_close_def is_open_def owns_file_def fun_eq_iff)
  qed
  show ?thesis
  proof (cases "ss_backend s")
    case None
    with closes [OF okw refl] show ?thesis by (simp add: stream_destroy_def)
  next
    case (Some b)
    show ?thesis
    proof (cases "bk_in_flight ops b = 0")
      case False
      with Some show ?thesis by (simp add: stream_destroy_def)
    next
      case True
      have "closable b" using cl Some by (simp add: can_close_def)
      from idle_destroy_law [OF this True okw, of "[]"] obtain m u where
        u: "bk_destroy ops b [] w = Some (m, u)" "ok u" "fds u = fds w" by blast
      from closes [OF u(2)] u(1,3) Some True show ?thesis by (simp add: stream_destroy_def fds_view)
    qed
  qed
qed

end

section \<open>The start\<close>

lemma stream_init_inv:
  assumes "ok w" and "v_fds V w = D"
    and "\<forall>i \<in> set order. i < length shards \<and>
      unat (sh_offset (shards ! i)) + unat (sh_length (shards ! i)) < 2 ^ 64"
  shows "stream_inv V ok pend binv (stream_init shards order options) w"
    and "owns_file V D (stream_init shards order options) w"
    and "stream_rest V (stream_init shards order options) =
      concat (map (\<lambda>i. shard_content V (shards ! i)) order)"
proof -
  have "max (read_depth options) 1 \<noteq> 0"
  proof
    assume "max (read_depth options) 1 = 0"
    then have "(1 :: u64) \<le> 0" by (metis max.cobounded2)
    then show False by simp
  qed
  with assms show "stream_inv V ok pend binv (stream_init shards order options) w"
    by (simp add: stream_inv_def stream_static_def stream_init_def is_open_def file_none_def)
  from assms show "owns_file V D (stream_init shards order options) w"
    by (simp add: owns_file_def stream_init_def is_open_def file_none_def)
  show "stream_rest V (stream_init shards order options) =
      concat (map (\<lambda>i. shard_content V (shards ! i)) order)"
    by (simp add: stream_rest_def stream_init_def open_rest_def later_shards_def comp_def)
qed

end
