(* ===== verification/Channel.thy ===== *)
theory Channel
  imports Dsio_Prelude
begin

text \<open>
  \<open>fp::Channel\<close> of the ForgeFP library, which is not part of the repository: its operations are a record
  of functions, and what \<open>src/dataset.cpp\<close> relies on is \<open>channel_law\<close>. A channel is a bounded queue.
  \<open>send\<close> blocks while it is full and \<open>recv\<close> while it is empty; \<open>close\<close> wakes every waiting thread,
  sending to a closed channel throws, and receiving from a closed channel delivers what is left in
  it before it throws.
\<close>

section \<open>Channels\<close>

text \<open>How one call ends: it did its work, the thread has to wait, or it throws.\<close>

datatype 'r channel_result = Passed 'r | Blocked | Closed

record ('a, 'c) channel_ops =
  ch_new :: "u64 \<Rightarrow> 'c"
  ch_send :: "'a \<Rightarrow> 'c \<Rightarrow> 'c channel_result"
  ch_recv :: "'c \<Rightarrow> ('a \<times> 'c) channel_result"
  ch_close :: "'c \<Rightarrow> 'c"

text \<open>What a channel holds, oldest first, its capacity, and whether it is closed.\<close>

record ('a, 'c) channel_view =
  q_items :: "'c \<Rightarrow> 'a list"
  q_cap :: "'c \<Rightarrow> nat"
  q_closed :: "'c \<Rightarrow> bool"

definition channel_is :: "('a, 'c) channel_view \<Rightarrow> 'a list \<Rightarrow> nat \<Rightarrow> bool \<Rightarrow> 'c \<Rightarrow> bool" where
  "channel_is Q xs cap closed c \<longleftrightarrow> q_items Q c = xs \<and> q_cap Q c = cap \<and> q_closed Q c = closed"

definition channel_law :: "('a, 'c) channel_ops \<Rightarrow> ('a, 'c) channel_view \<Rightarrow> bool" where
  "channel_law C Q \<longleftrightarrow>
     (\<forall>n. channel_is Q [] (unat n) False (ch_new C n)) \<and>
     (\<forall>x c. if q_closed Q c then ch_send C x c = Closed
        else if length (q_items Q c) < q_cap Q c
        then \<exists>c'. ch_send C x c = Passed c' \<and> channel_is Q (q_items Q c @ [x]) (q_cap Q c) False c'
        else ch_send C x c = Blocked) \<and>
     (\<forall>c. case q_items Q c of
        x # xs \<Rightarrow> \<exists>c'. ch_recv C c = Passed (x, c') \<and> channel_is Q xs (q_cap Q c) (q_closed Q c) c'
      | [] \<Rightarrow> ch_recv C c = (if q_closed Q c then Closed else Blocked)) \<and>
     (\<forall>c. channel_is Q (q_items Q c) (q_cap Q c) True (ch_close C c))"

lemma channel_new:
  "channel_law C Q \<Longrightarrow> q_items Q (ch_new C n) = [] \<and> q_cap Q (ch_new C n) = unat n \<and> \<not> q_closed Q (ch_new C n)"
  by (auto simp: channel_law_def channel_is_def)

lemma channel_send:
  assumes "channel_law C Q"
  shows "ch_send C x c = Passed c' \<Longrightarrow> \<not> q_closed Q c \<and> length (q_items Q c) < q_cap Q c \<and>
      q_items Q c' = q_items Q c @ [x] \<and> q_cap Q c' = q_cap Q c \<and> \<not> q_closed Q c'"
    and "ch_send C x c = Closed \<longleftrightarrow> q_closed Q c"
    and "ch_send C x c = Blocked \<longleftrightarrow> \<not> q_closed Q c \<and> q_cap Q c \<le> length (q_items Q c)"
proof -
  have *: "if q_closed Q c then ch_send C x c = Closed
        else if length (q_items Q c) < q_cap Q c
        then \<exists>c'. ch_send C x c = Passed c' \<and> channel_is Q (q_items Q c @ [x]) (q_cap Q c) False c'
        else ch_send C x c = Blocked"
    using assms unfolding channel_law_def by blast
  show "ch_send C x c = Passed c' \<Longrightarrow> \<not> q_closed Q c \<and> length (q_items Q c) < q_cap Q c \<and>
      q_items Q c' = q_items Q c @ [x] \<and> q_cap Q c' = q_cap Q c \<and> \<not> q_closed Q c'"
    using * by (auto simp: channel_is_def split: if_splits)
  show "ch_send C x c = Closed \<longleftrightarrow> q_closed Q c"
    using * by (auto split: if_splits)
  show "ch_send C x c = Blocked \<longleftrightarrow> \<not> q_closed Q c \<and> q_cap Q c \<le> length (q_items Q c)"
    using * by (auto split: if_splits)
qed

lemma channel_recv:
  assumes "channel_law C Q"
  shows "ch_recv C c = Passed (x, c') \<Longrightarrow>
      q_items Q c = x # q_items Q c' \<and> q_cap Q c' = q_cap Q c \<and> q_closed Q c' = q_closed Q c"
    and "ch_recv C c = Closed \<longleftrightarrow> q_items Q c = [] \<and> q_closed Q c"
    and "ch_recv C c = Blocked \<longleftrightarrow> q_items Q c = [] \<and> \<not> q_closed Q c"
proof -
  have *: "case q_items Q c of
        x # xs \<Rightarrow> \<exists>c'. ch_recv C c = Passed (x, c') \<and> channel_is Q xs (q_cap Q c) (q_closed Q c) c'
      | [] \<Rightarrow> ch_recv C c = (if q_closed Q c then Closed else Blocked)"
    using assms unfolding channel_law_def by blast
  show "ch_recv C c = Passed (x, c') \<Longrightarrow>
      q_items Q c = x # q_items Q c' \<and> q_cap Q c' = q_cap Q c \<and> q_closed Q c' = q_closed Q c"
    using * by (auto simp: channel_is_def split: list.splits if_splits)
  show "ch_recv C c = Closed \<longleftrightarrow> q_items Q c = [] \<and> q_closed Q c"
    using * by (auto split: list.splits if_splits)
  show "ch_recv C c = Blocked \<longleftrightarrow> q_items Q c = [] \<and> \<not> q_closed Q c"
    using * by (auto split: list.splits if_splits)
qed

lemma channel_close:
  "channel_law C Q \<Longrightarrow> q_items Q (ch_close C c) = q_items Q c \<and> q_cap Q (ch_close C c) = q_cap Q c \<and>
     q_closed Q (ch_close C c)"
  by (auto simp: channel_law_def channel_is_def)

section \<open>A channel that keeps the law\<close>

text \<open>For concrete runs: a list with a capacity.\<close>

record 'a list_channel =
  lc_items :: "'a list"
  lc_cap :: nat
  lc_closed :: bool

definition list_channel_ops :: "('a, 'a list_channel) channel_ops" where
  "list_channel_ops = \<lparr>
     ch_new = (\<lambda>n. \<lparr>lc_items = [], lc_cap = unat n, lc_closed = False\<rparr>),
     ch_send = (\<lambda>x c. if lc_closed c then Closed
        else if length (lc_items c) < lc_cap c then Passed (c\<lparr>lc_items := lc_items c @ [x]\<rparr>)
        else Blocked),
     ch_recv = (\<lambda>c. case lc_items c of
          x # xs \<Rightarrow> Passed (x, c\<lparr>lc_items := xs\<rparr>)
        | [] \<Rightarrow> if lc_closed c then Closed else Blocked),
     ch_close = (\<lambda>c. c\<lparr>lc_closed := True\<rparr>)\<rparr>"

definition list_channel_view :: "('a, 'a list_channel) channel_view" where
  "list_channel_view = \<lparr>q_items = lc_items, q_cap = lc_cap, q_closed = lc_closed\<rparr>"

lemma list_channel_law: "channel_law list_channel_ops list_channel_view"
  by (auto simp: channel_law_def channel_is_def list_channel_ops_def list_channel_view_def
      split: list.split)

end
