(* ===== verification/Batches.thy ===== *)
theory Batches
  imports ShardReader Channel
begin

text \<open>
  \<open>src/dataset.cpp\<close>, the function \<open>for_each_batch\<close>: a producer thread reads batches of the stream
  ahead of the consumer, which is the calling thread and gives them to the callback. The threads
  pass batches through two channels of ForgeFP, \<open>ready\<close> from the producer to the consumer and \<open>free\<close> back.

  Each thread is a function that makes its next step, and the threads interleave in any order.
  Between two steps a thread is at a point of its code, which holds the batch it owns there. The functions
  take the operations of the stream, the channels and the callback as arguments: \<open>rd\<close> and
  \<open>destroy\<close> are the \<open>read\<close> and the destructor of the stream, the callback returns whether to go on, or
  nothing when it throws.
\<close>

section \<open>Definitions\<close>

record batch =
  ba_bytes :: "byte list"
  ba_size :: nat

text \<open>\<open>PLost\<close> and \<open>CLost\<close>: a call that does not return, or an access outside an object.\<close>

datatype producer =
    PRecv \<comment> \<open>at \<open>free.recv ()\<close>\<close>
  | PRead batch
  | PSetError error
  | PClose
  | PSend batch \<comment> \<open>at \<open>ready.send (batch)\<close>\<close>
  | PDone
  | PLost

datatype consumer =
    CRecv \<comment> \<open>at \<open>ready.recv ()\<close>\<close>
  | CCall batch
  | CRecycle batch \<comment> \<open>at \<open>free.send (batch)\<close>\<close>
  | CCloseFree
  | CCloseReady
  | CTake
  | CThrowFree
  | CThrowReady
  | CJoin "unit outcome option" \<comment> \<open>the destructors, with the result; \<open>None\<close> when an exception leaves the function\<close>
  | CReturned "unit outcome"
  | CThrew
  | CLost "unit outcome option"

text \<open>\<open>bt_given\<close> records what the callback has been given so far.\<close>

record ('c, 's, 'u, 'w) batches =
  bt_ready :: 'c
  bt_free :: 'c
  bt_error :: "error option"
  bt_stream :: 's
  bt_world :: 'w
  bt_user :: 'u
  bt_keep_going :: bool
  bt_producer :: producer
  bt_consumer :: consumer
  bt_given :: "byte list list"

text \<open>\<open>SharedError::set\<close> keeps the first error.\<close>

definition shared_error_set :: "error \<Rightarrow> error option \<Rightarrow> error option" where
  "shared_error_set e shared = (case shared of None \<Rightarrow> Some e | Some e0 \<Rightarrow> Some e0)"

text \<open>\<open>first (batch.size)\<close> of the batch's bytes; \<open>None\<close> when the size is past their end.\<close>

definition batch_span :: "batch \<Rightarrow> byte list option" where
  "batch_span b = (if ba_size b \<le> length (ba_bytes b) then Some (take (ba_size b) (ba_bytes b)) else None)"

text \<open>The step of the worker; \<open>None\<close> when it is blocked or has ended.\<close>

definition producer_step ::
  "(byte list \<Rightarrow> 's \<Rightarrow> 'w \<Rightarrow> (nat outcome \<times> byte list \<times> 's \<times> 'w) option) \<Rightarrow> (batch, 'c) channel_ops \<Rightarrow>
     ('c, 's, 'u, 'w) batches \<Rightarrow> ('c, 's, 'u, 'w) batches option" where
  "producer_step rd C s =
     (case bt_producer s of
        PRecv \<Rightarrow>
          (case ch_recv C (bt_free s) of
             Blocked \<Rightarrow> None
           | Closed \<Rightarrow> Some (s\<lparr>bt_producer := PDone\<rparr>)
           | Passed (b, free') \<Rightarrow> Some (s\<lparr>bt_free := free', bt_producer := PRead b\<rparr>))
      | PRead b \<Rightarrow>
          (case rd (ba_bytes b) (bt_stream s) (bt_world s) of
             None \<Rightarrow> Some (s\<lparr>bt_producer := PLost\<rparr>)
           | Some (got, bytes', stream', world') \<Rightarrow>
               Some (s\<lparr>bt_stream := stream', bt_world := world', bt_producer :=
                 (case got of
                    Inl e \<Rightarrow> PSetError e
                  | Inr n \<Rightarrow> if n = 0 then PClose else PSend \<lparr>ba_bytes = bytes', ba_size = n\<rparr>)\<rparr>))
      | PSetError e \<Rightarrow> Some (s\<lparr>bt_error := shared_error_set e (bt_error s), bt_producer := PClose\<rparr>)
      | PClose \<Rightarrow> Some (s\<lparr>bt_ready := ch_close C (bt_ready s), bt_producer := PDone\<rparr>)
      | PSend b \<Rightarrow>
          (case ch_send C b (bt_ready s) of
             Blocked \<Rightarrow> None
           | Closed \<Rightarrow> Some (s\<lparr>bt_producer := PDone\<rparr>)
           | Passed ready' \<Rightarrow> Some (s\<lparr>bt_ready := ready', bt_producer := PRecv\<rparr>))
      | PDone \<Rightarrow> None
      | PLost \<Rightarrow> None)"

text \<open>
  The step of the calling thread. A \<open>free.send\<close> that throws would leave through the handler that
  closes the channels, as a throwing callback does. At \<open>CJoin\<close> the destructor of the pool waits
  for the worker, then the stream is destroyed.
\<close>

definition consumer_step ::
  "('s \<Rightarrow> 'w \<Rightarrow> 'w option) \<Rightarrow> (batch, 'c) channel_ops \<Rightarrow> (byte list \<Rightarrow> 'u \<Rightarrow> bool option \<times> 'u) \<Rightarrow>
     ('c, 's, 'u, 'w) batches \<Rightarrow> ('c, 's, 'u, 'w) batches option" where
  "consumer_step destroy C callback s =
     (case bt_consumer s of
        CRecv \<Rightarrow>
          (case ch_recv C (bt_ready s) of
             Blocked \<Rightarrow> None
           | Closed \<Rightarrow> Some (s\<lparr>bt_consumer := CCloseFree\<rparr>)
           | Passed (b, ready') \<Rightarrow> Some (s\<lparr>bt_ready := ready', bt_consumer := CCall b\<rparr>))
      | CCall b \<Rightarrow>
          (case batch_span b of
             None \<Rightarrow> Some (s\<lparr>bt_consumer := CLost None\<rparr>)
           | Some bytes \<Rightarrow>
               (case callback bytes (bt_user s) of (answer, user') \<Rightarrow>
                  let s1 = s\<lparr>bt_user := user', bt_given := bt_given s @ [bytes]\<rparr> in
                  (case answer of
                     None \<Rightarrow> Some (s1\<lparr>bt_consumer := CThrowFree\<rparr>)
                   | Some go \<Rightarrow> Some (s1\<lparr>bt_keep_going := go, bt_consumer := CRecycle b\<rparr>))))
      | CRecycle b \<Rightarrow>
          (case ch_send C b (bt_free s) of
             Blocked \<Rightarrow> None
           | Closed \<Rightarrow> Some (s\<lparr>bt_consumer := CThrowFree\<rparr>)
           | Passed free' \<Rightarrow> Some (s\<lparr>bt_free := free',
               bt_consumer := (if bt_keep_going s then CRecv else CCloseFree)\<rparr>))
      | CCloseFree \<Rightarrow> Some (s\<lparr>bt_free := ch_close C (bt_free s), bt_consumer := CCloseReady\<rparr>)
      | CCloseReady \<Rightarrow> Some (s\<lparr>bt_ready := ch_close C (bt_ready s), bt_consumer := CTake\<rparr>)
      | CTake \<Rightarrow> Some (s\<lparr>bt_consumer := CJoin (Some
            (case bt_error s of Some e \<Rightarrow> Inl e | None \<Rightarrow> Inr ()))\<rparr>)
      | CThrowFree \<Rightarrow> Some (s\<lparr>bt_free := ch_close C (bt_free s), bt_consumer := CThrowReady\<rparr>)
      | CThrowReady \<Rightarrow> Some (s\<lparr>bt_ready := ch_close C (bt_ready s), bt_consumer := CJoin None\<rparr>)
      | CJoin r \<Rightarrow>
          if bt_producer s \<noteq> PDone then None
          else (case destroy (bt_stream s) (bt_world s) of
              None \<Rightarrow> Some (s\<lparr>bt_consumer := CLost r\<rparr>)
            | Some world' \<Rightarrow> Some (s\<lparr>bt_world := world', bt_consumer :=
                (case r of None \<Rightarrow> CThrew | Some result \<Rightarrow> CReturned result)\<rparr>))
      | CReturned result \<Rightarrow> None
      | CThrew \<Rightarrow> None
      | CLost r \<Rightarrow> None)"

text \<open>The loop that puts the empty batches into \<open>free\<close>; \<open>None\<close> when it would block for ever.\<close>

fun fill_free :: "(batch, 'c) channel_ops \<Rightarrow> u64 \<Rightarrow> nat \<Rightarrow> 'c \<Rightarrow> 'c option" where
  "fill_free C size' 0 c = Some c"
| "fill_free C size' (Suc n) c =
     (case ch_send C \<lparr>ba_bytes = replicate (unat size') 0, ba_size = 0\<rparr> c of
        Passed c' \<Rightarrow> fill_free C size' n c'
      | _ \<Rightarrow> None)"

text \<open>The stream order: shard order, or a seeded shuffle by \<open>fp::Rng\<close>.\<close>

definition stream_order :: "(u64 \<Rightarrow> nat list \<Rightarrow> nat list) \<Rightarrow> batch_options \<Rightarrow> shard_set \<Rightarrow> nat list" where
  "stream_order shuffle options shards =
     (if seed options \<noteq> 0 then shuffle (seed options) [0..<length shards] else [0..<length shards])"

text \<open>
  \<open>for_each_batch\<close> up to the point where the worker runs: an error in the options, or the state from
  which the two threads start. (With the largest possible \<open>prefetch\<close> the capacity \<open>prefetch + 1\<close>
  wraps to zero, and the first \<open>send\<close> blocks.)
\<close>

definition for_each_batch ::
  "(batch, 'c) channel_ops \<Rightarrow> (u64 \<Rightarrow> nat list \<Rightarrow> nat list) \<Rightarrow> shard_set \<Rightarrow> batch_options \<Rightarrow> 'u \<Rightarrow> 'w \<Rightarrow>
     (error + ('c, 'b stream, 'u, 'w) batches) option" where
  "for_each_batch C shuffle shards options user w =
     (if batch_bytes options = 0 then Some (Inl (BatchError BatchBytesZero))
      else if prefetch options = 0 then Some (Inl (BatchError PrefetchZero))
      else if read_depth options = 0 then Some (Inl (BatchError ReadDepthZero))
      else do {
        free \<leftarrow> fill_free C (batch_bytes options) (unat (prefetch options) + 1)
          (ch_new C (prefetch options + 1));
        Some (Inr \<lparr>bt_ready = ch_new C (prefetch options), bt_free = free, bt_error = None,
          bt_stream = stream_init shards (stream_order shuffle options shards) options,
          bt_world = w, bt_user = user, bt_keep_going = True, bt_producer = PRecv,
          bt_consumer = CRecv, bt_given = []\<rparr>)
      })"

section \<open>Runs\<close>

inductive batch_step ::
  "(byte list \<Rightarrow> 's \<Rightarrow> 'w \<Rightarrow> (nat outcome \<times> byte list \<times> 's \<times> 'w) option) \<Rightarrow> ('s \<Rightarrow> 'w \<Rightarrow> 'w option) \<Rightarrow>
     (batch, 'c) channel_ops \<Rightarrow> (byte list \<Rightarrow> 'u \<Rightarrow> bool option \<times> 'u) \<Rightarrow>
     ('c, 's, 'u, 'w) batches \<Rightarrow> ('c, 's, 'u, 'w) batches \<Rightarrow> bool"
  for rd destroy C callback where
  produce: "producer_step rd C s = Some t \<Longrightarrow> batch_step rd destroy C callback s t"
| consume: "consumer_step destroy C callback s = Some t \<Longrightarrow> batch_step rd destroy C callback s t"

inductive_simps batch_step_iff: "batch_step rd destroy C callback s t"

text \<open>A run: states that follow each other by steps, with their number.\<close>

inductive batch_run ::
  "(byte list \<Rightarrow> 's \<Rightarrow> 'w \<Rightarrow> (nat outcome \<times> byte list \<times> 's \<times> 'w) option) \<Rightarrow> ('s \<Rightarrow> 'w \<Rightarrow> 'w option) \<Rightarrow>
     (batch, 'c) channel_ops \<Rightarrow> (byte list \<Rightarrow> 'u \<Rightarrow> bool option \<times> 'u) \<Rightarrow>
     ('c, 's, 'u, 'w) batches \<Rightarrow> nat \<Rightarrow> ('c, 's, 'u, 'w) batches \<Rightarrow> bool"
  for rd destroy C callback where
  start: "batch_run rd destroy C callback s 0 s"
| step: "batch_run rd destroy C callback s k t \<Longrightarrow> batch_step rd destroy C callback t t' \<Longrightarrow>
    batch_run rd destroy C callback s (Suc k) t'"

text \<open>A schedule chooses the thread that moves next, \<open>True\<close> for the worker; a blocked thread lets the turn pass.\<close>

fun run_schedule ::
  "(byte list \<Rightarrow> 's \<Rightarrow> 'w \<Rightarrow> (nat outcome \<times> byte list \<times> 's \<times> 'w) option) \<Rightarrow> ('s \<Rightarrow> 'w \<Rightarrow> 'w option) \<Rightarrow>
     (batch, 'c) channel_ops \<Rightarrow> (byte list \<Rightarrow> 'u \<Rightarrow> bool option \<times> 'u) \<Rightarrow>
     bool list \<Rightarrow> ('c, 's, 'u, 'w) batches \<Rightarrow> ('c, 's, 'u, 'w) batches" where
  "run_schedule rd destroy C callback [] s = s"
| "run_schedule rd destroy C callback (True # ps) s =
     run_schedule rd destroy C callback ps (case producer_step rd C s of None \<Rightarrow> s | Some t \<Rightarrow> t)"
| "run_schedule rd destroy C callback (False # ps) s =
     run_schedule rd destroy C callback ps (case consumer_step destroy C callback s of None \<Rightarrow> s | Some t \<Rightarrow> t)"

end
