(* ===== verification/BatchRun.thy ===== *)
theory BatchRun
  imports Batches
begin

text \<open>
  The two threads of \<open>for_each_batch\<close> over any source of bytes: what holds in every state that they
  reach. The source is the locale \<open>byte_source\<close>, which the shard stream interprets.
\<close>

section \<open>The state as the invariants see it\<close>

definition payload :: "batch \<Rightarrow> byte list" where
  "payload b = take (ba_size b) (ba_bytes b)"

fun producer_batch :: "producer \<Rightarrow> batch list" where
  "producer_batch (PRead b) = [b]"
| "producer_batch (PSend b) = [b]"
| "producer_batch _ = []"

fun filled_batch :: "producer \<Rightarrow> batch list" where
  "filled_batch (PSend b) = [b]"
| "filled_batch _ = []"

fun consumer_batch :: "consumer \<Rightarrow> batch list" where
  "consumer_batch (CCall b) = [b]"
| "consumer_batch (CRecycle b) = [b]"
| "consumer_batch _ = []"

fun unread_batch :: "consumer \<Rightarrow> batch list" where
  "unread_batch (CCall b) = [b]"
| "unread_batch _ = []"

text \<open>The worker is in its loop.\<close>

fun producer_live :: "producer \<Rightarrow> bool" where
  "producer_live PRecv = True"
| "producer_live (PRead b) = True"
| "producer_live (PSend b) = True"
| "producer_live _ = False"

text \<open>The consumer is in its loop; it has left the loop and not by an exception; it has closed \<open>free\<close>; \<open>ready\<close>.\<close>

fun consumer_active :: "consumer \<Rightarrow> bool" where
  "consumer_active CRecv = True"
| "consumer_active (CCall b) = True"
| "consumer_active (CRecycle b) = True"
| "consumer_active _ = False"

fun consumer_wrapping :: "consumer \<Rightarrow> bool" where
  "consumer_wrapping CCloseFree = True"
| "consumer_wrapping CCloseReady = True"
| "consumer_wrapping CTake = True"
| "consumer_wrapping (CJoin (Some r)) = True"
| "consumer_wrapping (CReturned r) = True"
| "consumer_wrapping (CLost (Some r)) = True"
| "consumer_wrapping _ = False"

fun closed_free :: "consumer \<Rightarrow> bool" where
  "closed_free CCloseReady = True"
| "closed_free CTake = True"
| "closed_free CThrowReady = True"
| "closed_free (CJoin r) = True"
| "closed_free (CReturned r) = True"
| "closed_free CThrew = True"
| "closed_free (CLost r) = True"
| "closed_free _ = False"

fun closed_ready :: "consumer \<Rightarrow> bool" where
  "closed_ready CTake = True"
| "closed_ready (CJoin r) = True"
| "closed_ready (CReturned r) = True"
| "closed_ready CThrew = True"
| "closed_ready (CLost r) = True"
| "closed_ready _ = False"

fun consumer_ended :: "consumer \<Rightarrow> bool" where
  "consumer_ended (CReturned r) = True"
| "consumer_ended CThrew = True"
| "consumer_ended (CLost r) = True"
| "consumer_ended _ = False"

lemma consumer_wrapping_simps [simp]:
  "consumer_wrapping (CJoin r) \<longleftrightarrow> r \<noteq> None" "consumer_wrapping (CLost r) \<longleftrightarrow> r \<noteq> None"
  by (cases r; simp)+

text \<open>The result that the consumer has computed.\<close>

fun consumer_result :: "consumer \<Rightarrow> unit outcome option" where
  "consumer_result (CJoin r) = r"
| "consumer_result (CReturned r) = Some r"
| "consumer_result (CLost r) = r"
| "consumer_result _ = None"

definition result_of :: "error option \<Rightarrow> unit outcome" where
  "result_of shared = (case shared of Some e \<Rightarrow> Inl e | None \<Rightarrow> Inr ())"

section \<open>Steps\<close>

text \<open>A step of the worker, with what the channels promise.\<close>

lemma producer_step_cases [consumes 2, case_names recv recv_closed lost failed ended read set_error close sent send_closed]:
  assumes "channel_law C Q" and "producer_step rd C s = Some t"
  obtains
    b c where "bt_producer s = PRecv" "t = s\<lparr>bt_free := c, bt_producer := PRead b\<rparr>"
      "q_items Q (bt_free s) = b # q_items Q c" "q_cap Q c = q_cap Q (bt_free s)"
      "q_closed Q c = q_closed Q (bt_free s)"
  | "bt_producer s = PRecv" "t = s\<lparr>bt_producer := PDone\<rparr>" "q_closed Q (bt_free s)"
  | b where "bt_producer s = PRead b" "rd (ba_bytes b) (bt_stream s) (bt_world s) = None"
      "t = s\<lparr>bt_producer := PLost\<rparr>"
  | b e bytes stream' world' where "bt_producer s = PRead b"
      "rd (ba_bytes b) (bt_stream s) (bt_world s) = Some (Inl e, bytes, stream', world')"
      "t = s\<lparr>bt_stream := stream', bt_world := world', bt_producer := PSetError e\<rparr>"
  | b bytes stream' world' where "bt_producer s = PRead b"
      "rd (ba_bytes b) (bt_stream s) (bt_world s) = Some (Inr 0, bytes, stream', world')"
      "t = s\<lparr>bt_stream := stream', bt_world := world', bt_producer := PClose\<rparr>"
  | b m bytes stream' world' where "bt_producer s = PRead b" "0 < m"
      "rd (ba_bytes b) (bt_stream s) (bt_world s) = Some (Inr m, bytes, stream', world')"
      "t = s\<lparr>bt_stream := stream', bt_world := world',
         bt_producer := PSend \<lparr>ba_bytes = bytes, ba_size = m\<rparr>\<rparr>"
  | e where "bt_producer s = PSetError e"
      "t = s\<lparr>bt_error := shared_error_set e (bt_error s), bt_producer := PClose\<rparr>"
  | c where "bt_producer s = PClose" "t = s\<lparr>bt_ready := c, bt_producer := PDone\<rparr>"
      "q_items Q c = q_items Q (bt_ready s)" "q_cap Q c = q_cap Q (bt_ready s)" "q_closed Q c"
  | b c where "bt_producer s = PSend b" "t = s\<lparr>bt_ready := c, bt_producer := PRecv\<rparr>"
      "q_items Q c = q_items Q (bt_ready s) @ [b]" "q_cap Q c = q_cap Q (bt_ready s)"
      "\<not> q_closed Q (bt_ready s)" "\<not> q_closed Q c" "length (q_items Q (bt_ready s)) < q_cap Q (bt_ready s)"
  | b where "bt_producer s = PSend b" "t = s\<lparr>bt_producer := PDone\<rparr>" "q_closed Q (bt_ready s)"
proof (cases "bt_producer s")
  case PRecv
  then show ?thesis using assms(2) that(1,2) channel_recv [OF assms(1), of "bt_free s"]
    by (auto simp: producer_step_def split: channel_result.splits prod.splits)
next
  case (PRead b)
  then show ?thesis using assms(2) that(3-6)
    by (auto simp: producer_step_def split: option.splits prod.splits sum.splits if_splits)
next
  case (PSetError e)
  then show ?thesis using assms(2) that(7) by (auto simp: producer_step_def)
next
  case PClose
  then show ?thesis using assms(2) that(8) channel_close [OF assms(1), of "bt_ready s"]
    by (auto simp: producer_step_def)
next
  case (PSend b)
  then show ?thesis using assms(2) that(9,10) channel_send [OF assms(1), of b "bt_ready s"]
    by (auto simp: producer_step_def split: channel_result.splits)
next
  case PDone
  then show ?thesis using assms(2) by (simp add: producer_step_def)
next
  case PLost
  then show ?thesis using assms(2) by (simp add: producer_step_def)
qed

text \<open>A step of the consumer.\<close>

lemma consumer_step_cases [consumes 2, case_names recv recv_closed bad_span threw answered recycled recycle_closed
    close_free close_ready take throw_free throw_ready join join_lost]:
  assumes "channel_law C Q" and "consumer_step destroy C callback s = Some t"
  obtains
    b c where "bt_consumer s = CRecv" "t = s\<lparr>bt_ready := c, bt_consumer := CCall b\<rparr>"
      "q_items Q (bt_ready s) = b # q_items Q c" "q_cap Q c = q_cap Q (bt_ready s)"
      "q_closed Q c = q_closed Q (bt_ready s)"
  | "bt_consumer s = CRecv" "t = s\<lparr>bt_consumer := CCloseFree\<rparr>" "q_closed Q (bt_ready s)"
      "q_items Q (bt_ready s) = []"
  | b where "bt_consumer s = CCall b" "t = s\<lparr>bt_consumer := CLost None\<rparr>" "length (ba_bytes b) < ba_size b"
  | b user' where "bt_consumer s = CCall b" "callback (payload b) (bt_user s) = (None, user')"
      "t = s\<lparr>bt_user := user', bt_given := bt_given s @ [payload b], bt_consumer := CThrowFree\<rparr>"
  | b go user' where "bt_consumer s = CCall b" "callback (payload b) (bt_user s) = (Some go, user')"
      "t = s\<lparr>bt_user := user', bt_given := bt_given s @ [payload b], bt_keep_going := go,
         bt_consumer := CRecycle b\<rparr>"
  | b c where "bt_consumer s = CRecycle b"
      "t = s\<lparr>bt_free := c, bt_consumer := (if bt_keep_going s then CRecv else CCloseFree)\<rparr>"
      "q_items Q c = q_items Q (bt_free s) @ [b]" "q_cap Q c = q_cap Q (bt_free s)"
      "\<not> q_closed Q (bt_free s)" "\<not> q_closed Q c"
  | b where "bt_consumer s = CRecycle b" "t = s\<lparr>bt_consumer := CThrowFree\<rparr>" "q_closed Q (bt_free s)"
  | c where "bt_consumer s = CCloseFree" "t = s\<lparr>bt_free := c, bt_consumer := CCloseReady\<rparr>"
      "q_items Q c = q_items Q (bt_free s)" "q_cap Q c = q_cap Q (bt_free s)" "q_closed Q c"
  | c where "bt_consumer s = CCloseReady" "t = s\<lparr>bt_ready := c, bt_consumer := CTake\<rparr>"
      "q_items Q c = q_items Q (bt_ready s)" "q_cap Q c = q_cap Q (bt_ready s)" "q_closed Q c"
  | "bt_consumer s = CTake" "t = s\<lparr>bt_consumer := CJoin (Some (result_of (bt_error s)))\<rparr>"
  | c where "bt_consumer s = CThrowFree" "t = s\<lparr>bt_free := c, bt_consumer := CThrowReady\<rparr>"
      "q_items Q c = q_items Q (bt_free s)" "q_cap Q c = q_cap Q (bt_free s)" "q_closed Q c"
  | c where "bt_consumer s = CThrowReady" "t = s\<lparr>bt_ready := c, bt_consumer := CJoin None\<rparr>"
      "q_items Q c = q_items Q (bt_ready s)" "q_cap Q c = q_cap Q (bt_ready s)" "q_closed Q c"
  | r world' where "bt_consumer s = CJoin r" "bt_producer s = PDone"
      "destroy (bt_stream s) (bt_world s) = Some world'"
      "t = s\<lparr>bt_world := world', bt_consumer := (case r of None \<Rightarrow> CThrew | Some result \<Rightarrow> CReturned result)\<rparr>"
  | r where "bt_consumer s = CJoin r" "bt_producer s = PDone"
      "destroy (bt_stream s) (bt_world s) = None" "t = s\<lparr>bt_consumer := CLost r\<rparr>"
proof (cases "bt_consumer s")
  case CRecv
  then show ?thesis using assms(2) that(1,2) channel_recv [OF assms(1), of "bt_ready s"]
    by (auto simp: consumer_step_def split: channel_result.splits prod.splits)
next
  case (CCall b)
  then show ?thesis using assms(2) that(3-5)
    by (auto simp: consumer_step_def batch_span_def payload_def Let_def
        split: option.splits prod.splits if_splits)
next
  case (CRecycle b)
  then show ?thesis using assms(2) that(6,7) channel_send [OF assms(1), of b "bt_free s"]
    by (auto simp: consumer_step_def split: channel_result.splits)
next
  case CCloseFree
  then show ?thesis using assms(2) that(8) channel_close [OF assms(1), of "bt_free s"]
    by (auto simp: consumer_step_def)
next
  case CCloseReady
  then show ?thesis using assms(2) that(9) channel_close [OF assms(1), of "bt_ready s"]
    by (auto simp: consumer_step_def)
next
  case CTake
  then show ?thesis using assms(2) that(10) by (auto simp: consumer_step_def result_of_def)
next
  case CThrowFree
  then show ?thesis using assms(2) that(11) channel_close [OF assms(1), of "bt_free s"]
    by (auto simp: consumer_step_def)
next
  case CThrowReady
  then show ?thesis using assms(2) that(12) channel_close [OF assms(1), of "bt_ready s"]
    by (auto simp: consumer_step_def)
next
  case (CJoin r)
  then show ?thesis using assms(2) that(13,14) by (auto simp: consumer_step_def split: option.splits if_splits)
next
  case (CReturned r)
  then show ?thesis using assms(2) by (simp add: consumer_step_def)
next
  case CThrew
  then show ?thesis using assms(2) by (simp add: consumer_step_def)
next
  case (CLost r)
  then show ?thesis using assms(2) by (simp add: consumer_step_def)
qed

section \<open>Invariants\<close>

text \<open>
  The batches: at most \<open>p + 1\<close> of them exist, all of them while the worker is in its loop, each
  has its full length, and those that were read into hold between 1 and \<open>n\<close> bytes.
\<close>

definition pool_inv :: "(batch, 'c) channel_view \<Rightarrow> nat \<Rightarrow> nat \<Rightarrow> ('c, 's, 'u, 'w) batches \<Rightarrow> bool" where
  "pool_inv Q n p s \<longleftrightarrow>
     q_cap Q (bt_ready s) = p \<and> q_cap Q (bt_free s) = p + 1 \<and>
     (let held = q_items Q (bt_free s) @ q_items Q (bt_ready s) @
        producer_batch (bt_producer s) @ consumer_batch (bt_consumer s) in
      length held \<le> p + 1 \<and>
      (producer_live (bt_producer s) \<and> consumer_active (bt_consumer s) \<longrightarrow> length held = p + 1) \<and>
      (\<forall>b \<in> set held. length (ba_bytes b) = n)) \<and>
     (\<forall>b \<in> set (q_items Q (bt_ready s) @ filled_batch (bt_producer s) @ unread_batch (bt_consumer s)).
        0 < ba_size b \<and> ba_size b \<le> n)"

text \<open>Who has closed what, and who is where.\<close>

definition close_inv :: "(batch, 'c) channel_view \<Rightarrow> ('c, 's, 'u, 'w) batches \<Rightarrow> bool" where
  "close_inv Q s \<longleftrightarrow>
     (q_closed Q (bt_free s) \<longleftrightarrow> closed_free (bt_consumer s)) \<and>
     (q_closed Q (bt_ready s) \<longrightarrow> bt_producer s = PDone \<or> closed_ready (bt_consumer s)) \<and>
     (closed_ready (bt_consumer s) \<longrightarrow> q_closed Q (bt_ready s)) \<and>
     (bt_producer s = PDone \<and> \<not> closed_free (bt_consumer s) \<longrightarrow> q_closed Q (bt_ready s)) \<and>
     (bt_consumer s = CRecv \<or> unread_batch (bt_consumer s) \<noteq> [] \<longrightarrow> bt_keep_going s) \<and>
     (consumer_wrapping (bt_consumer s) \<and> bt_keep_going s \<longrightarrow>
        bt_producer s = PDone \<and> q_items Q (bt_ready s) = [])"

text \<open>
  The error: it is set at most once, by a worker that then ends; the result is the error unless
  the callback has stopped the stream.
\<close>

definition error_inv :: "('c, 's, 'u, 'w) batches \<Rightarrow> bool" where
  "error_inv s \<longleftrightarrow>
     (producer_live (bt_producer s) \<or> (\<exists>e. bt_producer s = PSetError e) \<longrightarrow> bt_error s = None) \<and>
     (consumer_wrapping (bt_consumer s) \<longrightarrow>
        (\<forall>r. consumer_result (bt_consumer s) = Some r \<longrightarrow>
          (bt_keep_going s \<longrightarrow> r = result_of (bt_error s)) \<and> (\<forall>e. r = Inl e \<longrightarrow> bt_error s = Some e)))"

text \<open>The batches that have been filled so far, in order: those that the callback was given, then those on their way.\<close>

definition sent :: "(batch, 'c) channel_view \<Rightarrow> ('c, 's, 'u, 'w) batches \<Rightarrow> byte list list" where
  "sent Q s = bt_given s @ map payload (unread_batch (bt_consumer s) @ q_items Q (bt_ready s) @
     filled_batch (bt_producer s))"

text \<open>
  The bytes: while the worker is in its loop, the batches that were filled and those that the rest of the stream
  will give are the chunks of the whole. When it has ended at the end of the stream, all were sent, the
  stream is \<open>finished\<close>, and when it has been destroyed, \<open>left_behind\<close> holds of the world.
\<close>

definition data_inv ::
  "(batch, 'c) channel_view \<Rightarrow> nat \<Rightarrow> ('s \<Rightarrow> 'w \<Rightarrow> bool) \<Rightarrow> ('s \<Rightarrow> byte list) \<Rightarrow> ('s \<Rightarrow> 'w \<Rightarrow> bool) \<Rightarrow>
     ('w \<Rightarrow> bool) \<Rightarrow> (error \<Rightarrow> bool) \<Rightarrow> byte list \<Rightarrow> ('c, 's, 'u, 'w) batches \<Rightarrow> bool" where
  "data_inv Q n intact rest finished left_behind reported whole s \<longleftrightarrow>
     (\<exists>more. chunks n whole = sent Q s @ more) \<and>
     (producer_live (bt_producer s) \<longrightarrow> intact (bt_stream s) (bt_world s) \<and>
        chunks n whole = sent Q s @ chunks n (rest (bt_stream s))) \<and>
     bt_producer s \<noteq> PLost \<and>
     (\<forall>e. bt_producer s = PSetError e \<or> bt_error s = Some e \<longrightarrow> reported e) \<and>
     ((bt_producer s = PClose \<or> bt_producer s = PDone) \<and> bt_error s = None \<and>
        (\<not> closed_free (bt_consumer s) \<or> consumer_wrapping (bt_consumer s) \<and> bt_keep_going s) \<longrightarrow>
        sent Q s = chunks n whole \<and>
        (\<not> consumer_ended (bt_consumer s) \<longrightarrow> finished (bt_stream s) (bt_world s)) \<and>
        (\<forall>r. bt_consumer s \<noteq> CLost (Some r)) \<and>
        (\<forall>r. bt_consumer s = CReturned r \<longrightarrow> left_behind (bt_world s)))"

text \<open>
  The end: until the function is left the stream can be destroyed; then the worker has ended, and \<open>left_behind\<close> holds unless the
  stream was destroyed while it was busy.
\<close>

definition leave_inv ::
  "('s \<Rightarrow> 'w \<Rightarrow> bool) \<Rightarrow> ('s \<Rightarrow> bool) \<Rightarrow> ('w \<Rightarrow> bool) \<Rightarrow> ('c, 's, 'u, 'w) batches \<Rightarrow> bool" where
  "leave_inv spent busy left_behind s \<longleftrightarrow>
     (if consumer_ended (bt_consumer s)
      then bt_producer s = PDone \<and>
        (if \<exists>r. bt_consumer s = CLost r then busy (bt_stream s) else left_behind (bt_world s))
      else spent (bt_stream s) (bt_world s))"

lemmas batch_invs = pool_inv_def close_inv_def error_inv_def data_inv_def sent_def Let_def

section \<open>A callback that goes on\<close>

definition goes_on :: "(byte list \<Rightarrow> 'u \<Rightarrow> bool option \<times> 'u) \<Rightarrow> bool" where
  "goes_on callback \<longleftrightarrow> (\<forall>bytes user. fst (callback bytes user) = Some True)"

definition going :: "('c, 's, 'u, 'w) batches \<Rightarrow> bool" where
  "going s \<longleftrightarrow> bt_keep_going s \<and> (consumer_active (bt_consumer s) \<or> consumer_wrapping (bt_consumer s))"

lemma batch_step_going:
  assumes "channel_law C Q" and "batch_step rd destroy C callback s t" and "goes_on callback"
    and "pool_inv Q n p s" and "close_inv Q s" and "going s"
  shows "going t"
  using assms(2)
proof (cases rule: batch_step.cases)
  case produce
  with assms(1) show ?thesis
    by (cases rule: producer_step_cases) (use assms(6) in \<open>auto simp: going_def\<close>)
next
  case consume
  have go: "callback bytes user = (Some True, snd (callback bytes user))" for bytes user
    using assms(3) by (simp add: goes_on_def prod_eq_iff)
  from assms(1) consume show ?thesis
  proof (cases rule: consumer_step_cases)
    case (threw b user')
    with go [of "payload b" "bt_user s"] show ?thesis by simp
  next
    case (answered b go' user')
    with go [of "payload b" "bt_user s"] assms(6) show ?thesis by (simp add: going_def)
  next
    case (bad_span b)
    with assms(4) show ?thesis by (auto simp: pool_inv_def Let_def)
  qed (use assms(5,6) in \<open>auto simp: going_def close_inv_def split: option.splits\<close>)
qed

text \<open>
  Every step uses up some of the work that is left: the chunks to read, the batches to deliver, the
  way to the end of each thread.
\<close>

fun producer_work :: "nat \<Rightarrow> producer \<Rightarrow> nat" where
  "producer_work r PRecv = 4 + 8 * r"
| "producer_work r (PRead b) = 3 + 8 * r"
| "producer_work r (PSetError e) = 2"
| "producer_work r PClose = 1"
| "producer_work r (PSend b) = 10 + 8 * r"
| "producer_work r PDone = 0"
| "producer_work r PLost = 0"

fun consumer_work :: "consumer \<Rightarrow> nat" where
  "consumer_work CRecv = 5"
| "consumer_work (CCall b) = 8"
| "consumer_work (CRecycle b) = 7"
| "consumer_work CCloseFree = 4"
| "consumer_work CCloseReady = 3"
| "consumer_work CTake = 2"
| "consumer_work CThrowFree = 3"
| "consumer_work CThrowReady = 2"
| "consumer_work (CJoin r) = 1"
| "consumer_work (CReturned r) = 0"
| "consumer_work CThrew = 0"
| "consumer_work (CLost r) = 0"

definition work_left ::
  "('s \<Rightarrow> byte list) \<Rightarrow> (batch, 'c) channel_view \<Rightarrow> nat \<Rightarrow> ('c, 's, 'u, 'w) batches \<Rightarrow> nat" where
  "work_left rest Q n s = producer_work (length (chunks n (rest (bt_stream s)))) (bt_producer s) +
     4 * length (q_items Q (bt_ready s)) + consumer_work (bt_consumer s)"

section \<open>The pipeline over a source of bytes\<close>

text \<open>The errors that a read of an intact source reports.\<close>

definition source_error ::
  "(byte list \<Rightarrow> 's \<Rightarrow> 'w \<Rightarrow> (nat outcome \<times> byte list \<times> 's \<times> 'w) option) \<Rightarrow> ('s \<Rightarrow> 'w \<Rightarrow> bool) \<Rightarrow> error \<Rightarrow> bool" where
  "source_error rd intact e \<longleftrightarrow>
     (\<exists>out s w out' s' w'. intact s w \<and> rd out s w = Some (Inl e, out', s', w'))"

text \<open>
  A source of bytes: reading always returns, and without an error it delivers the next bytes of
  \<open>rest\<close>; after the end of the stream it is \<open>finished\<close>. After an error it is at least \<open>spent\<close>: it can be destroyed, unless it is
  \<open>busy\<close>, and \<open>left_behind\<close> holds afterwards.
\<close>

locale byte_source =
  fixes rd :: "byte list \<Rightarrow> 's \<Rightarrow> 'w \<Rightarrow> (nat outcome \<times> byte list \<times> 's \<times> 'w) option"
    and destroy :: "'s \<Rightarrow> 'w \<Rightarrow> 'w option"
    and intact :: "'s \<Rightarrow> 'w \<Rightarrow> bool"
    and rest :: "'s \<Rightarrow> byte list"
    and finished :: "'s \<Rightarrow> 'w \<Rightarrow> bool"
    and left_behind :: "'w \<Rightarrow> bool"
    and spent :: "'s \<Rightarrow> 'w \<Rightarrow> bool"
    and busy :: "'s \<Rightarrow> bool"
  assumes read_law: "intact s w \<Longrightarrow> \<exists>r out' s' w'. rd out s w = Some (r, out', s', w') \<and>
      (\<forall>m. r = Inr m \<longrightarrow> intact s' w' \<and> m = min (length out) (length (rest s)) \<and>
         out' = take m (rest s) @ drop m out \<and> rest s' = drop m (rest s)) \<and>
      (\<forall>e. r = Inl e \<longrightarrow> spent s' w')"
    and end_law: "intact s w \<Longrightarrow> rd out s w = Some (Inr m, out', s', w') \<Longrightarrow> m < length out \<Longrightarrow> finished s' w'"
    and intact_spent: "intact s w \<Longrightarrow> spent s w"
    and finished_spent: "finished s w \<Longrightarrow> spent s w \<and> \<not> busy s"
    and destroy_law: "spent s w \<Longrightarrow>
      (case destroy s w of None \<Rightarrow> busy s | Some w' \<Rightarrow> \<not> busy s \<and> left_behind w')"
begin

lemma destroy_finished: "finished s w \<Longrightarrow> \<exists>w'. destroy s w = Some w' \<and> left_behind w'"
  using destroy_law finished_spent by (fastforce split: option.splits)

lemma read_okD:
  assumes "intact s w" and "rd out s w = Some (Inr m, out', s', w')"
  shows "intact s' w'" "m = min (length out) (length (rest s))" "out' = take m (rest s) @ drop m out"
    "rest s' = drop m (rest s)" "length out' = length out"
proof -
  from read_law [OF assms(1), of out] assms(2)
  show ok: "intact s' w'" "m = min (length out) (length (rest s))" "out' = take m (rest s) @ drop m out"
    "rest s' = drop m (rest s)" by auto
  from ok(2,3) show "length out' = length out" by simp
qed

lemma read_returns: "intact s w \<Longrightarrow> rd out s w \<noteq> None"
  using read_law by fastforce

abbreviation batches_inv where
  "batches_inv Q n p whole s \<equiv>
     pool_inv Q n p s \<and> close_inv Q s \<and> error_inv s \<and> data_inv Q n intact rest finished left_behind (source_error rd intact) whole s"

lemma producer_pool_inv:
  assumes "channel_law C Q" and "producer_step rd C s = Some t"
    and "pool_inv Q n p s" and "producer_live (bt_producer s) \<longrightarrow> intact (bt_stream s) (bt_world s)"
  shows "pool_inv Q n p t"
  using assms
proof (cases rule: producer_step_cases)
  case (read b m bytes stream' world')
  then have "intact (bt_stream s) (bt_world s)" using assms(4) by simp
  from read_okD [OF this read(3)] read assms(3) show ?thesis by (auto simp: pool_inv_def Let_def)
qed (use assms(3) in \<open>auto simp: pool_inv_def Let_def\<close>)

lemma consumer_pool_inv:
  assumes "channel_law C Q" and "consumer_step destroy C callback s = Some t" and "pool_inv Q n p s"
  shows "pool_inv Q n p t"
  using assms(1,2)
  by (cases rule: consumer_step_cases) (use assms(3) in \<open>auto simp: pool_inv_def Let_def split: option.splits\<close>)

lemma producer_close_inv:
  assumes "channel_law C Q" and "producer_step rd C s = Some t" and "close_inv Q s"
  shows "close_inv Q t"
  using assms(1,2)
  by (cases rule: producer_step_cases) (use assms(3) in \<open>auto simp: close_inv_def\<close>)

lemma consumer_close_inv:
  assumes "channel_law C Q" and "consumer_step destroy C callback s = Some t" and "close_inv Q s"
    and "pool_inv Q n p s"
  shows "close_inv Q t"
  using assms(1,2)
  by (cases rule: consumer_step_cases)
    (use assms(3,4) in \<open>auto simp: close_inv_def pool_inv_def Let_def split: option.splits\<close>)

lemma producer_error_inv:
  assumes "channel_law C Q" and "producer_step rd C s = Some t" and "close_inv Q s" and "error_inv s"
  shows "error_inv t"
  using assms(1,2)
  by (cases rule: producer_step_cases)
    (use assms(3,4) in \<open>auto simp: error_inv_def close_inv_def shared_error_set_def\<close>)

lemma consumer_error_inv:
  assumes "channel_law C Q" and "consumer_step destroy C callback s = Some t" and "error_inv s"
  shows "error_inv t"
  using assms(1,2)
  by (cases rule: consumer_step_cases)
    (use assms(3) in \<open>auto simp: error_inv_def result_of_def split: option.splits\<close>)

lemma producer_data_inv:
  assumes "channel_law C Q" and "producer_step rd C s = Some t" and "0 < n"
    and "pool_inv Q n p s" and "close_inv Q s" and "error_inv s"
    and "data_inv Q n intact rest finished left_behind (source_error rd intact) whole s"
  shows "data_inv Q n intact rest finished left_behind (source_error rd intact) whole t"
  using assms(1,2)
proof (cases rule: producer_step_cases)
  case (failed b e bytes stream' world')
  then have "intact (bt_stream s) (bt_world s)" using assms(7) by (simp add: data_inv_def)
  with failed(2) have "source_error rd intact e" unfolding source_error_def by blast
  with failed assms(6,7) show ?thesis by (auto simp: data_inv_def sent_def error_inv_def)
next
  case (ended b bytes stream' world')
  then have live: "intact (bt_stream s) (bt_world s)"
      "chunks n whole = sent Q s @ chunks n (rest (bt_stream s))"
    and len: "length (ba_bytes b) = n"
    using assms(4,7) by (auto simp: data_inv_def pool_inv_def Let_def)
  from read_okD(2) [OF live(1) ended(2)] len assms(3) have "rest (bt_stream s) = []"
    by (simp add: min_def split: if_splits)
  moreover from end_law [OF live(1) ended(2)] len assms(3)
  have "finished stream' world'" by simp
  ultimately show ?thesis using ended assms(5-7) live(2)
    by (auto simp: data_inv_def sent_def error_inv_def close_inv_def)
next
  case (read b m bytes stream' world')
  then have live: "intact (bt_stream s) (bt_world s)"
      "chunks n whole = sent Q s @ chunks n (rest (bt_stream s))"
    and len: "length (ba_bytes b) = n"
    using assms(4,7) by (auto simp: data_inv_def pool_inv_def Let_def)
  note ok = read_okD [OF live(1) read(3)]
  from ok(2) read(2) len have nonempty: "rest (bt_stream s) \<noteq> []" by auto
  have m: "take m (rest (bt_stream s)) = take n (rest (bt_stream s))"
      "drop m (rest (bt_stream s)) = drop n (rest (bt_stream s))" "m \<le> length (rest (bt_stream s))"
    unfolding ok(2) len by (cases "n \<le> length (rest (bt_stream s))", simp_all)+
  have "payload \<lparr>ba_bytes = bytes, ba_size = m\<rparr> = take m (rest (bt_stream s))"
    using ok(3) m(3) by (simp add: payload_def)
  then have all: "chunks n whole = sent Q t @ chunks n (rest stream')"
    using live(2) chunks_next [OF assms(3) nonempty] read ok(4) m(1,2) by (simp add: sent_def)
  have now: "bt_producer t = PSend \<lparr>ba_bytes = bytes, ba_size = m\<rparr>" "bt_error t = None"
      "bt_stream t = stream'" "bt_world t = world'"
    using read assms(6) by (simp_all add: error_inv_def)
  show ?thesis unfolding data_inv_def
  proof (intro conjI)
    show "\<exists>more. chunks n whole = sent Q t @ more" using all by blast
    show "producer_live (bt_producer t) \<longrightarrow> intact (bt_stream t) (bt_world t) \<and>
        chunks n whole = sent Q t @ chunks n (rest (bt_stream t))"
      unfolding now using all ok(1) by blast
  qed (simp_all add: now)
next
  case (set_error e)
  then show ?thesis using assms(6,7) by (auto simp: data_inv_def sent_def error_inv_def shared_error_set_def)
next
  case (send_closed b)
  then show ?thesis using assms(5-7)
    by (auto simp: data_inv_def sent_def close_inv_def elim: closed_ready.elims)
next
  case recv_closed
  then show ?thesis using assms(5-7) by (auto simp: data_inv_def sent_def close_inv_def)
next
  case (lost b)
  then have "intact (bt_stream s) (bt_world s)" using assms(7) by (simp add: data_inv_def)
  with read_returns lost show ?thesis by blast
qed (use assms(7) in \<open>auto simp: data_inv_def sent_def\<close>)

lemma consumer_data_inv:
  assumes "channel_law C Q" and "consumer_step destroy C callback s = Some t"
    and "pool_inv Q n p s" and "close_inv Q s" and "data_inv Q n intact rest finished left_behind (source_error rd intact) whole s"
  shows "data_inv Q n intact rest finished left_behind (source_error rd intact) whole t"
  using assms(1,2)
proof (cases rule: consumer_step_cases)
  case recv_closed
  then have "bt_producer s = PDone" "bt_keep_going s" using assms(4) by (auto simp: close_inv_def)
  with recv_closed assms(5) show ?thesis by (auto simp: data_inv_def sent_def)
next
  case (bad_span b)
  then show ?thesis using assms(3) by (auto simp: pool_inv_def Let_def)
next
  case (recycled b c)
  then show ?thesis using assms(5) by (auto simp: data_inv_def sent_def)
next
  case (join r world')
  then show ?thesis using assms(5) destroy_finished by (fastforce simp: data_inv_def sent_def split: option.splits)
next
  case (join_lost r)
  then show ?thesis using assms(5) destroy_finished by (cases r) (fastforce simp: data_inv_def sent_def)+
qed (use assms(4,5) in \<open>auto simp: data_inv_def sent_def close_inv_def\<close>)

lemma batch_step_inv:
  assumes "channel_law C Q" and "0 < n" and "batch_step rd destroy C callback s t"
    and "batches_inv Q n p whole s"
  shows "batches_inv Q n p whole t"
  using assms(3)
proof (cases rule: batch_step.cases)
  case produce
  moreover have "producer_live (bt_producer s) \<longrightarrow> intact (bt_stream s) (bt_world s)"
    using assms(4) by (simp add: data_inv_def)
  ultimately show ?thesis
    using assms producer_pool_inv producer_close_inv producer_error_inv producer_data_inv by meson
next
  case consume
  with assms consumer_pool_inv consumer_close_inv consumer_error_inv consumer_data_inv
  show ?thesis by meson
qed

lemma batch_run_inv:
  "batch_run rd destroy C callback s k t \<Longrightarrow> channel_law C Q \<Longrightarrow> 0 < n \<Longrightarrow> batches_inv Q n p whole s \<Longrightarrow>
     batches_inv Q n p whole t"
  by (induction rule: batch_run.induct) (simp, metis batch_step_inv)

text \<open>However the function is left.\<close>

abbreviation leaves where
  "leaves \<equiv> leave_inv spent busy left_behind"

lemma producer_leaves:
  assumes "channel_law C Q" and "producer_step rd C s = Some t"
    and "batches_inv Q n p whole s" and "leaves s"
  shows "leaves t"
proof (cases "consumer_ended (bt_consumer s)")
  case True
  with assms(2,4) show ?thesis by (auto simp: leave_inv_def producer_step_def)
next
  case False
  with assms(4) have sp: "spent (bt_stream s) (bt_world s)" by (simp add: leave_inv_def)
  have reads: "spent s' w'"
    if "bt_producer s = PRead b" "rd out (bt_stream s) (bt_world s) = Some (r, out', s', w')" for b out r out' s' w'
  proof -
    from assms(3) that(1) have live: "intact (bt_stream s) (bt_world s)" by (simp add: data_inv_def)
    with read_law [OF live, of out] that(2) intact_spent show ?thesis by (cases r) auto
  qed
  from assms(1,2) show ?thesis
    by (cases rule: producer_step_cases) (use False sp reads in \<open>auto simp: leave_inv_def\<close>)
qed

lemma consumer_leaves:
  assumes "channel_law C Q" and "consumer_step destroy C callback s = Some t"
    and "pool_inv Q n p s" and "leaves s"
  shows "leaves t"
proof -
  have "\<not> consumer_ended (bt_consumer s)"
    using assms(2) by (auto simp: consumer_step_def elim: consumer_ended.elims)
  with assms(4) have sp: "spent (bt_stream s) (bt_world s)" by (simp add: leave_inv_def)
  from assms(1,2) show ?thesis
  proof (cases rule: consumer_step_cases)
    case (bad_span b)
    with assms(3) show ?thesis by (auto simp: pool_inv_def Let_def)
  next
    case (join r world')
    with destroy_law [OF sp] show ?thesis by (auto simp: leave_inv_def split: option.splits)
  next
    case (join_lost r)
    with destroy_law [OF sp] show ?thesis by (simp add: leave_inv_def)
  qed (use sp in \<open>auto simp: leave_inv_def\<close>)
qed

lemma batch_step_leaves:
  assumes "channel_law C Q" and "batch_step rd destroy C callback s t" and "batches_inv Q n p whole s" and "leaves s"
  shows "leaves t"
  using assms(2)
proof (cases rule: batch_step.cases)
  case produce
  with assms show ?thesis by (blast intro: producer_leaves)
next
  case consume
  with assms show ?thesis by (blast intro: consumer_leaves)
qed

lemma batch_run_leaves:
  "batch_run rd destroy C callback s k t \<Longrightarrow> channel_law C Q \<Longrightarrow> 0 < n \<Longrightarrow> batches_inv Q n p whole s \<Longrightarrow> leaves s \<Longrightarrow>
     leaves t"
proof (induction rule: batch_run.induct)
  case (step s k t t')
  then have "batches_inv Q n p whole t" by (metis batch_run_inv)
  with step show ?case by (blast intro: batch_step_leaves)
qed

text \<open>No state is stuck before both threads have ended.\<close>

lemma batch_progress:
  assumes "channel_law C Q" and "0 < p" and "batches_inv Q n p whole s"
    and "\<not> (bt_producer s = PDone \<and> consumer_ended (bt_consumer s))"
  shows "\<exists>t. batch_step rd destroy C callback s t"
proof (rule ccontr)
  assume stuck: "\<not> ?thesis"
  then have p0: "producer_step rd C s = None" and c0: "consumer_step destroy C callback s = None"
    unfolding batch_step_iff by (metis not_None_eq)+
  from assms(3) have pool: "pool_inv Q n p s" and close: "close_inv Q s"
    and lost: "bt_producer s \<noteq> PLost" by (simp_all add: data_inv_def)
  have prod: "bt_producer s = PDone \<or> (bt_producer s = PRecv \<and> q_items Q (bt_free s) = [] \<and> \<not> q_closed Q (bt_free s)) \<or>
      (\<exists>b. bt_producer s = PSend b \<and> \<not> q_closed Q (bt_ready s) \<and> p \<le> length (q_items Q (bt_ready s)))"
    using p0 lost channel_recv(3) [OF assms(1), of "bt_free s"] channel_send(3) [OF assms(1), of _ "bt_ready s"] pool
    by (auto simp: producer_step_def pool_inv_def
        split: producer.splits channel_result.splits option.splits prod.splits)
  have cons: "consumer_ended (bt_consumer s) \<or>
      (bt_consumer s = CRecv \<and> q_items Q (bt_ready s) = [] \<and> \<not> q_closed Q (bt_ready s)) \<or>
      (\<exists>b. bt_consumer s = CRecycle b \<and> p + 1 \<le> length (q_items Q (bt_free s))) \<or>
      (\<exists>r. bt_consumer s = CJoin r \<and> bt_producer s \<noteq> PDone)"
    using c0 channel_recv(3) [OF assms(1), of "bt_ready s"] channel_send(3) [OF assms(1), of _ "bt_free s"] pool
    by (auto simp: consumer_step_def pool_inv_def Let_def
        split: consumer.splits channel_result.splits option.splits prod.splits if_splits)
  from cons show False
  proof (elim disjE)
    assume "consumer_ended (bt_consumer s)"
    then have "closed_free (bt_consumer s)" "closed_ready (bt_consumer s)"
      by (cases "bt_consumer s"; simp)+
    with prod close assms(4) \<open>consumer_ended (bt_consumer s)\<close> show False by (auto simp: close_inv_def)
  next
    assume c: "bt_consumer s = CRecv \<and> q_items Q (bt_ready s) = [] \<and> \<not> q_closed Q (bt_ready s)"
    with prod close assms(2) have "bt_producer s = PRecv" "q_items Q (bt_free s) = []"
      by (auto simp: close_inv_def)
    with c pool show False by (auto simp: pool_inv_def)
  next
    assume "\<exists>b. bt_consumer s = CRecycle b \<and> p + 1 \<le> length (q_items Q (bt_free s))"
    with pool show False by (auto simp: pool_inv_def Let_def)
  next
    assume "\<exists>r. bt_consumer s = CJoin r \<and> bt_producer s \<noteq> PDone"
    with prod close show False by (auto simp: close_inv_def)
  qed
qed

lemma producer_work_less:
  assumes "channel_law C Q" and "producer_step rd C s = Some t" and "0 < n" and "batches_inv Q n p whole s"
  shows "work_left rest Q n t < work_left rest Q n s"
  using assms(1,2)
proof (cases rule: producer_step_cases)
  case (read b m bytes stream' world')
  then have live: "intact (bt_stream s) (bt_world s)" and len: "length (ba_bytes b) = n"
    using assms(4) by (auto simp: data_inv_def pool_inv_def Let_def)
  note ok = read_okD [OF live read(3)]
  from ok(2) read(2) len have nonempty: "rest (bt_stream s) \<noteq> []" by auto
  have "drop m (rest (bt_stream s)) = drop n (rest (bt_stream s))"
    unfolding ok(2) len by (cases "n \<le> length (rest (bt_stream s))", simp_all)
  with read ok(4) chunks_next [OF assms(3) nonempty] show ?thesis by (simp add: work_left_def)
qed (use assms(4) in \<open>auto simp: work_left_def data_inv_def\<close>)

lemma consumer_work_less:
  assumes "channel_law C Q" and "consumer_step destroy C callback s = Some t"
  shows "work_left rest Q n t < work_left rest Q n s"
  using assms
  by (cases rule: consumer_step_cases) (auto simp: work_left_def split: option.splits)

lemma batch_step_work:
  assumes "channel_law C Q" and "0 < n" and "batch_step rd destroy C callback s t"
    and "batches_inv Q n p whole s"
  shows "work_left rest Q n t < work_left rest Q n s"
  using assms(3)
proof (cases rule: batch_step.cases)
  case produce
  with assms show ?thesis by (blast intro: producer_work_less)
next
  case consume
  with assms show ?thesis by (blast intro: consumer_work_less)
qed

lemma batch_run_bounded:
  "batch_run rd destroy C callback s k t \<Longrightarrow> channel_law C Q \<Longrightarrow> 0 < n \<Longrightarrow> batches_inv Q n p whole s \<Longrightarrow>
     work_left rest Q n t + k \<le> work_left rest Q n s"
proof (induction rule: batch_run.induct)
  case (step s k t t')
  then have "batches_inv Q n p whole t" by (metis batch_run_inv)
  with step batch_step_work have "work_left rest Q n t' < work_left rest Q n t" by blast
  with step show ?case by simp
qed simp

lemma batch_run_going:
  "batch_run rd destroy C callback s k t \<Longrightarrow> channel_law C Q \<Longrightarrow> 0 < n \<Longrightarrow> batches_inv Q n p whole s \<Longrightarrow>
     goes_on callback \<Longrightarrow> going s \<Longrightarrow> going t"
proof (induction rule: batch_run.induct)
  case (step s k t t')
  then have "batches_inv Q n p whole t" by (metis batch_run_inv)
  with step show ?case by (blast intro: batch_step_going)
qed

end

end
