(* ===== verification/Uring.thy ===== *)
theory Uring
  imports ThreadBackend
begin

text \<open>
  \<open>src/uring.cpp\<close>: the backend over a kernel ring, and \<open>open_backend\<close>, which falls back to the thread
  backend. liburing is a parameter: a record of the functions that the code calls, over a ring of
  unknown representation.
\<close>

section \<open>Definitions\<close>

subsection \<open>liburing\<close>

text \<open>
  A submission entry that \<open>io_uring_prep_read\<close> and \<open>io_uring_sqe_set_data64\<close> have filled, and a
  completion. The destination is the first \<open>sq_len\<close> bytes of the buffer with number \<open>sq_buf\<close>.
\<close>

record sqe =
  sq_fd :: int
  sq_buf :: nat
  sq_len :: u32
  sq_off :: u64
  sq_data :: u64

record cqe =
  cq_data :: u64
  cq_res :: int

text \<open>
  \<open>ur_get_sqe\<close> hands out an entry or a null pointer, and the next two calls fill the entry handed out last.
  The kernel writes the destinations of running reads; as for the thread backend, the writes happen
  inside the calls. \<open>ur_wait_cqe\<close> gives the return code and the completion at the head of the completion queue, or \<open>None\<close> when it
  waits for ever; \<open>ur_peek\<close> gives up to so many completions from the head. \<open>ur_alloc_ok\<close> is whether
  allocating the object succeeds.
\<close>

record ('q, 'w) uring_ops =
  ur_alloc_ok :: "'w \<Rightarrow> bool"
  ur_queue_init :: "u32 \<Rightarrow> 'w \<Rightarrow> int \<times> 'q \<times> 'w"
  ur_queue_exit :: "'q \<Rightarrow> span list \<Rightarrow> 'w \<Rightarrow> span list \<times> 'w"
  ur_get_sqe :: "'q \<Rightarrow> 'q option"
  ur_prep_read :: "int \<Rightarrow> nat \<Rightarrow> u32 \<Rightarrow> u64 \<Rightarrow> 'q \<Rightarrow> 'q"
  ur_set_data :: "u64 \<Rightarrow> 'q \<Rightarrow> 'q"
  ur_submit :: "'q \<Rightarrow> span list \<Rightarrow> 'w \<Rightarrow> int \<times> 'q \<times> span list \<times> 'w"
  ur_wait_cqe :: "'q \<Rightarrow> span list \<Rightarrow> 'w \<Rightarrow> (int \<times> cqe \<times> 'q \<times> span list \<times> 'w) option"
  ur_cqe_seen :: "'q \<Rightarrow> 'q"
  ur_peek :: "u32 \<Rightarrow> 'q \<Rightarrow> span list \<Rightarrow> 'w \<Rightarrow> cqe list \<times> 'q \<times> span list \<times> 'w"
  ur_advance :: "u32 \<Rightarrow> 'q \<Rightarrow> 'q"

subsection \<open>The backend\<close>

record 'q uring_backend =
  ub_fd :: int
  ub_depth :: u64
  ub_in_flight :: nat
  ub_initialized :: bool
  ub_ring :: "'q option"

text \<open>\<open>init\<close> returns what \<open>io_uring_queue_init\<close> returned.\<close>

definition uring_init :: "('q, 'w) uring_ops \<Rightarrow> 'q uring_backend \<Rightarrow> 'w \<Rightarrow> int \<times> 'q uring_backend \<times> 'w" where
  "uring_init U b w =
     (case ur_queue_init U (ucast (ub_depth b)) w of (rc, ring, w') \<Rightarrow>
        (rc, b\<lparr>ub_ring := Some ring, ub_initialized := (rc = 0)\<rparr>, w'))"

definition ring_error :: "string \<Rightarrow> int \<Rightarrow> error" where
  "ring_error operation rc = BackendError (RingError operation (- rc))"

definition to_completion :: "cqe \<Rightarrow> completion" where
  "to_completion c =
     (if cq_res c < 0 then \<lparr>cp_token = cq_data c, cp_bytes = 0, cp_error = - cq_res c\<rparr>
      else \<lparr>cp_token = cq_data c, cp_bytes = nat (cq_res c), cp_error = 0\<rparr>)"

text \<open>The entry for one request: from the queue, or after flushing a full queue once.\<close>

definition uring_get_sqe ::
  "('q, 'w) uring_ops \<Rightarrow> 'q \<Rightarrow> span list \<Rightarrow> 'w \<Rightarrow> unit outcome \<times> 'q \<times> span list \<times> 'w" where
  "uring_get_sqe U q m w =
     (case ur_get_sqe U q of
        Some q1 \<Rightarrow> (Inr (), q1, m, w)
      | None \<Rightarrow>
          (case ur_submit U q m w of (flushed, q1, m1, w1) \<Rightarrow>
             if flushed < 0 then (Inl (ring_error ''io_uring_submit'' flushed), q1, m1, w1)
             else (case ur_get_sqe U q1 of
                 None \<Rightarrow> (Inl (BackendError SubmissionQueueFull), q1, m1, w1)
               | Some q2 \<Rightarrow> (Inr (), q2, m1, w1))))"

text \<open>
  The loop over the requests. The length of a read is cast to \<open>unsigned\<close>. What was queued when a
  later request fails stays queued, and stays counted.
\<close>

fun uring_queue ::
  "('q, 'w) uring_ops \<Rightarrow> int \<Rightarrow> read_request list \<Rightarrow> nat \<Rightarrow> 'q \<Rightarrow> span list \<Rightarrow> 'w \<Rightarrow>
     unit outcome \<times> nat \<times> 'q \<times> span list \<times> 'w" where
  "uring_queue U fd [] in_flight' q m w = (Inr (), in_flight', q, m, w)"
| "uring_queue U fd (r # rs) in_flight' q m w =
     (case uring_get_sqe U q m w of
        (Inl e, q1, m1, w1) \<Rightarrow> (Inl e, in_flight', q1, m1, w1)
      | (Inr _, q1, m1, w1) \<Rightarrow>
          uring_queue U fd rs (in_flight' + 1)
            (ur_set_data U (rq_token r)
              (ur_prep_read U fd (rq_buf r) (of_nat (rq_len r)) (rq_offset r) q1)) m1 w1)"

text \<open>A backend whose ring was not created is never handed out: using it is \<open>None\<close>.\<close>

definition uring_submit ::
  "('q, 'w) uring_ops \<Rightarrow> read_request list \<Rightarrow> 'q uring_backend \<Rightarrow> span list \<Rightarrow> 'w \<Rightarrow>
     (unit outcome \<times> 'q uring_backend \<times> span list \<times> 'w) option" where
  "uring_submit U requests b m w =
     (if ub_in_flight b + length requests > unat (ub_depth b)
      then Some (Inl (BackendError (QueueFull ''UringBackend'' EAGAIN)), b, m, w)
      else case ub_ring b of
          None \<Rightarrow> None
        | Some q \<Rightarrow>
            (case uring_queue U (ub_fd b) requests (ub_in_flight b) q m w of
               (Inl e, n, q1, m1, w1) \<Rightarrow> Some (Inl e, b\<lparr>ub_in_flight := n, ub_ring := Some q1\<rparr>, m1, w1)
             | (Inr _, n, q1, m1, w1) \<Rightarrow>
                 (case ur_submit U q1 m1 w1 of (rc, q2, m2, w2) \<Rightarrow>
                    Some (if rc < 0 then Inl (ring_error ''io_uring_submit'' rc) else Inr (),
                      b\<lparr>ub_in_flight := n, ub_ring := Some q2\<rparr>, m2, w2))))"

text \<open>The loop that waits; \<open>got\<close> are the completions in \<open>out\<close> so far, \<open>n\<close> is \<open>in_flight_\<close>.\<close>

function uring_wait ::
  "('q, 'w) uring_ops \<Rightarrow> nat \<Rightarrow> completion list \<Rightarrow> nat \<Rightarrow> 'q \<Rightarrow> span list \<Rightarrow> 'w \<Rightarrow>
     (completion list outcome \<times> nat \<times> 'q \<times> span list \<times> 'w) option" where
  "uring_wait U at_least got n q m w =
     (if length got < at_least \<and> length got < n
      then (case ur_wait_cqe U q m w of
          None \<Rightarrow> None
        | Some (rc, cq, q1, m1, w1) \<Rightarrow>
            if rc < 0 then Some (Inl (ring_error ''io_uring_wait_cqe'' rc), n, q1, m1, w1)
            else uring_wait U at_least (got @ [to_completion cq]) (n - 1) (ur_cqe_seen U q1) m1 w1)
      else Some (Inr got, n, q, m, w))"
  by pat_completeness auto

termination uring_wait
  by (relation "measure (\<lambda>(U, at_least, got, _). at_least - length got)") auto

declare uring_wait.simps [simp del]

definition uring_reap ::
  "('q, 'w) uring_ops \<Rightarrow> nat \<Rightarrow> nat \<Rightarrow> 'q uring_backend \<Rightarrow> span list \<Rightarrow> 'w \<Rightarrow>
     (completion list outcome \<times> 'q uring_backend \<times> span list \<times> 'w) option" where
  "uring_reap U out_size at_least b m w =
     (case ub_ring b of
        None \<Rightarrow> None
      | Some q \<Rightarrow>
          (case uring_wait U (min at_least out_size) [] (ub_in_flight b) q m w of
             None \<Rightarrow> None
           | Some (Inl e, n, q1, m1, w1) \<Rightarrow> Some (Inl e, b\<lparr>ub_in_flight := n, ub_ring := Some q1\<rparr>, m1, w1)
           | Some (Inr got, n, q1, m1, w1) \<Rightarrow>
               let room = min (out_size - length got) 64 in
               if room > 0
               then (case ur_peek U (of_nat room) q1 m1 w1 of (cqes, q2, m2, w2) \<Rightarrow>
                   Some (Inr (got @ map to_completion cqes),
                     b\<lparr>ub_in_flight := n - length cqes,
                       ub_ring := Some (if cqes \<noteq> [] then ur_advance U (of_nat (length cqes)) q2 else q2)\<rparr>,
                     m2, w2))
               else Some (Inr got, b\<lparr>ub_in_flight := n, ub_ring := Some q1\<rparr>, m1, w1)))"

definition uring_destroy ::
  "('q, 'w) uring_ops \<Rightarrow> 'q uring_backend \<Rightarrow> span list \<Rightarrow> 'w \<Rightarrow> (span list \<times> 'w) option" where
  "uring_destroy U b m w =
     (if ub_initialized b
      then (case ub_ring b of None \<Rightarrow> None | Some q \<Rightarrow> Some (ur_queue_exit U q m w))
      else Some (m, w))"

definition open_uring_backend ::
  "('q, 'w) uring_ops \<Rightarrow> int \<Rightarrow> backend_options \<Rightarrow> 'w \<Rightarrow> 'q uring_backend outcome \<times> 'w" where
  "open_uring_backend U fd options w =
     (if bo_queue_depth options = 0
      then (Inl (BackendError (QueueDepthZero ''open_uring_backend'')), w)
      else if \<not> ur_alloc_ok U w then (Inl (BackendError (AllocationFailed ''open_uring_backend'')), w)
      else (case uring_init U \<lparr>ub_fd = fd, ub_depth = bo_queue_depth options, ub_in_flight = 0,
              ub_initialized = False, ub_ring = None\<rparr> w of (rc, b, w') \<Rightarrow>
          if rc < 0 then (Inl (BackendError (RingInitFailed (- rc))), w') else (Inr b, w')))"

definition uring_backend_ops :: "('q, 'w) uring_ops \<Rightarrow> ('q uring_backend, 'w) backend_ops" where
  "uring_backend_ops U = \<lparr>bk_open = open_uring_backend U, bk_in_flight = ub_in_flight, bk_submit = uring_submit U,
     bk_reap = uring_reap U, bk_destroy = uring_destroy U\<rparr>"

subsection \<open>The best backend\<close>

text \<open>What \<open>open_backend\<close> returns is one of the two, and the virtual calls go to it.\<close>

datatype 'q any_backend = Ring "'q uring_backend" | Threads thread_backend

definition open_backend ::
  "'w sys \<Rightarrow> ('q, 'w) uring_ops \<Rightarrow> int \<Rightarrow> backend_options \<Rightarrow> 'w \<Rightarrow> 'q any_backend outcome \<times> 'w" where
  "open_backend K U fd options w =
     (case open_uring_backend U fd options w of
        (Inr b, w1) \<Rightarrow> (Inr (Ring b), w1)
      | (Inl e, w1) \<Rightarrow>
          (case open_thread_backend K fd options w1 of
             (Inr b, w2) \<Rightarrow> (Inr (Threads b), w2)
           | (Inl e2, w2) \<Rightarrow> (Inl e2, w2)))"

fun any_in_flight :: "'q any_backend \<Rightarrow> nat" where
  "any_in_flight (Ring b) = ub_in_flight b"
| "any_in_flight (Threads b) = tb_in_flight b"

fun any_submit ::
  "('q, 'w) uring_ops \<Rightarrow> read_request list \<Rightarrow> 'q any_backend \<Rightarrow> span list \<Rightarrow> 'w \<Rightarrow>
     (unit outcome \<times> 'q any_backend \<times> span list \<times> 'w) option" where
  "any_submit U rs (Ring b) m w = map_option (\<lambda>(r, b', mw). (r, Ring b', mw)) (uring_submit U rs b m w)"
| "any_submit U rs (Threads b) m w = map_option (\<lambda>(r, b', mw). (r, Threads b', mw)) (thread_submit rs b m w)"

fun any_reap ::
  "'w sys \<Rightarrow> ('q, 'w) uring_ops \<Rightarrow> nat \<Rightarrow> nat \<Rightarrow> 'q any_backend \<Rightarrow> span list \<Rightarrow> 'w \<Rightarrow>
     (completion list outcome \<times> 'q any_backend \<times> span list \<times> 'w) option" where
  "any_reap K U n k (Ring b) m w = map_option (\<lambda>(r, b', mw). (r, Ring b', mw)) (uring_reap U n k b m w)"
| "any_reap K U n k (Threads b) m w = map_option (\<lambda>(r, b', mw). (r, Threads b', mw)) (thread_reap K n k b m w)"

fun any_destroy ::
  "'w sys \<Rightarrow> ('q, 'w) uring_ops \<Rightarrow> 'q any_backend \<Rightarrow> span list \<Rightarrow> 'w \<Rightarrow> (span list \<times> 'w) option" where
  "any_destroy K U (Ring b) m w = uring_destroy U b m w"
| "any_destroy K U (Threads b) m w = thread_destroy K b m w"

definition any_ops :: "'w sys \<Rightarrow> ('q, 'w) uring_ops \<Rightarrow> ('q any_backend, 'w) backend_ops" where
  "any_ops K U = \<lparr>bk_open = open_backend K U, bk_in_flight = any_in_flight, bk_submit = any_submit U,
     bk_reap = any_reap K U, bk_destroy = any_destroy K U\<rparr>"

end
