(* ===== verification/UringContract.thy ===== *)
theory UringContract
  imports Uring
begin

text \<open>
  The ring backend keeps the contract of \<open>Backend\<close>, and so does the backend that \<open>open_backend\<close>
  chooses. What is assumed of liburing and the kernel is \<open>uring_law\<close>.
\<close>

section \<open>What liburing promises\<close>

text \<open>
  What a ring holds: entries that are queued but not submitted, reads that are running, and completed reads with
  their results, in the order of the completion queue.
\<close>

record 'q uring_view =
  uq_queued :: "'q \<Rightarrow> sqe list"
  uq_running :: "'q \<Rightarrow> sqe list"
  uq_ready :: "'q \<Rightarrow> (sqe \<times> int) list"

definition cqe_of :: "sqe \<times> int \<Rightarrow> cqe" where
  "cqe_of er = \<lparr>cq_data = sq_data (fst er), cq_res = snd er\<rparr>"

text \<open>
  A completed read of a file with content \<open>c\<close>: an error, or a full read up to the end of the file, with the bytes in
  the buffer.
\<close>

definition sqe_true :: "(int \<Rightarrow> byte list option) \<Rightarrow> span list \<Rightarrow> sqe \<times> int \<Rightarrow> bool" where
  "sqe_true fds m er \<longleftrightarrow> (0 \<le> snd er \<longrightarrow>
     (\<forall>c. fds (sq_fd (fst er)) = Some c \<longrightarrow>
        nat (snd er) = min (unat (sq_len (fst er))) (length c - unat (sq_off (fst er))) \<and>
        take (nat (snd er)) (sp_bytes (m ! sq_buf (fst er))) =
          window (unat (sq_off (fst er))) (nat (snd er)) c))"

definition sqe_bufs :: "sqe list \<Rightarrow> nat set" where
  "sqe_bufs es = sq_buf ` set es"

definition sqe_fits :: "span list \<Rightarrow> sqe \<Rightarrow> bool" where
  "sqe_fits m e \<longleftrightarrow> sq_buf e < length m \<and> unat (sq_len e) \<le> span_size (m ! sq_buf e)"

text \<open>
  The kernel works: some of the reads in \<open>es\<close> complete, the rest keeps running, and only destinations of
  \<open>es\<close> change.
\<close>

definition ring_progress ::
  "'q uring_view \<Rightarrow> (int \<Rightarrow> byte list option) \<Rightarrow> sqe list \<Rightarrow> (sqe \<times> int) list \<Rightarrow> span list \<Rightarrow>
     'q \<Rightarrow> span list \<Rightarrow> bool" where
  "ring_progress Y fds es ready m q' m' \<longleftrightarrow>
     (\<exists>moved. mset es = mset (map fst moved) + mset (uq_running Y q') \<and>
        uq_ready Y q' = ready @ moved \<and> list_all (sqe_true fds m') moved) \<and>
     frame (sqe_bufs es) m m'"

text \<open>
  \<open>io_uring_submit\<close> starts everything that is queued, or fails. A call that waits returns when a read
  is running or complete, because reads of files complete; without an error there is a completion at the head. Destinations
  that fit their buffers are what the kernel may write. Leaving a ring closes no other descriptor.
\<close>

definition ring_init_law :: "('q, 'w) uring_ops \<Rightarrow> 'q uring_view \<Rightarrow> 'w view \<Rightarrow> bool" where
  "ring_init_law U Y V \<longleftrightarrow>
     (\<forall>n w rc q w'. v_good V w \<longrightarrow> ur_queue_init U n w = (rc, q, w') \<longrightarrow> quiet V w w' \<and> rc \<le> 0 \<and>
        (rc = 0 \<longrightarrow> uq_queued Y q = [] \<and> uq_running Y q = [] \<and> uq_ready Y q = []))"

definition ring_sqe_law :: "('q, 'w) uring_ops \<Rightarrow> 'q uring_view \<Rightarrow> 'w view \<Rightarrow> bool" where
  "ring_sqe_law U Y V \<longleftrightarrow>
     (\<forall>q q1 fd buf len off data. ur_get_sqe U q = Some q1 \<longrightarrow>
        (let q2 = ur_set_data U data (ur_prep_read U fd buf len off q1) in
           uq_queued Y q2 = uq_queued Y q @
             [\<lparr>sq_fd = fd, sq_buf = buf, sq_len = len, sq_off = off, sq_data = data\<rparr>] \<and>
           uq_running Y q2 = uq_running Y q \<and> uq_ready Y q2 = uq_ready Y q))"

definition ring_submit_law :: "('q, 'w) uring_ops \<Rightarrow> 'q uring_view \<Rightarrow> 'w view \<Rightarrow> bool" where
  "ring_submit_law U Y V \<longleftrightarrow>
     (\<forall>q m w rc q' m' w'. v_good V w \<longrightarrow> list_all (sqe_fits m) (uq_running Y q @ uq_queued Y q) \<longrightarrow>
        ur_submit U q m w = (rc, q', m', w') \<longrightarrow> quiet V w w' \<and>
        frame (sqe_bufs (uq_running Y q @ uq_queued Y q)) m m' \<and>
        (0 \<le> rc \<longrightarrow> uq_queued Y q' = [] \<and>
           ring_progress Y (v_fds V w) (uq_running Y q @ uq_queued Y q) (uq_ready Y q) m q' m'))"

definition ring_wait_law :: "('q, 'w) uring_ops \<Rightarrow> 'q uring_view \<Rightarrow> 'w view \<Rightarrow> bool" where
  "ring_wait_law U Y V \<longleftrightarrow>
     (\<forall>q m w. v_good V w \<longrightarrow> list_all (sqe_fits m) (uq_running Y q) \<longrightarrow>
        uq_running Y q \<noteq> [] \<or> uq_ready Y q \<noteq> [] \<longrightarrow>
        (\<exists>rc cq q' m' w'. ur_wait_cqe U q m w = Some (rc, cq, q', m', w') \<and> quiet V w w' \<and>
           frame (sqe_bufs (uq_running Y q)) m m' \<and>
           (0 \<le> rc \<longrightarrow> uq_ready Y q' \<noteq> [] \<and> cq = cqe_of (hd (uq_ready Y q')) \<and> uq_queued Y q' = uq_queued Y q \<and>
              ring_progress Y (v_fds V w) (uq_running Y q) (uq_ready Y q) m q' m')))"

definition ring_seen_law :: "('q, 'w) uring_ops \<Rightarrow> 'q uring_view \<Rightarrow> 'w view \<Rightarrow> bool" where
  "ring_seen_law U Y V \<longleftrightarrow>
     (\<forall>q. uq_ready Y q \<noteq> [] \<longrightarrow> uq_ready Y (ur_cqe_seen U q) = tl (uq_ready Y q) \<and>
        uq_queued Y (ur_cqe_seen U q) = uq_queued Y q \<and> uq_running Y (ur_cqe_seen U q) = uq_running Y q)"

definition ring_peek_law :: "('q, 'w) uring_ops \<Rightarrow> 'q uring_view \<Rightarrow> 'w view \<Rightarrow> bool" where
  "ring_peek_law U Y V \<longleftrightarrow>
     (\<forall>n q m w cqes q' m' w'. v_good V w \<longrightarrow> list_all (sqe_fits m) (uq_running Y q) \<longrightarrow>
        ur_peek U n q m w = (cqes, q', m', w') \<longrightarrow> quiet V w w' \<and> length cqes \<le> unat n \<and>
        length cqes \<le> length (uq_ready Y q') \<and>
        cqes = map cqe_of (take (length cqes) (uq_ready Y q')) \<and> uq_queued Y q' = uq_queued Y q \<and>
        ring_progress Y (v_fds V w) (uq_running Y q) (uq_ready Y q) m q' m')"

definition ring_advance_law :: "('q, 'w) uring_ops \<Rightarrow> 'q uring_view \<Rightarrow> 'w view \<Rightarrow> bool" where
  "ring_advance_law U Y V \<longleftrightarrow>
     (\<forall>n q. unat n \<le> length (uq_ready Y q) \<longrightarrow> uq_ready Y (ur_advance U n q) = drop (unat n) (uq_ready Y q) \<and>
        uq_queued Y (ur_advance U n q) = uq_queued Y q \<and> uq_running Y (ur_advance U n q) = uq_running Y q)"

definition ring_exit_law :: "('q, 'w) uring_ops \<Rightarrow> 'q uring_view \<Rightarrow> 'w view \<Rightarrow> bool" where
  "ring_exit_law U Y V \<longleftrightarrow>
     (\<forall>q m w m' w'. v_good V w \<longrightarrow> ur_queue_exit U q m w = (m', w') \<longrightarrow> quiet V w w' \<and>
        (list_all (sqe_fits m) (uq_running Y q) \<longrightarrow> frame (sqe_bufs (uq_running Y q)) m m'))"

definition uring_law :: "('q, 'w) uring_ops \<Rightarrow> 'q uring_view \<Rightarrow> 'w view \<Rightarrow> bool" where
  "uring_law U Y V \<longleftrightarrow>
     ring_init_law U Y V \<and> ring_sqe_law U Y V \<and> ring_submit_law U Y V \<and> ring_wait_law U Y V \<and>
     ring_seen_law U Y V \<and> ring_peek_law U Y V \<and> ring_advance_law U Y V \<and> ring_exit_law U Y V"

lemma uring_init_law:
  "uring_law U Y V \<Longrightarrow> v_good V w \<Longrightarrow> ur_queue_init U n w = (rc, q, w') \<Longrightarrow> quiet V w w' \<and> rc \<le> 0 \<and>
     (rc = 0 \<longrightarrow> uq_queued Y q = [] \<and> uq_running Y q = [] \<and> uq_ready Y q = [])"
  unfolding uring_law_def ring_init_law_def by blast

lemma uring_sqe_law:
  "uring_law U Y V \<Longrightarrow> ur_get_sqe U q = Some q1 \<Longrightarrow>
     q2 = ur_set_data U data (ur_prep_read U fd buf len off q1) \<Longrightarrow>
     uq_queued Y q2 = uq_queued Y q @
       [\<lparr>sq_fd = fd, sq_buf = buf, sq_len = len, sq_off = off, sq_data = data\<rparr>] \<and>
     uq_running Y q2 = uq_running Y q \<and> uq_ready Y q2 = uq_ready Y q"
  unfolding uring_law_def ring_sqe_law_def Let_def by blast

lemma uring_submit_law:
  "uring_law U Y V \<Longrightarrow> v_good V w \<Longrightarrow> list_all (sqe_fits m) (uq_running Y q @ uq_queued Y q) \<Longrightarrow>
     ur_submit U q m w = (rc, q', m', w') \<Longrightarrow> quiet V w w' \<and>
        frame (sqe_bufs (uq_running Y q @ uq_queued Y q)) m m' \<and>
        (0 \<le> rc \<longrightarrow> uq_queued Y q' = [] \<and>
           ring_progress Y (v_fds V w) (uq_running Y q @ uq_queued Y q) (uq_ready Y q) m q' m')"
  unfolding uring_law_def ring_submit_law_def by blast

lemma uring_wait_law:
  "uring_law U Y V \<Longrightarrow> v_good V w \<Longrightarrow> list_all (sqe_fits m) (uq_running Y q) \<Longrightarrow>
     uq_running Y q \<noteq> [] \<or> uq_ready Y q \<noteq> [] \<Longrightarrow>
     \<exists>rc cq q' m' w'. ur_wait_cqe U q m w = Some (rc, cq, q', m', w') \<and> quiet V w w' \<and>
           frame (sqe_bufs (uq_running Y q)) m m' \<and>
           (0 \<le> rc \<longrightarrow> uq_ready Y q' \<noteq> [] \<and> cq = cqe_of (hd (uq_ready Y q')) \<and> uq_queued Y q' = uq_queued Y q \<and>
              ring_progress Y (v_fds V w) (uq_running Y q) (uq_ready Y q) m q' m')"
  unfolding uring_law_def ring_wait_law_def by blast

lemma uring_seen_law:
  "uring_law U Y V \<Longrightarrow> uq_ready Y q \<noteq> [] \<Longrightarrow> uq_ready Y (ur_cqe_seen U q) = tl (uq_ready Y q) \<and>
        uq_queued Y (ur_cqe_seen U q) = uq_queued Y q \<and> uq_running Y (ur_cqe_seen U q) = uq_running Y q"
  unfolding uring_law_def ring_seen_law_def by blast

lemma uring_peek_law:
  "uring_law U Y V \<Longrightarrow> v_good V w \<Longrightarrow> list_all (sqe_fits m) (uq_running Y q) \<Longrightarrow>
     ur_peek U n q m w = (cqes, q', m', w') \<Longrightarrow> quiet V w w' \<and> length cqes \<le> unat n \<and>
        length cqes \<le> length (uq_ready Y q') \<and>
        cqes = map cqe_of (take (length cqes) (uq_ready Y q')) \<and> uq_queued Y q' = uq_queued Y q \<and>
        ring_progress Y (v_fds V w) (uq_running Y q) (uq_ready Y q) m q' m'"
  unfolding uring_law_def ring_peek_law_def by blast

lemma uring_advance_law:
  "uring_law U Y V \<Longrightarrow> unat n \<le> length (uq_ready Y q) \<Longrightarrow>
     uq_ready Y (ur_advance U n q) = drop (unat n) (uq_ready Y q) \<and>
        uq_queued Y (ur_advance U n q) = uq_queued Y q \<and> uq_running Y (ur_advance U n q) = uq_running Y q"
  unfolding uring_law_def ring_advance_law_def by blast

lemma uring_exit_law:
  "uring_law U Y V \<Longrightarrow> v_good V w \<Longrightarrow> ur_queue_exit U q m w = (m', w') \<Longrightarrow> quiet V w w' \<and>
     (list_all (sqe_fits m) (uq_running Y q) \<longrightarrow> frame (sqe_bufs (uq_running Y q)) m m')"
  unfolding uring_law_def ring_exit_law_def by blast

section \<open>The invariant\<close>

text \<open>All reads of a ring that have not been handed out.\<close>

definition ring_sqes :: "'q uring_view \<Rightarrow> 'q \<Rightarrow> sqe list" where
  "ring_sqes Y q = uq_running Y q @ uq_queued Y q @ map fst (uq_ready Y q)"

definition request_of_sqe :: "sqe \<Rightarrow> read_request" where
  "request_of_sqe e = \<lparr>rq_offset = sq_off e, rq_buf = sq_buf e, rq_len = unat (sq_len e), rq_token = sq_data e\<rparr>"

text \<open>The ring of a backend that reads the file with content \<open>c\<close>.\<close>

definition ring_inv :: "'q uring_view \<Rightarrow> int \<Rightarrow> byte list \<Rightarrow> nat \<Rightarrow> 'q \<Rightarrow> span list \<Rightarrow> bool" where
  "ring_inv Y fd c n q m \<longleftrightarrow>
     n = length (ring_sqes Y q) \<and> distinct (map sq_buf (ring_sqes Y q)) \<and>
     (\<forall>e \<in> set (ring_sqes Y q). sq_fd e = fd \<and> sqe_fits m e) \<and>
     list_all (sqe_true (\<lambda>d. if d = fd then Some c else None) m) (uq_ready Y q)"

definition uring_world ::
  "'w sys \<Rightarrow> ('q, 'w) uring_ops \<Rightarrow> 'q uring_view \<Rightarrow> 'w view \<Rightarrow> 'w \<Rightarrow> bool" where
  "uring_world K U Y V w \<longleftrightarrow> thread_world K V w \<and> uring_law U Y V"

definition uring_requests :: "'q uring_view \<Rightarrow> 'q uring_backend \<Rightarrow> read_request list" where
  "uring_requests Y b = (case ub_ring b of None \<Rightarrow> [] | Some q \<Rightarrow> map request_of_sqe (ring_sqes Y q))"

definition uring_inv ::
  "'w sys \<Rightarrow> ('q, 'w) uring_ops \<Rightarrow> 'q uring_view \<Rightarrow> 'w view \<Rightarrow> int \<Rightarrow> byte list \<Rightarrow> 'q uring_backend \<Rightarrow>
     span list \<Rightarrow> 'w \<Rightarrow> bool" where
  "uring_inv K U Y V fd c b m w \<longleftrightarrow> uring_world K U Y V w \<and> ub_fd b = fd \<and> v_fds V w fd = Some c \<and>
     ub_initialized b \<and>
     (\<exists>q. ub_ring b = Some q \<and> uq_queued Y q = [] \<and> ring_inv Y (ub_fd b) c (ub_in_flight b) q m)"

lemma sqe_true_frame:
  "sqe_true fds m er \<Longrightarrow> frame A m m' \<Longrightarrow> sq_buf (fst er) < length m \<Longrightarrow> sq_buf (fst er) \<notin> A \<Longrightarrow> sqe_true fds m' er"
  unfolding sqe_true_def using frame_same by metis

lemma sqe_true_fds:
  "sqe_true fds m er \<Longrightarrow> fds (sq_fd (fst er)) = Some c \<Longrightarrow> sq_fd (fst er) = fd \<Longrightarrow>
     sqe_true (\<lambda>d. if d = fd then Some c else None) m er"
  unfolding sqe_true_def by metis

lemma sqe_fits_frame: "sqe_fits m e \<Longrightarrow> frame A m m' \<Longrightarrow> sqe_fits m' e"
  by (simp add: sqe_fits_def frame_def)

text \<open>The kernel's progress keeps the invariant, and no read gets lost.\<close>

lemma ring_inv_progress:
  assumes inv: "ring_inv Y fd c n q m" and fd: "fds fd = Some c"
    and prog: "ring_progress Y fds es (uq_ready Y q) m q' m'"
    and es: "mset es + mset (uq_queued Y q') = mset (uq_running Y q) + mset (uq_queued Y q)"
  shows "ring_inv Y fd c n q' m'" and "mset (ring_sqes Y q') = mset (ring_sqes Y q)"
proof -
  from prog obtain moved where moved: "mset es = mset (map fst moved) + mset (uq_running Y q')"
      "uq_ready Y q' = uq_ready Y q @ moved" "list_all (sqe_true fds m') moved"
    and fr: "frame (sqe_bufs es) m m'" by (auto simp: ring_progress_def)
  show same: "mset (ring_sqes Y q') = mset (ring_sqes Y q)"
    using moved(1,2) es by (simp add: ring_sqes_def) (metis (no_types, lifting) add.assoc add.commute)
  then have set: "set (ring_sqes Y q') = set (ring_sqes Y q)" by (rule mset_eq_setD)
  have dist: "distinct (map sq_buf (ring_sqes Y q'))"
    using inv mset_eq_imp_distinct_iff [of "map sq_buf (ring_sqes Y q')" "map sq_buf (ring_sqes Y q)"] same
    by (simp add: ring_inv_def)
  have fit: "\<forall>e \<in> set (ring_sqes Y q'). sq_fd e = fd \<and> sqe_fits m' e"
    using inv set fr by (auto simp: ring_inv_def intro: sqe_fits_frame)
  have old: "sqe_true (\<lambda>d. if d = fd then Some c else None) m' er" if er: "er \<in> set (uq_ready Y q)" for er
  proof (rule sqe_true_frame [OF _ fr])
    show "sqe_true (\<lambda>d. if d = fd then Some c else None) m er"
      using inv er by (simp add: ring_inv_def list_all_iff)
    have "fst er \<in> set (ring_sqes Y q)" using er by (simp add: ring_sqes_def)
    then show "sq_buf (fst er) < length m" using inv by (auto simp: ring_inv_def sqe_fits_def)
    have "set es \<subseteq> set (uq_running Y q @ uq_queued Y q)"
      using es by (metis mset_append mset_subset_eq_add_left set_mset_mset set_mset_mono)
    then have "sqe_bufs es \<subseteq> set (map sq_buf (uq_running Y q @ uq_queued Y q))"
      by (auto simp: sqe_bufs_def)
    moreover have "distinct (map sq_buf (uq_running Y q @ uq_queued Y q) @ map sq_buf (map fst (uq_ready Y q)))"
      using inv unfolding ring_inv_def ring_sqes_def map_append append_assoc by blast
    then have "set (map sq_buf (uq_running Y q @ uq_queued Y q)) \<inter> set (map sq_buf (map fst (uq_ready Y q))) = {}"
      unfolding distinct_append by blast
    moreover have "sq_buf (fst er) \<in> set (map sq_buf (map fst (uq_ready Y q)))" using er by simp
    ultimately show "sq_buf (fst er) \<notin> sqe_bufs es" by blast
  qed
  have new: "sqe_true (\<lambda>d. if d = fd then Some c else None) m' er" if er: "er \<in> set moved" for er
  proof -
    have "fst er \<in> set (ring_sqes Y q')" using er moved(2) by (simp add: ring_sqes_def)
    then have "sq_fd (fst er) = fd" using fit by blast
    moreover have "sqe_true fds m' er" using moved(3) er by (simp add: list_all_iff)
    ultimately show ?thesis using sqe_true_fds [of fds m' er c fd] fd by simp
  qed
  have len: "length (ring_sqes Y q') = length (ring_sqes Y q)" using same by (metis size_mset)
  show "ring_inv Y fd c n q' m'"
    using inv len dist fit old new moved(2) by (auto simp: ring_inv_def list_all_iff)
qed

lemma ring_fits: "ring_inv Y fd c n q m \<Longrightarrow> set es \<subseteq> set (ring_sqes Y q) \<Longrightarrow> list_all (sqe_fits m) es"
  by (auto simp: ring_inv_def list_all_iff)

lemma sqe_bufs_mset: "mset es = mset es' \<Longrightarrow> sqe_bufs es = sqe_bufs es'"
  unfolding sqe_bufs_def by (metis mset_eq_setD)

lemma sqe_bufs_append [simp]: "sqe_bufs (es @ es') = sqe_bufs es \<union> sqe_bufs es'"
  by (auto simp: sqe_bufs_def)

lemma sqe_bufs_Cons [simp]: "sqe_bufs (e # es) = insert (sq_buf e) (sqe_bufs es)"
  by (simp add: sqe_bufs_def)

lemma sqe_bufs_running: "sqe_bufs (uq_running Y q) \<subseteq> sqe_bufs (ring_sqes Y q)"
  by (simp add: ring_sqes_def)

lemma ring_inv_add:
  assumes inv: "ring_inv Y fd c n q m" and e: "sq_fd e = fd" "sqe_fits m e" "sq_buf e \<notin> sqe_bufs (ring_sqes Y q)"
    and q2: "uq_queued Y q2 = uq_queued Y q @ [e]" "uq_running Y q2 = uq_running Y q" "uq_ready Y q2 = uq_ready Y q"
  shows "ring_inv Y fd c (Suc n) q2 m" and "mset (ring_sqes Y q2) = add_mset e (mset (ring_sqes Y q))"
proof -
  show same: "mset (ring_sqes Y q2) = add_mset e (mset (ring_sqes Y q))"
    using q2 by (simp add: ring_sqes_def)
  then have m: "mset (map sq_buf (ring_sqes Y q2)) = mset (map sq_buf (e # ring_sqes Y q))" by simp
  have "distinct (map sq_buf (e # ring_sqes Y q))"
    using inv e(3) by (simp add: ring_inv_def sqe_bufs_def)
  then have d: "distinct (map sq_buf (ring_sqes Y q2))" using mset_eq_imp_distinct_iff [OF m] by simp
  have s: "set (ring_sqes Y q2) = insert e (set (ring_sqes Y q))"
    using same by (metis set_mset_add_mset_insert set_mset_mset)
  have l: "length (ring_sqes Y q2) = Suc (length (ring_sqes Y q))"
    using same by (metis size_add_mset size_mset)
  show "ring_inv Y fd c (Suc n) q2 m"
    using inv d s l e q2(3) by (simp add: ring_inv_def)
qed

text \<open>Submitting, whatever is queued.\<close>

lemma ring_submit_correct:
  assumes law: "uring_law U Y V" and good: "v_good V w" and fd: "v_fds V w fd = Some c"
    and inv: "ring_inv Y fd c n q m" and call: "ur_submit U q m w = (rc, q', m', w')"
  shows "quiet V w w' \<and> frame (sqe_bufs (ring_sqes Y q)) m m' \<and>
    (0 \<le> rc \<longrightarrow> uq_queued Y q' = [] \<and> ring_inv Y fd c n q' m' \<and> mset (ring_sqes Y q') = mset (ring_sqes Y q))"
proof -
  have "list_all (sqe_fits m) (uq_running Y q @ uq_queued Y q)"
    by (rule ring_fits [OF inv]) (auto simp: ring_sqes_def)
  from uring_submit_law [OF law good this call] have
    s: "quiet V w w'" "frame (sqe_bufs (uq_running Y q @ uq_queued Y q)) m m'"
    and ok: "0 \<le> rc \<longrightarrow> uq_queued Y q' = [] \<and>
      ring_progress Y (v_fds V w) (uq_running Y q @ uq_queued Y q) (uq_ready Y q) m q' m'" by blast+
  from s(2) have "frame (sqe_bufs (ring_sqes Y q)) m m'"
    by (rule frame_mono) (auto simp: ring_sqes_def)
  moreover have "ring_inv Y fd c n q' m' \<and> mset (ring_sqes Y q') = mset (ring_sqes Y q)" if "0 \<le> rc"
    using ring_inv_progress [where fds = "v_fds V w", OF inv fd] ok that by auto
  ultimately show ?thesis using s(1) ok by blast
qed

lemma uring_get_sqe_correct:
  assumes law: "uring_law U Y V" and good: "v_good V w" and fd: "v_fds V w fd = Some c"
    and inv: "ring_inv Y fd c n q m" and call: "uring_get_sqe U q m w = (r, q1, m1, w1)"
  shows "quiet V w w1 \<and> frame (sqe_bufs (ring_sqes Y q)) m m1 \<and>
    (r = Inr () \<longrightarrow> (\<exists>q0. ur_get_sqe U q0 = Some q1 \<and> ring_inv Y fd c n q0 m1 \<and>
       mset (ring_sqes Y q0) = mset (ring_sqes Y q)))"
proof (cases "ur_get_sqe U q")
  case (Some q2)
  with call inv good show ?thesis by (auto simp: uring_get_sqe_def)
next
  case None
  obtain rc q2 m2 w2 where s: "ur_submit U q m w = (rc, q2, m2, w2)" by (metis prod.exhaust)
  from ring_submit_correct [OF law good fd inv s] None s call show ?thesis
    by (cases "ur_get_sqe U q2") (auto simp: uring_get_sqe_def split: if_splits)
qed

lemma uring_queue_correct:
  assumes "uring_law U Y V" and "v_good V w" and "v_fds V w fd = Some c"
    and "ring_inv Y fd c n q m" and "list_all (request_fits m) rs"
    and "list_all (\<lambda>r. rq_len r < 2 ^ 32) rs" and "distinct (map rq_buf rs)"
    and "bufs_of rs \<inter> sqe_bufs (ring_sqes Y q) = {}"
    and "uring_queue U fd rs n q m w = (r, n', q', m', w')"
  shows "quiet V w w' \<and> frame (sqe_bufs (ring_sqes Y q) \<union> bufs_of rs) m m' \<and>
    (r = Inr () \<longrightarrow> ring_inv Y fd c n' q' m' \<and>
       mset (map request_of_sqe (ring_sqes Y q')) = mset (map request_of_sqe (ring_sqes Y q)) + mset rs)"
  using assms(2-)
proof (induction rs arbitrary: n q m w)
  case Nil
  then show ?case by auto
next
  case (Cons a rs)
  obtain r1 q1 m1 w1 where g: "uring_get_sqe U q m w = (r1, q1, m1, w1)" by (metis prod.exhaust)
  note get = uring_get_sqe_correct [OF assms(1) Cons.prems(1-3) g]
  show ?case
  proof (cases r1)
    case (Inl e)
    then have "r = Inl e" "m' = m1" "w' = w1" using Cons.prems(8) g by simp_all
    with get show ?thesis by (auto intro: frame_mono)
  next
    case (Inr u)
    with get obtain q0 where q0: "ur_get_sqe U q0 = Some q1" "ring_inv Y fd c n q0 m1"
        "mset (ring_sqes Y q0) = mset (ring_sqes Y q)"
      and quiet1: "quiet V w w1" and fr1: "frame (sqe_bufs (ring_sqes Y q)) m m1" by auto
    let ?q2 = "ur_set_data U (rq_token a) (ur_prep_read U fd (rq_buf a) (of_nat (rq_len a)) (rq_offset a) q1)"
    let ?e = "\<lparr>sq_fd = fd, sq_buf = rq_buf a, sq_len = of_nat (rq_len a), sq_off = rq_offset a, sq_data = rq_token a\<rparr>"
    have len: "unat (of_nat (rq_len a) :: u32) = rq_len a"
      using Cons.prems(5) by (simp add: unat_of_nat take_bit_nat_eq_self)
    then have req: "request_of_sqe ?e = a" by (simp add: request_of_sqe_def)
    have bufs: "sqe_bufs (ring_sqes Y q0) = sqe_bufs (ring_sqes Y q)" by (rule sqe_bufs_mset [OF q0(3)])
    have fit: "list_all (request_fits m1) (a # rs)"
      using Cons.prems(4) fr1 by (auto simp: list_all_iff intro: request_fits_frame)
    then have "sqe_fits m1 ?e" by (simp add: sqe_fits_def request_fits_def len)
    moreover have "sq_buf ?e \<notin> sqe_bufs (ring_sqes Y q0)" using Cons.prems(7) bufs by (auto simp: bufs_of_def)
    moreover note q2 = uring_sqe_law [OF assms(1) q0(1), where ?q2.0 = ?q2 and data = "rq_token a" and fd = fd
        and buf = "rq_buf a" and len = "of_nat (rq_len a)" and off = "rq_offset a", OF refl]
    ultimately have add: "ring_inv Y fd c (Suc n) ?q2 m1"
        "mset (ring_sqes Y ?q2) = add_mset ?e (mset (ring_sqes Y q0))"
      using ring_inv_add [OF q0(2), of ?e ?q2] by simp_all
    have bufs2: "sqe_bufs (ring_sqes Y ?q2) = insert (rq_buf a) (sqe_bufs (ring_sqes Y q))"
      using sqe_bufs_mset [of "ring_sqes Y ?q2" "?e # ring_sqes Y q0"] add(2) bufs by (simp add: sqe_bufs_def)
    have "uring_queue U fd rs (Suc n) ?q2 m1 w1 = (r, n', q', m', w')"
      using Cons.prems(8) g Inr by simp
    from Cons.IH [OF quiet_good [OF quiet1] _ add(1) _ _ _ _ this] have
      ih: "quiet V w1 w' \<and> frame (sqe_bufs (ring_sqes Y ?q2) \<union> bufs_of rs) m1 m' \<and>
       (r = Inr () \<longrightarrow> ring_inv Y fd c n' q' m' \<and>
         mset (map request_of_sqe (ring_sqes Y q')) = mset (map request_of_sqe (ring_sqes Y ?q2)) + mset rs)"
      using Cons.prems(2,5,6,7) fit quiet1 bufs2 by (auto simp: quiet_def bufs_of_def)
    have reqs: "mset (map request_of_sqe (ring_sqes Y ?q2)) =
        add_mset a (mset (map request_of_sqe (ring_sqes Y q)))"
      using add(2) q0(3) req by simp
    have "frame (sqe_bufs (ring_sqes Y q) \<union> bufs_of (a # rs)) m m'"
      using ih bufs2 by (intro frame_trans [OF fr1, of "sqe_bufs (ring_sqes Y ?q2) \<union> bufs_of rs"])
        (auto simp: bufs_of_def)
    with ih reqs quiet_trans [OF quiet1] show ?thesis by simp
  qed
qed

section \<open>Handing out completions\<close>

lemma sqe_true_completes:
  assumes "sqe_true (\<lambda>d. if d = fd then Some c else None) m er" and "sq_fd (fst er) = fd"
  shows "completes c m (request_of_sqe (fst er)) (to_completion (cqe_of er))"
  using assms by (auto simp: sqe_true_def completes_def to_completion_def cqe_of_def request_of_sqe_def)

lemma bufs_of_requests: "bufs_of (map request_of_sqe es) = sqe_bufs es"
  by (simp add: bufs_of_def sqe_bufs_def request_of_sqe_def image_image)

lemma ring_take:
  assumes inv: "ring_inv Y fd c n q m" and ready: "uq_ready Y q = taken @ left"
    and q2: "uq_ready Y q2 = left" "uq_queued Y q2 = uq_queued Y q" "uq_running Y q2 = uq_running Y q"
  shows "ring_inv Y fd c (n - length taken) q2 m"
    and "length taken \<le> n"
    and "mset (ring_sqes Y q) = mset (map fst taken) + mset (ring_sqes Y q2)"
    and "list_all2 (completes c m) (map request_of_sqe (map fst taken)) (map to_completion (map cqe_of taken))"
    and "sqe_bufs (map fst taken) \<inter> sqe_bufs (ring_sqes Y q2) = {}"
    and "\<forall>p \<in> set (map request_of_sqe (map fst taken)). rq_buf p < length m"
proof -
  have all: "\<forall>e \<in> set (ring_sqes Y q). sq_fd e = fd \<and> sqe_fits m e"
    and true: "list_all (sqe_true (\<lambda>d. if d = fd then Some c else None) m) (uq_ready Y q)"
    using inv unfolding ring_inv_def by blast+
  show split: "mset (ring_sqes Y q) = mset (map fst taken) + mset (ring_sqes Y q2)"
    using ready q2 by (simp add: ring_sqes_def)
  then have m0: "mset (ring_sqes Y q) = mset (map fst taken @ ring_sqes Y q2)" by simp
  then have m: "mset (map sq_buf (ring_sqes Y q)) = mset (map sq_buf (map fst taken @ ring_sqes Y q2))"
    unfolding mset_map by (rule arg_cong)
  have d: "distinct (map sq_buf (map fst taken @ ring_sqes Y q2))"
    using inv mset_eq_imp_distinct_iff [OF m] unfolding ring_inv_def by blast
  have s: "set (ring_sqes Y q) = set (map fst taken) \<union> set (ring_sqes Y q2)"
    using mset_eq_setD [OF m0] by simp
  have l: "n = length taken + length (ring_sqes Y q2)"
    using inv mset_eq_length [OF m0] by (simp add: ring_inv_def)
  then show "length taken \<le> n" by simp
  show "sqe_bufs (map fst taken) \<inter> sqe_bufs (ring_sqes Y q2) = {}"
    using d unfolding map_append distinct_append sqe_bufs_def set_map by blast
  show "ring_inv Y fd c (n - length taken) q2 m"
    unfolding ring_inv_def
  proof (intro conjI)
    show "n - length taken = length (ring_sqes Y q2)" using l by simp
    show "distinct (map sq_buf (ring_sqes Y q2))" using d unfolding map_append distinct_append by blast
    show "\<forall>e \<in> set (ring_sqes Y q2). sq_fd e = fd \<and> sqe_fits m e" using all s by blast
    show "list_all (sqe_true (\<lambda>d. if d = fd then Some c else None) m) (uq_ready Y q2)"
      using true ready q2(1) by simp
  qed
  have t: "sq_fd (fst er) = fd" "sqe_true (\<lambda>d. if d = fd then Some c else None) m er" "sqe_fits m (fst er)"
    if "er \<in> set taken" for er
  proof -
    have "fst er \<in> set (ring_sqes Y q)" using that s by simp
    then show "sq_fd (fst er) = fd" "sqe_fits m (fst er)" using all by blast+
    show "sqe_true (\<lambda>d. if d = fd then Some c else None) m er"
      using true that ready by (simp add: list_all_iff)
  qed
  show "list_all2 (completes c m) (map request_of_sqe (map fst taken)) (map to_completion (map cqe_of taken))"
    by (simp add: list_all2_conv_all_nth sqe_true_completes [OF t(2,1)])
  show "\<forall>p \<in> set (map request_of_sqe (map fst taken)). rq_buf p < length m"
    using t by (auto simp: request_of_sqe_def sqe_fits_def)
qed

text \<open>
  The waiting loop: it stops when it has \<open>at_least\<close> completions, or as many as are still in flight.
\<close>

lemma uring_wait_correct:
  assumes "uring_law U Y V" and "v_good V w" and "v_fds V w fd = Some c"
    and "ring_inv Y fd c n q m" and "uq_queued Y q = []"
  shows "\<exists>r n' q' m' w'. uring_wait U k got n q m w = Some (r, n', q', m', w') \<and>
    quiet V w w' \<and> frame (sqe_bufs (ring_sqes Y q)) m m' \<and>
    (\<forall>got'. r = Inr got' \<longrightarrow> ring_inv Y fd c n' q' m' \<and> uq_queued Y q' = [] \<and>
       length got' \<le> max k (length got) \<and> (k \<le> length got' \<or> n' \<le> length got') \<and>
       n' + length got' = n + length got \<and>
       (\<exists>new es. got' = got @ new \<and> mset (ring_sqes Y q) = mset es + mset (ring_sqes Y q') \<and>
          list_all2 (completes c m') (map request_of_sqe es) new))"
  using assms(2-)
proof (induction "k - length got" arbitrary: got n q m w rule: less_induct)
  case less
  show ?case
  proof (cases "length got < k \<and> length got < n")
    case False
    then have "uring_wait U k got n q m w = Some (Inr got, n, q, m, w)"
      by (subst uring_wait.simps) (simp only: if_False)
    moreover have "mset (ring_sqes Y q) = mset [] + mset (ring_sqes Y q) \<and>
        list_all2 (completes c m) (map request_of_sqe []) []" by simp
    ultimately show ?thesis using less.prems False by fastforce
  next
    case True
    have "ring_sqes Y q \<noteq> []" using True less.prems(3) by (auto simp: ring_inv_def)
    then have "uq_running Y q \<noteq> [] \<or> uq_ready Y q \<noteq> []" using less.prems(4) by (simp add: ring_sqes_def)
    moreover have "list_all (sqe_fits m) (uq_running Y q)"
      by (rule ring_fits [OF less.prems(3)]) (auto simp: ring_sqes_def)
    ultimately obtain rc cq q1 m1 w1 where wait: "ur_wait_cqe U q m w = Some (rc, cq, q1, m1, w1)" "quiet V w w1"
        "frame (sqe_bufs (uq_running Y q)) m m1"
      and got1: "0 \<le> rc \<longrightarrow> uq_ready Y q1 \<noteq> [] \<and> cq = cqe_of (hd (uq_ready Y q1)) \<and> uq_queued Y q1 = uq_queued Y q \<and>
        ring_progress Y (v_fds V w) (uq_running Y q) (uq_ready Y q) m q1 m1"
      using uring_wait_law [OF assms(1) less.prems(1)] by blast
    have fr1: "frame (sqe_bufs (ring_sqes Y q)) m m1"
      by (rule frame_mono [OF wait(3) sqe_bufs_running])
    show ?thesis
    proof (cases "rc < 0")
      case neg: True
      then have "uring_wait U k got n q m w = Some (Inl (ring_error ''io_uring_wait_cqe'' rc), n, q1, m1, w1)"
        using True wait(1) by (subst uring_wait.simps) simp
      then show ?thesis using wait(2) fr1 by auto
    next
      case pos: False
      then obtain er left where er: "uq_ready Y q1 = er # left" "cq = cqe_of er" "uq_queued Y q1 = []"
        and prog: "ring_progress Y (v_fds V w) (uq_running Y q) (uq_ready Y q) m q1 m1"
        using got1 less.prems(4) by (cases "uq_ready Y q1") auto
      have inv1: "ring_inv Y fd c n q1 m1" and ms1: "mset (ring_sqes Y q1) = mset (ring_sqes Y q)"
        using ring_inv_progress [OF less.prems(3) less.prems(2) prog] er(3) less.prems(4) by simp_all
      let ?q2 = "ur_cqe_seen U q1"
      have seen: "uq_ready Y ?q2 = left" "uq_queued Y ?q2 = uq_queued Y q1" "uq_running Y ?q2 = uq_running Y q1"
        using uring_seen_law [OF assms(1), of q1] er(1) by simp_all
      have rd: "uq_ready Y q1 = [er] @ left" using er(1) by simp
      note take = ring_take [OF inv1 rd seen]
      have "k - length (got @ [to_completion cq]) < k - length got" using True by (simp, linarith)
      from less.hyps [OF this quiet_good [OF wait(2)] _ take(1)] less.prems(2) wait(2) seen(2) er(3)
      obtain r n' q' m' w' where
        ih: "uring_wait U k (got @ [to_completion cq]) (n - 1) ?q2 m1 w1 = Some (r, n', q', m', w')"
          "quiet V w1 w'" "frame (sqe_bufs (ring_sqes Y ?q2)) m1 m'"
        and post: "\<forall>got'. r = Inr got' \<longrightarrow> ring_inv Y fd c n' q' m' \<and> uq_queued Y q' = [] \<and>
           length got' \<le> max k (length (got @ [to_completion cq])) \<and> (k \<le> length got' \<or> n' \<le> length got') \<and>
           n' + length got' = n - 1 + length (got @ [to_completion cq]) \<and>
           (\<exists>new es. got' = (got @ [to_completion cq]) @ new \<and> mset (ring_sqes Y ?q2) = mset es + mset (ring_sqes Y q') \<and>
              list_all2 (completes c m') (map request_of_sqe es) new)"
        by (auto simp: quiet_def)
      have go: "uring_wait U k got n q m w = Some (r, n', q', m', w')"
        using True pos wait(1) ih(1) by (subst uring_wait.simps) simp
      have sub: "sqe_bufs (ring_sqes Y ?q2) \<subseteq> sqe_bufs (ring_sqes Y q)"
        using sqe_bufs_mset [OF ms1] take(3) sqe_bufs_mset [of "ring_sqes Y q1" "map fst [er] @ ring_sqes Y ?q2"] by auto
      have fr: "frame (sqe_bufs (ring_sqes Y q)) m m'"
        by (rule frame_trans [OF fr1 ih(3) order_refl sub])
      have first: "list_all2 (completes c m') [request_of_sqe (fst er)] [to_completion cq]"
        using completes_list_frame [OF take(4) ih(3)] take(5,6) er(2)
        by (simp add: bufs_of_def sqe_bufs_def request_of_sqe_def)
      have "\<exists>new es. got' = got @ new \<and> mset (ring_sqes Y q) = mset es + mset (ring_sqes Y q') \<and>
          list_all2 (completes c m') (map request_of_sqe es) new" if "r = Inr got'" for got'
      proof -
        from post that obtain new es where "got' = (got @ [to_completion cq]) @ new"
          "mset (ring_sqes Y ?q2) = mset es + mset (ring_sqes Y q')"
          "list_all2 (completes c m') (map request_of_sqe es) new" by blast
        then have "got' = got @ (to_completion cq # new)"
          "mset (ring_sqes Y q) = mset (fst er # es) + mset (ring_sqes Y q')"
          "list_all2 (completes c m') (map request_of_sqe (fst er # es)) (to_completion cq # new)"
          using ms1 take(3) first by simp_all
        then show ?thesis by blast
      qed
      with post True go fr quiet_trans [OF wait(2) ih(2)] show ?thesis by fastforce
    qed
  qed
qed

section \<open>The ring backend keeps the contract\<close>

lemma uring_worldD:
  assumes "uring_world K U Y V w"
  shows "uring_law U Y V" "v_good V w" "thread_world K V w"
  using assms by (simp_all add: uring_world_def thread_world_def)

lemma uring_world_quiet: "uring_world K U Y V w \<Longrightarrow> quiet V w w' \<Longrightarrow> uring_world K U Y V w'"
  using thread_world_quiet by (auto simp: uring_world_def)

lemma uring_quietD:
  "uring_world K U Y V w \<Longrightarrow> quiet V w w' \<Longrightarrow> uring_world K U Y V w' \<and> v_fds V w' = v_fds V w"
  using uring_world_quiet by (simp add: quiet_fds)

lemma uring_invE:
  assumes "uring_inv K U Y V fd c b m w"
  obtains q where "ub_ring b = Some q" "uq_queued Y q = []" "ring_inv Y (ub_fd b) c (ub_in_flight b) q m"
    "uring_requests Y b = map request_of_sqe (ring_sqes Y q)" "uring_world K U Y V w"
    "v_fds V w (ub_fd b) = Some c" "ub_initialized b" "length (uring_requests Y b) = ub_in_flight b"
    "bufs_of (uring_requests Y b) = sqe_bufs (ring_sqes Y q)" "ub_fd b = fd"
  using assms by (auto simp: uring_inv_def uring_requests_def bufs_of_requests ring_inv_def)

lemma uring_inv_distinct:
  assumes "uring_inv K U Y V fd c b m w"
  shows "distinct (map rq_buf (uring_requests Y b)) \<and> list_all (request_fits m) (uring_requests Y b)"
proof (rule uring_invE [OF assms])
  fix q
  assume q: "ring_inv Y (ub_fd b) c (ub_in_flight b) q m"
    "uring_requests Y b = map request_of_sqe (ring_sqes Y q)"
  have "map rq_buf (map request_of_sqe (ring_sqes Y q)) = map sq_buf (ring_sqes Y q)"
    by (simp add: request_of_sqe_def)
  then show ?thesis
    using q by (auto simp: ring_inv_def list_all_iff request_fits_def sqe_fits_def request_of_sqe_def
        simp del: map_map)
qed

lemma uring_inv_other:
  assumes "uring_inv K U Y V fd c b m w" and "uring_world K U Y V w'" and "v_fds V w' fd = v_fds V w fd"
    and "m' = m \<or> uring_requests Y b = []"
  shows "uring_inv K U Y V fd c b m' w'"
  using assms by (auto simp: uring_inv_def uring_requests_def ring_inv_def ring_sqes_def)

lemma open_uring_correct:
  assumes world: "uring_world K U Y V w" and fd: "v_fds V w fd = Some c"
    and call: "open_uring_backend U fd options w = (r, w')"
  shows "quiet V w w' \<and> (\<forall>b. r = Inr b \<longrightarrow> uring_requests Y b = [] \<and> ub_depth b = bo_queue_depth options \<and>
    uring_inv K U Y V fd c b m w')"
proof -
  note law = uring_worldD [OF world]
  obtain rc q w1 where i: "ur_queue_init U (ucast (bo_queue_depth options)) w = (rc, q, w1)"
    by (metis prod.exhaust)
  from uring_init_law [OF law(1,2) i] have q: "quiet V w w1" "rc \<le> 0"
    "rc = 0 \<longrightarrow> uq_queued Y q = [] \<and> uq_running Y q = [] \<and> uq_ready Y q = []" by blast+
  have "uring_inv K U Y V fd c \<lparr>ub_fd = fd, ub_depth = bo_queue_depth options, ub_in_flight = 0,
      ub_initialized = True, ub_ring = Some q\<rparr> m w1" if "rc = 0"
    using that q fd uring_world_quiet [OF world q(1)]
    by (simp add: uring_inv_def ring_inv_def ring_sqes_def quiet_fds)
  moreover have "uring_requests Y \<lparr>ub_fd = fd, ub_depth = bo_queue_depth options, ub_in_flight = 0,
      ub_initialized = True, ub_ring = Some q\<rparr> = []" if "rc = 0"
    using that q(3) by (simp add: uring_requests_def ring_sqes_def)
  ultimately show ?thesis
    using call i q(1,2) law(2) by (auto simp: open_uring_backend_def uring_init_def split: if_splits)
qed

lemma uring_submit_correct:
  assumes inv: "uring_inv K U Y V fd c b m w" and rs: "distinct (map rq_buf rs)"
    "bufs_of rs \<inter> bufs_of (uring_requests Y b) = {}" "list_all (request_fits m) rs"
    "list_all (\<lambda>r. rq_len r < 2 ^ 32) rs"
  shows "\<exists>r b' m' w'. uring_submit U rs b m w = Some (r, b', m', w') \<and> quiet V w w' \<and>
    frame (bufs_of (uring_requests Y b) \<union> bufs_of rs) m m' \<and>
    (unat (ub_depth b) < length (uring_requests Y b) + length rs \<longrightarrow> r \<noteq> Inr () \<and> b' = b \<and> m' = m \<and> w' = w) \<and>
    (r = Inr () \<longrightarrow> mset (uring_requests Y b') = mset (uring_requests Y b) + mset rs \<and>
       ub_depth b' = ub_depth b \<and> uring_inv K U Y V fd c b' m' w')"
proof (rule uring_invE [OF inv])
  fix q
  assume b: "ub_ring b = Some q" "uq_queued Y q = []" "ring_inv Y (ub_fd b) c (ub_in_flight b) q m"
    "uring_requests Y b = map request_of_sqe (ring_sqes Y q)" "uring_world K U Y V w"
    "v_fds V w (ub_fd b) = Some c" "ub_initialized b" "length (uring_requests Y b) = ub_in_flight b"
    "bufs_of (uring_requests Y b) = sqe_bufs (ring_sqes Y q)" "ub_fd b = fd"
  note law = uring_worldD [OF b(5)]
  show ?thesis
  proof (cases "ub_in_flight b + length rs > unat (ub_depth b)")
    case True
    then show ?thesis using law(2) by (simp add: uring_submit_def)
  next
    case room: False
    obtain r n q1 m1 w1 where queue: "uring_queue U (ub_fd b) rs (ub_in_flight b) q m w = (r, n, q1, m1, w1)"
      by (metis prod.exhaust)
    have "bufs_of rs \<inter> sqe_bufs (ring_sqes Y q) = {}" using rs(2) b(9) by simp
    from uring_queue_correct [OF law(1,2) b(6,3) rs(3,4,1) this queue] have
      q1: "quiet V w w1" "frame (sqe_bufs (ring_sqes Y q) \<union> bufs_of rs) m m1"
      and ok1: "r = Inr () \<longrightarrow> ring_inv Y (ub_fd b) c n q1 m1 \<and>
       mset (map request_of_sqe (ring_sqes Y q1)) = mset (map request_of_sqe (ring_sqes Y q)) + mset rs" by blast+
    show ?thesis
    proof (cases r)
      case (Inl e)
      then show ?thesis using b(1,8,9) room queue q1 by (simp add: uring_submit_def)
    next
      case (Inr u)
      then have r: "r = Inr ()" by simp
      with ok1 have inv1: "ring_inv Y (ub_fd b) c n q1 m1"
        and ms1: "mset (map request_of_sqe (ring_sqes Y q1)) = mset (uring_requests Y b) + mset rs"
        unfolding b(4) by blast+
      obtain rc q2 m2 w2 where s: "ur_submit U q1 m1 w1 = (rc, q2, m2, w2)" by (metis prod.exhaust)
      have fd1: "v_fds V w1 (ub_fd b) = Some c" using b(6) q1(1) by (simp add: quiet_fds)
      from ring_submit_correct [OF law(1) quiet_good [OF q1(1)] fd1 inv1 s] have
        q2: "quiet V w1 w2" "frame (sqe_bufs (ring_sqes Y q1)) m1 m2"
        and ok2: "0 \<le> rc \<longrightarrow> uq_queued Y q2 = [] \<and> ring_inv Y (ub_fd b) c n q2 m2 \<and>
          mset (ring_sqes Y q2) = mset (ring_sqes Y q1)" by blast+
      let ?b = "b\<lparr>ub_in_flight := n, ub_ring := Some q2\<rparr>"
      let ?r = "if rc < 0 then Inl (ring_error ''io_uring_submit'' rc) else Inr ()"
      have go: "uring_submit U rs b m w = Some (?r, ?b, m2, w2)"
        using b(1) room queue r s by (simp add: uring_submit_def)
      have "set (map request_of_sqe (ring_sqes Y q1)) = set (uring_requests Y b @ rs)"
        using ms1 by (intro mset_eq_setD) simp
      then have "bufs_of (map request_of_sqe (ring_sqes Y q1)) = bufs_of (uring_requests Y b @ rs)"
        unfolding bufs_of_def by (rule arg_cong)
      then have bufs: "sqe_bufs (ring_sqes Y q1) = bufs_of (uring_requests Y b) \<union> bufs_of rs"
        by (simp only: bufs_of_requests) (simp add: bufs_of_def image_Un)
      have fr: "frame (bufs_of (uring_requests Y b) \<union> bufs_of rs) m m2"
        using frame_trans [OF q1(2) q2(2)] bufs b(9) by blast
      have q: "quiet V w w2" by (rule quiet_trans [OF q1(1) q2(1)])
      have "mset (uring_requests Y ?b) = mset (uring_requests Y b) + mset rs \<and> uring_inv K U Y V fd c ?b m2 w2"
        if "?r = Inr ()"
      proof -
        have "0 \<le> rc" using that by (simp split: if_splits)
        with ok2 have "uq_queued Y q2 = []" "ring_inv Y (ub_fd b) c n q2 m2"
          "mset (ring_sqes Y q2) = mset (ring_sqes Y q1)" by blast+
        then show ?thesis
          using ms1 uring_world_quiet [OF b(5) q] b(6,7,10) q
          by (simp add: uring_inv_def uring_requests_def quiet_fds)
      qed
      then show ?thesis using go fr q room b(8) by simp
    qed
  qed
qed

text \<open>The waiting loop may stop at half of what was in flight; that is still something.\<close>

lemma half_is_some: "min (min k n) ((l + 1) div 2) \<le> x \<Longrightarrow> min 1 (min k (min n l)) \<le> (x :: nat)"
  by (auto simp: min_def split: if_splits)

lemma uring_reap_correct:
  assumes inv: "uring_inv K U Y V fd c b m w"
  shows "\<exists>r b' m' w'. uring_reap U n k b m w = Some (r, b', m', w') \<and> quiet V w w' \<and>
    frame (bufs_of (uring_requests Y b)) m m' \<and>
    (\<forall>cs. r = Inr cs \<longrightarrow> length cs \<le> n \<and> min (min k n) ((length (uring_requests Y b) + 1) div 2) \<le> length cs \<and>
       ub_depth b' = ub_depth b \<and> uring_inv K U Y V fd c b' m' w' \<and>
       (\<exists>ps. mset (uring_requests Y b) = mset ps + mset (uring_requests Y b') \<and> list_all2 (completes c m') ps cs))"
proof (rule uring_invE [OF inv])
  fix q
  assume b: "ub_ring b = Some q" "uq_queued Y q = []" "ring_inv Y (ub_fd b) c (ub_in_flight b) q m"
    "uring_requests Y b = map request_of_sqe (ring_sqes Y q)" "uring_world K U Y V w"
    "v_fds V w (ub_fd b) = Some c" "ub_initialized b" "length (uring_requests Y b) = ub_in_flight b"
    "bufs_of (uring_requests Y b) = sqe_bufs (ring_sqes Y q)" "ub_fd b = fd"
  note law = uring_worldD [OF b(5)]
  from uring_wait_correct [OF law(1,2) b(6,3,2), of "min k n" "[]"] obtain r f q1 m1 w1 where
    wait: "uring_wait U (min k n) [] (ub_in_flight b) q m w = Some (r, f, q1, m1, w1)"
    and q1: "quiet V w w1" and fr1: "frame (sqe_bufs (ring_sqes Y q)) m m1"
    and ok: "\<forall>got. r = Inr got \<longrightarrow> ring_inv Y (ub_fd b) c f q1 m1 \<and> uq_queued Y q1 = [] \<and>
       length got \<le> min k n \<and> (min k n \<le> length got \<or> f \<le> length got) \<and> f + length got = ub_in_flight b \<and>
       (\<exists>es. mset (ring_sqes Y q) = mset es + mset (ring_sqes Y q1) \<and>
          list_all2 (completes c m1) (map request_of_sqe es) got)" by auto
  show ?thesis
  proof (cases r)
    case (Inl e)
    then show ?thesis using b(1,9) wait q1 fr1 by (simp add: uring_reap_def)
  next
    case (Inr got)
    with ok obtain es where inv1: "ring_inv Y (ub_fd b) c f q1 m1" "uq_queued Y q1 = []"
      and len: "length got \<le> min k n" "min k n \<le> length got \<or> f \<le> length got" "f + length got = ub_in_flight b"
      and es: "mset (ring_sqes Y q) = mset es + mset (ring_sqes Y q1)"
        "list_all2 (completes c m1) (map request_of_sqe es) got" by blast
    have some: "min (min k n) ((length (uring_requests Y b) + 1) div 2) \<le> length got"
      using len b(8) by (auto simp: min_def)
    let ?room = "min (n - length got) 64"
    show ?thesis
    proof (cases "?room > 0")
      case False
      let ?b = "b\<lparr>ub_in_flight := f, ub_ring := Some q1\<rparr>"
      have go: "uring_reap U n k b m w = Some (Inr got, ?b, m1, w1)"
        using b(1) wait Inr False by (simp add: uring_reap_def min.commute)
      have "uring_inv K U Y V fd c ?b m1 w1"
        using inv1 b(6,7,10) uring_world_quiet [OF b(5) q1] q1 by (simp add: uring_inv_def quiet_fds)
      moreover have "mset (uring_requests Y b) = mset (map request_of_sqe es) + mset (uring_requests Y ?b)"
        using es(1) b(4) by (simp add: uring_requests_def)
      with es(2) have "\<exists>ps. mset (uring_requests Y b) = mset ps + mset (uring_requests Y ?b) \<and>
          list_all2 (completes c m1) ps got" by blast
      ultimately show ?thesis using go q1 fr1 some len(1) b(9) by simp
    next
      case True
      obtain cqes q2 m2 w2 where peek: "ur_peek U (of_nat ?room) q1 m1 w1 = (cqes, q2, m2, w2)"
        by (metis prod.exhaust)
      have good1: "v_good V w1" by (rule quiet_good [OF q1])
      have fd1: "v_fds V w1 (ub_fd b) = Some c" using b(6) q1 by (simp add: quiet_fds)
      have "list_all (sqe_fits m1) (uq_running Y q1)" by (rule ring_fits [OF inv1(1)]) (auto simp: ring_sqes_def)
      from uring_peek_law [OF law(1) good1 this peek] have q2: "quiet V w1 w2" "length cqes \<le> unat (of_nat ?room :: u32)"
        "length cqes \<le> length (uq_ready Y q2)" "cqes = map cqe_of (take (length cqes) (uq_ready Y q2))"
        "uq_queued Y q2 = uq_queued Y q1"
        and prog: "ring_progress Y (v_fds V w1) (uq_running Y q1) (uq_ready Y q1) m1 q2 m2" by blast+
      have room: "unat (of_nat ?room :: u32) = ?room"
        by (simp add: unat_of_nat take_bit_nat_eq_self)
      have small: "unat (of_nat (length cqes) :: u32) = length cqes"
        using q2(2) room by (simp add: unat_of_nat take_bit_nat_eq_self)
      have inv2: "ring_inv Y (ub_fd b) c f q2 m2" and ms2: "mset (ring_sqes Y q2) = mset (ring_sqes Y q1)"
        using ring_inv_progress [OF inv1(1) fd1 prog] q2(5) by simp_all
      let ?taken = "take (length cqes) (uq_ready Y q2)"
      define q3 where "q3 = (if cqes \<noteq> [] then ur_advance U (of_nat (length cqes)) q2 else q2)"
      have q3: "uq_ready Y q3 = drop (length cqes) (uq_ready Y q2)" "uq_queued Y q3 = uq_queued Y q2"
        "uq_running Y q3 = uq_running Y q2"
        using uring_advance_law [OF law(1), of "of_nat (length cqes)" q2] q2(3) small by (simp_all add: q3_def)
      have rd: "uq_ready Y q2 = ?taken @ drop (length cqes) (uq_ready Y q2)" by simp
      note take = ring_take [OF inv2 rd q3]
      have lt: "length ?taken = length cqes" using q2(3) by simp
      let ?b = "b\<lparr>ub_in_flight := f - length cqes, ub_ring := Some q3\<rparr>"
      let ?cs = "got @ map to_completion cqes"
      let ?ps = "map request_of_sqe es @ map request_of_sqe (map fst ?taken)"
      have go: "uring_reap U n k b m w = Some (Inr ?cs, ?b, m2, w2)"
        using b(1) wait Inr True peek by (simp add: uring_reap_def min.commute Let_def q3_def)
      have sub: "sqe_bufs (ring_sqes Y q1) \<subseteq> sqe_bufs (ring_sqes Y q)"
        using sqe_bufs_mset [of "ring_sqes Y q" "es @ ring_sqes Y q1"] es(1) by simp
      have fr2: "frame (sqe_bufs (ring_sqes Y q1)) m1 m2"
        using prog by (auto simp: ring_progress_def intro: frame_mono [OF _ sqe_bufs_running])
      have fr: "frame (bufs_of (uring_requests Y b)) m m2"
        unfolding b(9) by (rule frame_trans [OF fr1 fr2 order_refl sub])
      have wr: "uring_inv K U Y V fd c ?b m2 w2"
        using take(1) lt q3(2) q2(5) inv1(2) b(6,7,10) uring_world_quiet [OF b(5) quiet_trans [OF q1 q2(1)]]
          quiet_trans [OF q1 q2(1)] by (simp add: uring_inv_def quiet_fds)
      have ms: "mset (uring_requests Y b) = mset ?ps + mset (uring_requests Y ?b)"
      proof -
        have "mset (ring_sqes Y q) = mset (es @ map fst ?taken @ ring_sqes Y q3)"
          using es(1) ms2 take(3) by simp
        then have "mset (map request_of_sqe (ring_sqes Y q)) =
            mset (map request_of_sqe (es @ map fst ?taken @ ring_sqes Y q3))"
          unfolding mset_map by (rule arg_cong)
        then show ?thesis unfolding b(4) by (simp add: uring_requests_def)
      qed
      have d: "distinct (map sq_buf (es @ ring_sqes Y q1))"
      proof -
        have "mset (map sq_buf (ring_sqes Y q)) = mset (map sq_buf (es @ ring_sqes Y q1))"
          unfolding mset_map using es(1) by simp
        from mset_eq_imp_distinct_iff [OF this] b(3) show ?thesis unfolding ring_inv_def by blast
      qed
      have apart: "bufs_of (map request_of_sqe es) \<inter> sqe_bufs (ring_sqes Y q1) = {}"
        using d unfolding bufs_of_requests map_append distinct_append sqe_bufs_def set_map by blast
      have inm: "\<forall>p \<in> set (map request_of_sqe es). rq_buf p < length m1"
      proof -
        have "set es \<subseteq> set (ring_sqes Y q)" using mset_eq_setD [of "ring_sqes Y q" "es @ ring_sqes Y q1"] es(1) by simp
        then have "list_all (sqe_fits m) es" by (rule ring_fits [OF b(3)])
        then show ?thesis using frame_length [OF fr1] by (auto simp: list_all_iff sqe_fits_def request_of_sqe_def)
      qed
      have "list_all2 (completes c m2) (map request_of_sqe es) got"
        by (rule completes_list_frame [OF es(2) fr2 apart inm])
      moreover have "list_all2 (completes c m2) (map request_of_sqe (map fst ?taken)) (map to_completion cqes)"
        using take(4) q2(4) by simp
      ultimately have cs: "list_all2 (completes c m2) ?ps ?cs" by (rule list_all2_appendI)
      have "length ?cs \<le> n" using len(1) q2(2) unfolding room by (simp, linarith)
      moreover have "min (min k n) ((length (uring_requests Y b) + 1) div 2) \<le> length ?cs"
        using some by simp
      moreover have "\<exists>ps. mset (uring_requests Y b) = mset ps + mset (uring_requests Y ?b) \<and>
          list_all2 (completes c m2) ps ?cs" using ms cs by blast
      moreover have "ub_depth ?b = ub_depth b" by simp
      ultimately have "\<forall>cs. Inr ?cs = Inr cs \<longrightarrow> length cs \<le> n \<and>
          min (min k n) ((length (uring_requests Y b) + 1) div 2) \<le> length cs \<and>
          ub_depth ?b = ub_depth b \<and> uring_inv K U Y V fd c ?b m2 w2 \<and>
          (\<exists>ps. mset (uring_requests Y b) = mset ps + mset (uring_requests Y ?b) \<and>
            list_all2 (completes c m2) ps cs)" using wr by blast
      with go quiet_trans [OF q1 q2(1)] fr show ?thesis by blast
    qed
  qed
qed

lemma uring_destroy_correct:
  assumes inv: "uring_inv K U Y V fd c b m w"
  shows "\<exists>m' w'. uring_destroy U b m w = Some (m', w') \<and> quiet V w w' \<and> frame (bufs_of (uring_requests Y b)) m m'"
proof (rule uring_invE [OF inv])
  fix q
  assume b: "ub_ring b = Some q" "ring_inv Y (ub_fd b) c (ub_in_flight b) q m" "uring_world K U Y V w"
    "ub_initialized b" "bufs_of (uring_requests Y b) = sqe_bufs (ring_sqes Y q)"
  note law = uring_worldD [OF b(3)]
  obtain m' w' where e: "ur_queue_exit U q m w = (m', w')" by (metis prod.exhaust)
  have "list_all (sqe_fits m) (uq_running Y q)" by (rule ring_fits [OF b(2)]) (auto simp: ring_sqes_def)
  with uring_exit_law [OF law(1,2) e] show ?thesis
    using b e by (auto simp: uring_destroy_def intro: frame_mono [OF _ sqe_bufs_running])
qed

text \<open>What stays true of a ring when calls fail: it is there.\<close>

definition ring_made :: "'q uring_backend \<Rightarrow> bool" where
  "ring_made b \<longleftrightarrow> ub_ring b \<noteq> None"

lemma uring_submit_made: "ring_made b \<Longrightarrow> uring_submit U rs b m w = Some (r, b', m', w') \<Longrightarrow> ring_made b'"
  by (auto simp: uring_submit_def ring_made_def split: if_splits option.splits prod.splits sum.splits)

lemma uring_reap_made: "uring_reap U n k b m w = Some (r, b', m', w') \<Longrightarrow> ring_made b'"
  by (auto simp: uring_reap_def ring_made_def Let_def split: if_splits option.splits prod.splits sum.splits)

lemma uring_destroy_made:
  assumes "ring_made b" and world: "uring_world K U Y V w"
  shows "\<exists>m' w'. uring_destroy U b m w = Some (m', w') \<and> quiet V w w'"
proof -
  note law = uring_worldD [OF world]
  from assms(1) obtain q where q: "ub_ring b = Some q" by (auto simp: ring_made_def)
  obtain m' w' where e: "ur_queue_exit U q m w = (m', w')" by (metis prod.exhaust)
  from uring_exit_law [OF law(1,2) e] law(2) q e show ?thesis by (auto simp: uring_destroy_def)
qed

text \<open>The lengths that the cast to \<open>unsigned\<close> keeps.\<close>

definition uring_len :: "nat \<Rightarrow> bool" where
  "uring_len l \<longleftrightarrow> l < 2 ^ 32"

interpretation ur: async_backend "uring_backend_ops U" "uring_world K U Y V" "v_fds V" "uring_requests Y"
    "\<lambda>b. unat (ub_depth b)" "uring_inv K U Y V" uring_len ring_made for K U Y V
proof
  fix fd c b m w
  show "uring_inv K U Y V fd c b m w \<Longrightarrow> uring_world K U Y V w" by (simp add: uring_inv_def)
  show "uring_inv K U Y V fd c b m w \<Longrightarrow>
      distinct (map rq_buf (uring_requests Y b)) \<and> list_all (request_fits m) (uring_requests Y b)"
    by (rule uring_inv_distinct)
  show "uring_inv K U Y V fd c b m' w'" if "uring_inv K U Y V fd c b m w" "uring_world K U Y V w'"
      "v_fds V w' fd = v_fds V w fd" "m' = m \<or> uring_requests Y b = []" for m' w'
    using that by (rule uring_inv_other)
  show "uring_inv K U Y V fd c b m w \<Longrightarrow>
      ring_made b \<and> bk_in_flight (uring_backend_ops U) b = length (uring_requests Y b)"
    by (auto simp: uring_inv_def ring_made_def uring_requests_def ring_inv_def uring_backend_ops_def)
next
  fix w w' fd c opts r m
  assume w: "uring_world K U Y V w" and fd: "v_fds V w fd = Some c"
    and "bk_open (uring_backend_ops U) fd opts w = (r, w')"
  then have "open_uring_backend U fd opts w = (r, w')" by (simp add: uring_backend_ops_def)
  from open_uring_correct [OF w fd this] uring_world_quiet [OF w]
  show "uring_world K U Y V w' \<and> v_fds V w' = v_fds V w \<and> (\<forall>b. r = Inr b \<longrightarrow> uring_requests Y b = [] \<and>
      unat (ub_depth b) = unat (bo_queue_depth opts) \<and> uring_inv K U Y V fd c b m w')"
    by (auto simp: quiet_fds)
next
  fix fd c b m w rs
  assume inv: "uring_inv K U Y V fd c b m w" and rs: "distinct (map rq_buf rs)"
    "bufs_of rs \<inter> bufs_of (uring_requests Y b) = {}" "list_all (request_fits m) rs"
    "list_all (\<lambda>r. uring_len (rq_len r)) rs"
  have world: "uring_world K U Y V w" using inv by (simp add: uring_inv_def)
  from uring_submit_correct [OF inv rs [unfolded uring_len_def]] obtain r b' m' w' where
    s: "uring_submit U rs b m w = Some (r, b', m', w')" "quiet V w w'"
      "frame (bufs_of (uring_requests Y b) \<union> bufs_of rs) m m'"
      "unat (ub_depth b) < length (uring_requests Y b) + length rs \<longrightarrow> r \<noteq> Inr () \<and> b' = b \<and> m' = m \<and> w' = w"
      "r = Inr () \<longrightarrow> mset (uring_requests Y b') = mset (uring_requests Y b) + mset rs \<and>
        ub_depth b' = ub_depth b \<and> uring_inv K U Y V fd c b' m' w'" by blast
  show "\<exists>r b' m' w'. bk_submit (uring_backend_ops U) rs b m w = Some (r, b', m', w') \<and>
      uring_world K U Y V w' \<and> v_fds V w' = v_fds V w \<and>
      frame (bufs_of (uring_requests Y b) \<union> bufs_of rs) m m' \<and>
      (unat (ub_depth b) < length (uring_requests Y b) + length rs \<longrightarrow> r \<noteq> Inr () \<and> b' = b \<and> m' = m \<and> w' = w) \<and>
      (r = Inr () \<longrightarrow> mset (uring_requests Y b') = mset (uring_requests Y b) + mset rs \<and>
         unat (ub_depth b') = unat (ub_depth b) \<and> uring_inv K U Y V fd c b' m' w')"
    by (rule exI [of _ r], rule exI [of _ b'], rule exI [of _ m'], rule exI [of _ w'])
      (use s uring_quietD [OF world s(2)] in \<open>simp add: uring_backend_ops_def\<close>)
next
  fix fd c b m w n k
  assume inv: "uring_inv K U Y V fd c b m w"
  then have world: "uring_world K U Y V w" by (simp add: uring_inv_def)
  from uring_reap_correct [OF inv, of n k] obtain r b' m' w' where
    s: "uring_reap U n k b m w = Some (r, b', m', w')" "quiet V w w'" "frame (bufs_of (uring_requests Y b)) m m'"
      "\<forall>cs. r = Inr cs \<longrightarrow> length cs \<le> n \<and> min (min k n) ((length (uring_requests Y b) + 1) div 2) \<le> length cs \<and>
       ub_depth b' = ub_depth b \<and> uring_inv K U Y V fd c b' m' w' \<and>
       (\<exists>ps. mset (uring_requests Y b) = mset ps + mset (uring_requests Y b') \<and> list_all2 (completes c m') ps cs)"
    by blast
  show "\<exists>r b' m' w'. bk_reap (uring_backend_ops U) n k b m w = Some (r, b', m', w') \<and>
      uring_world K U Y V w' \<and> v_fds V w' = v_fds V w \<and> frame (bufs_of (uring_requests Y b)) m m' \<and>
      (\<forall>cs. r = Inr cs \<longrightarrow> length cs \<le> n \<and> min 1 (min k (min n (length (uring_requests Y b)))) \<le> length cs \<and>
         unat (ub_depth b') = unat (ub_depth b) \<and> uring_inv K U Y V fd c b' m' w' \<and>
         (\<exists>ps. mset (uring_requests Y b) = mset ps + mset (uring_requests Y b') \<and>
            list_all2 (completes c m') ps cs))"
    by (rule exI [of _ r], rule exI [of _ b'], rule exI [of _ m'], rule exI [of _ w'])
      (use s uring_quietD [OF world s(2)] half_is_some [of k n "length (uring_requests Y b)"] in \<open>simp add: uring_backend_ops_def\<close>)
next
  fix fd c b m w
  assume inv: "uring_inv K U Y V fd c b m w"
  then have world: "uring_world K U Y V w" by (simp add: uring_inv_def)
  from uring_destroy_correct [OF inv] uring_quietD [OF world]
  show "\<exists>m' w'. bk_destroy (uring_backend_ops U) b m w = Some (m', w') \<and> uring_world K U Y V w' \<and>
      v_fds V w' = v_fds V w \<and> frame (bufs_of (uring_requests Y b)) m m'"
    by (auto simp: uring_backend_ops_def)
next
  fix b m w
  assume b: "ring_made b" "bk_in_flight (uring_backend_ops U) b = 0" and world: "uring_world K U Y V w"
  from uring_destroy_made [OF b(1) world] uring_quietD [OF world]
  show "\<exists>m' w'. bk_destroy (uring_backend_ops U) b m w = Some (m', w') \<and> uring_world K U Y V w' \<and>
      v_fds V w' = v_fds V w"
    unfolding uring_backend_ops_def by fastforce
qed (auto simp: uring_backend_ops_def intro: uring_submit_made uring_reap_made)

section \<open>The backend that \<open>open_backend\<close> chooses keeps it too\<close>

fun any_requests :: "'q uring_view \<Rightarrow> 'q any_backend \<Rightarrow> read_request list" where
  "any_requests Y (Ring b) = uring_requests Y b"
| "any_requests Y (Threads b) = tb_requests b"

fun any_depth :: "'q any_backend \<Rightarrow> nat" where
  "any_depth (Ring b) = unat (ub_depth b)"
| "any_depth (Threads b) = unat (tb_depth b)"

fun any_inv ::
  "'w sys \<Rightarrow> ('q, 'w) uring_ops \<Rightarrow> 'q uring_view \<Rightarrow> 'w view \<Rightarrow> int \<Rightarrow> byte list \<Rightarrow> 'q any_backend \<Rightarrow>
     span list \<Rightarrow> 'w \<Rightarrow> bool" where
  "any_inv K U Y V fd c (Ring b) m w \<longleftrightarrow> uring_inv K U Y V fd c b m w"
| "any_inv K U Y V fd c (Threads b) m w \<longleftrightarrow> thread_inv K V fd c b m w \<and> uring_law U Y V"

fun any_closable :: "'q any_backend \<Rightarrow> bool" where
  "any_closable (Ring b) \<longleftrightarrow> ring_made b"
| "any_closable (Threads b) \<longleftrightarrow> True"

lemma uring_world_thread: "uring_world K U Y V w \<longleftrightarrow> thread_world K V w \<and> uring_law U Y V"
  by (simp add: uring_world_def)

lemmas any_ops_simps =
  any_ops_def thread_ops_def uring_backend_ops_def uring_world_thread open_backend_def

interpretation any: async_backend "any_ops K U" "uring_world K U Y V" "v_fds V" "any_requests Y"
    any_depth "any_inv K U Y V" uring_len any_closable for K U Y V
proof
  fix fd c b m w
  show "any_inv K U Y V fd c b m w \<Longrightarrow> uring_world K U Y V w"
    by (cases b) (auto simp: uring_inv_def thread_inv_def uring_world_thread)
  show "any_inv K U Y V fd c b m w \<Longrightarrow>
      distinct (map rq_buf (any_requests Y b)) \<and> list_all (request_fits m) (any_requests Y b)"
    using ur.binv_pend [of K U Y V fd c _ m w] tb.binv_pend [of K V fd c _ m w] by (cases b) simp_all
  show "any_inv K U Y V fd c b m' w'" if "any_inv K U Y V fd c b m w" "uring_world K U Y V w'"
      "v_fds V w' fd = v_fds V w fd" "m' = m \<or> any_requests Y b = []" for m' w'
    using that ur.binv_other [of K U Y V fd c _ m w w' m'] tb.binv_other [of K V fd c _ m w w' m']
    by (cases b) (simp_all add: uring_world_thread)
  show "any_inv K U Y V fd c b m w \<Longrightarrow>
      any_closable b \<and> bk_in_flight (any_ops K U) b = length (any_requests Y b)"
    using ur.binv_closable [of K U Y V fd c _ m w] tb.binv_closable [of K V fd c _ m w]
    by (cases b) (simp_all add: any_ops_def uring_backend_ops_def thread_ops_def)
next
  fix w w' fd c opts r m
  assume w: "uring_world K U Y V w" and fd: "0 \<le> fd" "v_fds V w fd = Some c"
    and call: "bk_open (any_ops K U) fd opts w = (r, w')"
  obtain r1 w1 where o1: "open_uring_backend U fd opts w = (r1, w1)" by (metis prod.exhaust)
  have o1': "bk_open (uring_backend_ops U) fd opts w = (r1, w1)" using o1 by (simp add: uring_backend_ops_def)
  note ring = ur.open_law [OF w fd o1', of m]
  show "uring_world K U Y V w' \<and> v_fds V w' = v_fds V w \<and> (\<forall>b. r = Inr b \<longrightarrow> any_requests Y b = [] \<and>
      any_depth b = unat (bo_queue_depth opts) \<and> any_inv K U Y V fd c b m w')"
  proof (cases r1)
    case (Inr b1)
    then have "r = Inr (Ring b1)" "w' = w1" using call o1 by (simp_all add: any_ops_def open_backend_def)
    with ring Inr show ?thesis by auto
  next
    case (Inl e)
    obtain r2 w2 where o2: "open_thread_backend K fd opts w1 = (r2, w2)" by (metis prod.exhaust)
    have o2': "bk_open (thread_ops K) fd opts w1 = (r2, w2)" using o2 by (simp add: thread_ops_def)
    have w1: "thread_world K V w1" "uring_law U Y V" "v_fds V w1 = v_fds V w"
      using ring by (simp_all add: uring_world_thread)
    have "v_fds V w1 fd = Some c" using w1(3) fd(2) by simp
    from tb.open_law [OF w1(1) fd(1) this o2', of m] call o1 o2 Inl w1 show ?thesis
      by (cases r2) (auto simp: any_ops_def open_backend_def uring_world_thread)
  qed
next
  fix fd c b m w rs
  assume inv: "any_inv K U Y V fd c b m w" and rs: "distinct (map rq_buf rs)"
    "bufs_of rs \<inter> bufs_of (any_requests Y b) = {}" "list_all (request_fits m) rs"
    "list_all (\<lambda>r. uring_len (rq_len r)) rs"
  show "\<exists>r b' m' w'. bk_submit (any_ops K U) rs b m w = Some (r, b', m', w') \<and>
      uring_world K U Y V w' \<and> v_fds V w' = v_fds V w \<and>
      frame (bufs_of (any_requests Y b) \<union> bufs_of rs) m m' \<and>
      (any_depth b < length (any_requests Y b) + length rs \<longrightarrow> r \<noteq> Inr () \<and> b' = b \<and> m' = m \<and> w' = w) \<and>
      (r = Inr () \<longrightarrow> mset (any_requests Y b') = mset (any_requests Y b) + mset rs \<and>
         any_depth b' = any_depth b \<and> any_inv K U Y V fd c b' m' w')"
  proof (cases b)
    case (Ring b1)
    with inv rs ur.submit_law [of K U Y V fd c b1 m w rs] show ?thesis
      by (fastforce simp: any_ops_def uring_backend_ops_def)
  next
    case (Threads b1)
    with inv rs tb.submit_law [of K V fd c b1 m w rs] show ?thesis
      by (fastforce simp: any_ops_def thread_ops_def uring_world_thread list_all_iff)
  qed
next
  fix fd c b m w n k
  assume inv: "any_inv K U Y V fd c b m w"
  show "\<exists>r b' m' w'. bk_reap (any_ops K U) n k b m w = Some (r, b', m', w') \<and>
      uring_world K U Y V w' \<and> v_fds V w' = v_fds V w \<and> frame (bufs_of (any_requests Y b)) m m' \<and>
      (\<forall>cs. r = Inr cs \<longrightarrow> length cs \<le> n \<and> min 1 (min k (min n (length (any_requests Y b)))) \<le> length cs \<and>
         any_depth b' = any_depth b \<and> any_inv K U Y V fd c b' m' w' \<and>
         (\<exists>ps. mset (any_requests Y b) = mset ps + mset (any_requests Y b') \<and> list_all2 (completes c m') ps cs))"
  proof (cases b)
    case (Ring b1)
    with inv ur.reap_law [of K U Y V fd c b1 m w n k] show ?thesis
      by (fastforce simp: any_ops_def uring_backend_ops_def)
  next
    case (Threads b1)
    with inv tb.reap_law [of K V fd c b1 m w n k] show ?thesis
      by (fastforce simp: any_ops_def thread_ops_def uring_world_thread)
  qed
next
  fix fd c b m w
  assume inv: "any_inv K U Y V fd c b m w"
  show "\<exists>m' w'. bk_destroy (any_ops K U) b m w = Some (m', w') \<and> uring_world K U Y V w' \<and>
      v_fds V w' = v_fds V w \<and> frame (bufs_of (any_requests Y b)) m m'"
  proof (cases b)
    case (Ring b1)
    with inv ur.destroy_law [of K U Y V fd c b1 m w] show ?thesis
      by (fastforce simp: any_ops_def uring_backend_ops_def)
  next
    case (Threads b1)
    with inv tb.destroy_law [of K V fd c b1 m w] show ?thesis
      by (fastforce simp: any_ops_def thread_ops_def uring_world_thread)
  qed
next
  fix b b' m m' w w' rs r
  show "any_closable b \<Longrightarrow> bk_submit (any_ops K U) rs b m w = Some (r, b', m', w') \<Longrightarrow> any_closable b'"
    by (cases b) (auto simp: any_ops_def intro: uring_submit_made)
next
  fix b b' m m' w w' n k r
  show "any_closable b \<Longrightarrow> bk_reap (any_ops K U) n k b m w = Some (r, b', m', w') \<Longrightarrow> any_closable b'"
    by (cases b) (auto simp: any_ops_def intro: uring_reap_made)
next
  fix b m w
  assume b: "any_closable b" "bk_in_flight (any_ops K U) b = 0" and world: "uring_world K U Y V w"
  show "\<exists>m' w'. bk_destroy (any_ops K U) b m w = Some (m', w') \<and> uring_world K U Y V w' \<and> v_fds V w' = v_fds V w"
  proof (cases b)
    case (Ring b1)
    with b world ur.idle_destroy_law [of b1 U K Y V w m] show ?thesis
      by (simp add: any_ops_def uring_backend_ops_def)
  next
    case (Threads b1)
    with b world tb.idle_destroy_law [of K b1 V w m] show ?thesis
      by (auto simp: any_ops_def thread_ops_def uring_world_thread)
  qed
qed

end
