(* ===== verification/MemRing.thy ===== *)
theory MemRing
  imports UringContract
begin

text \<open>
  A ring over the files in memory of \<^theory_text>\<open>Memfs\<close> that keeps the promises of \<^theory_text>\<open>UringContract\<close>, used by the
  witnesses. It completes the read that was started last first, one for each call that waits, and refuses
  to be created with no entry or more than 32768, as the kernel does.
\<close>

section \<open>The ring\<close>

record memring =
  mr_queued :: "sqe list"
  mr_running :: "sqe list"
  mr_ready :: "(sqe \<times> int) list"
  mr_entries :: nat

definition memring_read :: "sqe \<Rightarrow> span list \<Rightarrow> memfs \<Rightarrow> int \<times> span list" where
  "memring_read e m w =
     (case memfs_content w (sq_fd e) of
        None \<Rightarrow> (- 9, m)
      | Some c \<Rightarrow>
          let bs = window (unat (sq_off e)) (unat (sq_len e)) c in
          (int (length bs), m[sq_buf e := span_store 0 bs (m ! sq_buf e)]))"

definition memring_work :: "memring \<Rightarrow> span list \<Rightarrow> memfs \<Rightarrow> memring \<times> span list" where
  "memring_work q m w =
     (case memring_read (last (mr_running q)) m w of (res, m') \<Rightarrow>
        (q\<lparr>mr_running := butlast (mr_running q), mr_ready := mr_ready q @ [(last (mr_running q), res)]\<rparr>, m'))"

definition memring_wait ::
  "memring \<Rightarrow> span list \<Rightarrow> memfs \<Rightarrow> (int \<times> cqe \<times> memring \<times> span list \<times> memfs) option" where
  "memring_wait q m w =
     (if mr_ready q \<noteq> [] then Some (0, cqe_of (hd (mr_ready q)), q, m, w)
      else if mr_running q = [] then None
      else case memring_work q m w of (q', m') \<Rightarrow> Some (0, cqe_of (hd (mr_ready q')), q', m', w))"

definition memring_ops :: "(memring, memfs) uring_ops" where
  "memring_ops = \<lparr>
     ur_alloc_ok = (\<lambda>w. True),
     ur_queue_init = (\<lambda>n w. (if n = 0 \<or> 32768 < n then - 22 else 0,
       \<lparr>mr_queued = [], mr_running = [], mr_ready = [], mr_entries = unat n\<rparr>, w)),
     ur_queue_exit = (\<lambda>q m w. (m, w)),
     ur_get_sqe = (\<lambda>q. if length (mr_queued q) < mr_entries q then Some q else None),
     ur_prep_read = (\<lambda>fd buf len off q. q\<lparr>mr_queued := mr_queued q @
       [\<lparr>sq_fd = fd, sq_buf = buf, sq_len = len, sq_off = off, sq_data = 0\<rparr>]\<rparr>),
     ur_set_data = (\<lambda>data q. q\<lparr>mr_queued :=
       butlast (mr_queued q) @ [(last (mr_queued q))\<lparr>sq_data := data\<rparr>]\<rparr>),
     ur_submit = (\<lambda>q m w. (int (length (mr_queued q)),
       q\<lparr>mr_queued := [], mr_running := mr_running q @ mr_queued q\<rparr>, m, w)),
     ur_wait_cqe = memring_wait,
     ur_cqe_seen = (\<lambda>q. q\<lparr>mr_ready := tl (mr_ready q)\<rparr>),
     ur_peek = (\<lambda>n q m w. (map cqe_of (take (unat n) (mr_ready q)), q, m, w)),
     ur_advance = (\<lambda>n q. q\<lparr>mr_ready := drop (unat n) (mr_ready q)\<rparr>)\<rparr>"

definition memring_view :: "memring uring_view" where
  "memring_view = \<lparr>uq_queued = mr_queued, uq_running = mr_running, uq_ready = mr_ready\<rparr>"

lemma memring_view_simps [simp]:
  "uq_queued memring_view = mr_queued" "uq_running memring_view = mr_running" "uq_ready memring_view = mr_ready"
  by (simp_all add: memring_view_def)

section \<open>It keeps the promises\<close>

lemma memring_read_true:
  assumes fits: "sqe_fits m e" and call: "memring_read e m w = (res, m')"
  shows "sqe_true (memfs_content w) m' (e, res) \<and> frame {sq_buf e} m m'"
proof (cases "memfs_content w (sq_fd e)")
  case None
  with call show ?thesis by (auto simp: memring_read_def sqe_true_def)
next
  case (Some c)
  let ?bs = "window (unat (sq_off e)) (unat (sq_len e)) c"
  have res: "res = int (length ?bs)" "m' = m[sq_buf e := span_store 0 ?bs (m ! sq_buf e)]"
    using call Some by (simp_all add: memring_read_def Let_def)
  have len: "length ?bs = min (unat (sq_len e)) (length c - unat (sq_off e))" by (simp add: bytes_simps)
  have room: "length ?bs \<le> length (sp_bytes (m ! sq_buf e))" "sq_buf e < length m"
    using fits min.coboundedI1 [of "unat (sq_len e)" "length (sp_bytes (m ! sq_buf e))"]
    by (simp_all add: len sqe_fits_def span_size_def)
  have "take (length ?bs) (sp_bytes (m' ! sq_buf e)) = ?bs"
    using res(2) room take_overwrite [of 0 "sp_bytes (m ! sq_buf e)" ?bs] by simp
  also have "?bs = window (unat (sq_off e)) (length ?bs) c"
    unfolding len by (simp add: window_def min_def)
  finally have "sqe_true (memfs_content w) m' (e, res)"
    using Some res(1) len by (simp add: sqe_true_def)
  moreover have "frame {sq_buf e} m m'"
    unfolding res(2) using room by (intro frame_update) (simp_all add: span_size_def length_overwrite)
  ultimately show ?thesis by simp
qed

lemma memring_work_progress:
  assumes fits: "list_all (sqe_fits m) (mr_running q)" and some: "mr_running q \<noteq> []"
    and call: "memring_work q m w = (q', m')"
  shows "ring_progress memring_view (memfs_content w) (mr_running q) (mr_ready q) m q' m' \<and>
    mr_queued q' = mr_queued q \<and> mr_ready q' \<noteq> []"
proof -
  let ?e = "last (mr_running q)"
  obtain res m1 where r: "memring_read ?e m w = (res, m1)" by (metis prod.exhaust)
  have "?e \<in> set (mr_running q)" using some by simp
  then have "sqe_fits m ?e" using fits by (simp add: list_all_iff)
  from memring_read_true [OF this r] have t: "sqe_true (memfs_content w) m1 (?e, res)" "frame {sq_buf ?e} m m1"
    by simp_all
  have q': "q' = q\<lparr>mr_running := butlast (mr_running q), mr_ready := mr_ready q @ [(?e, res)]\<rparr>" "m' = m1"
    using call r by (simp_all add: memring_work_def)
  have "mr_running q = butlast (mr_running q) @ [?e]" using some by simp
  then have "mset (mr_running q) = mset (butlast (mr_running q)) + {#?e#}" by (metis mset_append mset_single_iff_right)
  moreover have "{sq_buf ?e} \<subseteq> sqe_bufs (mr_running q)" using some by (simp add: sqe_bufs_def)
  then have "frame (sqe_bufs (mr_running q)) m m1" using t(2) by (rule frame_mono [rotated])
  ultimately show ?thesis
    using t(1) q' unfolding ring_progress_def
    by (intro conjI exI [of _ "[(?e, res)]"]) simp_all
qed

text \<open>Doing nothing is progress.\<close>

lemma memring_idle:
  "mr_running q' = es \<Longrightarrow> mr_ready q' = ready \<Longrightarrow> ring_progress memring_view fds es ready m q' m"
  by (simp add: ring_progress_def)

lemma memring_law: "uring_law memring_ops memring_view (memfs_view full fs)"
  unfolding uring_law_def
proof (intro conjI)
  let ?V = "memfs_view full fs"
  show "ring_init_law memring_ops memring_view ?V"
    by (auto simp: ring_init_law_def memring_ops_def)
  show "ring_sqe_law memring_ops memring_view ?V"
    by (auto simp: ring_sqe_law_def memring_ops_def split: if_splits)
  show "ring_submit_law memring_ops memring_view ?V"
    by (auto simp: ring_submit_law_def memring_ops_def intro: memring_idle)
  show "ring_seen_law memring_ops memring_view ?V"
    by (simp add: ring_seen_law_def memring_ops_def)
  show "ring_peek_law memring_ops memring_view ?V"
    by (auto simp: ring_peek_law_def memring_ops_def min_def intro: memring_idle)
  show "ring_advance_law memring_ops memring_view ?V"
    by (simp add: ring_advance_law_def memring_ops_def)
  show "ring_exit_law memring_ops memring_view ?V"
    by (auto simp: ring_exit_law_def memring_ops_def)
  show "ring_wait_law memring_ops memring_view ?V"
    unfolding ring_wait_law_def
  proof (intro allI impI)
    fix q m w
    assume good: "v_good ?V w" and fits: "list_all (sqe_fits m) (uq_running memring_view q)"
      and some: "uq_running memring_view q \<noteq> [] \<or> uq_ready memring_view q \<noteq> []"
    have "\<exists>q' m'. ur_wait_cqe memring_ops q m w = Some (0, cqe_of (hd (mr_ready q')), q', m', w) \<and>
        mr_ready q' \<noteq> [] \<and> mr_queued q' = mr_queued q \<and>
        ring_progress memring_view (memfs_content w) (mr_running q) (mr_ready q) m q' m'"
    proof (cases "mr_ready q = []")
      case False
      then show ?thesis by (auto simp: memring_ops_def memring_wait_def intro: memring_idle)
    next
      case True
      obtain q' m' where work: "memring_work q m w = (q', m')" by (metis prod.exhaust)
      from memring_work_progress [OF _ _ work] fits some True
      have p: "ring_progress memring_view (memfs_content w) (mr_running q) (mr_ready q) m q' m'"
        "mr_queued q' = mr_queued q" "mr_ready q' \<noteq> []" by simp_all
      then show ?thesis using True some work by (auto simp: memring_ops_def memring_wait_def)
    qed
    then obtain q' m' where r: "ur_wait_cqe memring_ops q m w = Some (0, cqe_of (hd (mr_ready q')), q', m', w)"
      "mr_ready q' \<noteq> []" "mr_queued q' = mr_queued q"
      "ring_progress memring_view (memfs_content w) (mr_running q) (mr_ready q) m q' m'" by blast
    then have "frame (sqe_bufs (mr_running q)) m m'" by (simp add: ring_progress_def)
    with r good show "\<exists>rc cq q' m' w'. ur_wait_cqe memring_ops q m w = Some (rc, cq, q', m', w') \<and> quiet ?V w w' \<and>
           frame (sqe_bufs (uq_running memring_view q)) m m' \<and>
           (0 \<le> rc \<longrightarrow> uq_ready memring_view q' \<noteq> [] \<and> cq = cqe_of (hd (uq_ready memring_view q')) \<and>
              uq_queued memring_view q' = uq_queued memring_view q \<and>
              ring_progress memring_view (v_fds ?V w) (uq_running memring_view q) (uq_ready memring_view q) m q' m')"
      by (intro exI [of _ 0] exI [of _ "cqe_of (hd (mr_ready q'))"] exI [of _ q'] exI [of _ m'] exI [of _ w])
        simp
  qed
qed

end
