(* ===== verification/UringStream.thy ===== *)
theory UringStream
  imports MemRing ShardReader
begin

text \<open>
  What the contract of \<^theory_text>\<open>UringContract\<close> gives: properties of the ring backend, of \<open>open_backend\<close>, and of the
  shard stream over whatever backend that returns.
\<close>

section \<open>The stream over the best backend\<close>

interpretation as: shard_reader "any_ops K U" "uring_world K U Y V" "v_fds V" "any_requests Y"
    any_depth "any_inv K U Y V" uring_len any_closable K V for K U Y V
  by unfold_locales (auto simp: uring_world_def thread_world_def)

lemmas any_read_correct = as.stream_read_correct

lemmas any_destroy_correct = as.stream_destroy_correct

text \<open>Segments below 4 GiB fit every backend.\<close>

lemma options_fit_uring:
  "options_fit uring_len options n \<longleftrightarrow> segments_hold options n \<and> unat (segment_limit options) < 2 ^ 32"
  by (auto simp: options_fit_def uring_len_def)

section \<open>Counting\<close>

lemma uring_queue_counts:
  "uring_queue U fd rs n q m w = (r, n', q', m', w') \<Longrightarrow>
     n \<le> n' \<and> n' \<le> n + length rs \<and> (r = Inr () \<longrightarrow> n' = n + length rs)"
proof (induction rs arbitrary: n q m w)
  case (Cons x rs)
  obtain r1 q1 m1 w1 where g: "uring_get_sqe U q m w = (r1, q1, m1, w1)" by (metis prod.exhaust)
  show ?case
  proof (cases r1)
    case (Inl e)
    with Cons.prems g show ?thesis by auto
  next
    case (Inr u)
    with Cons.prems g have "uring_queue U fd rs (n + 1) (ur_set_data U (rq_token x)
        (ur_prep_read U fd (rq_buf x) (of_nat (rq_len x)) (rq_offset x) q1)) m1 w1 = (r, n', q', m', w')" by simp
    from Cons.IH [OF this] show ?thesis by simp
  qed
qed simp

section \<open>A ring in memory\<close>

definition ring_demo_files :: "(string \<times> byte list) list" where
  "ring_demo_files = [(''a'', [1, 2, 3, 4]), (''b'', [5, 6, 7, 8, 9])]"

definition ring_demo_world :: memfs where
  "ring_demo_world = (memfs_world ring_demo_files 2)\<lparr>mf_fds := [(3, ''a'')], mf_next := 4\<rparr>"

definition ring_demo_buffers :: "span list" where
  "ring_demo_buffers = [\<lparr>sp_addr = 0, sp_bytes = [0, 0]\<rparr>, \<lparr>sp_addr = 8, sp_bytes = [0, 0]\<rparr>]"

definition ring_demo_requests :: "read_request list" where
  "ring_demo_requests = [\<lparr>rq_offset = 0, rq_buf = 0, rq_len = 2, rq_token = 10\<rparr>,
     \<lparr>rq_offset = 3, rq_buf = 1, rq_len = 2, rq_token = 11\<rparr>]"

text \<open>Open a backend over file \<open>a\<close> and submit the requests.\<close>

definition ring_demo ::
  "(memring, memfs) uring_ops \<Rightarrow> u64 \<Rightarrow> (unit outcome \<times> memring uring_backend \<times> span list \<times> memfs) option" where
  "ring_demo U depth =
     (case open_uring_backend U 3 \<lparr>bo_queue_depth = depth, bo_threads = 0\<rparr> ring_demo_world of
        (Inl e, w) \<Rightarrow> None
      | (Inr b, w) \<Rightarrow> uring_submit U ring_demo_requests b ring_demo_buffers w)"

lemma ring_demo_world_ok: "uring_world memfs_sys memring_ops memring_view (memfs_view True ring_demo_files) ring_demo_world"
  by (simp add: uring_world_def thread_world_def memfs_files_law memfs_full_pread_law memring_law
      memfs_good_def ring_demo_world_def memfs_world_def ring_demo_files_def)

lemma ring_demo_inv:
  assumes "ring_demo memring_ops depth = Some (Inr (), b, m, w)"
  shows "uring_inv memfs_sys memring_ops memring_view (memfs_view True ring_demo_files) 3 [1, 2, 3, 4] b m w"
proof -
  let ?V = "memfs_view True ring_demo_files"
  obtain r b0 w0 where o: "open_uring_backend memring_ops 3 \<lparr>bo_queue_depth = depth, bo_threads = 0\<rparr> ring_demo_world = (r, w0)"
    by (metis prod.exhaust)
  with assms obtain b0 where b0: "r = Inr b0" and s: "uring_submit memring_ops ring_demo_requests b0 ring_demo_buffers w0 =
      Some (Inr (), b, m, w)" by (cases r) (auto simp: ring_demo_def)
  have fd: "v_fds ?V ring_demo_world 3 = Some [1, 2, 3, 4]"
    by (simp add: memfs_content_def ring_demo_world_def memfs_world_def ring_demo_files_def)
  from open_uring_correct [OF ring_demo_world_ok fd o, of ring_demo_buffers] b0
  have start: "uring_requests memring_view b0 = []"
    "uring_inv memfs_sys memring_ops memring_view ?V 3 [1, 2, 3, 4] b0 ring_demo_buffers w0" by auto
  have "list_all (request_fits ring_demo_buffers) ring_demo_requests"
    "distinct (map rq_buf ring_demo_requests)" "list_all (\<lambda>r. rq_len r < 2 ^ 32) ring_demo_requests"
    by (simp_all add: ring_demo_buffers_def ring_demo_requests_def request_fits_def span_size_def)
  with uring_submit_correct [OF start(2) _ _ this(1)] s start(1) show ?thesis
    by (fastforce simp: bufs_of_def)
qed

section \<open>Where the ring backend does less than it promises\<close>

text \<open>
  The waiting loop compares what it has with \<open>in_flight_\<close>, which it lowers itself: with two reads in
  flight, \<open>reap\<close> for two returns after one, while the other is still running.
\<close>

lemma waiting_stops_at_half:
  "(case ring_demo memring_ops 4 of
      Some (Inr _, b, m, w) \<Rightarrow> map_option (\<lambda>(r, b', _). (r, ub_in_flight b', map_option (\<lambda>q. map sq_data (mr_running q)) (ub_ring b')))
        (uring_reap memring_ops 2 2 b m w)
    | _ \<Rightarrow> None) = Some (Inr [\<lparr>cp_token = 11, cp_bytes = 1, cp_error = 0\<rparr>], 1, Some [10])"
  by code_simp

text \<open>
  When the kernel refuses a submission (here with \<open>EBUSY\<close>), the caller gets an error, but the entries stay in
  the submission queue and stay counted: the reads happen at the next successful submission, and until then
  \<open>reap\<close> waits for reads that were never started.
\<close>

definition busy_ring_ops :: "(memring, memfs) uring_ops" where
  "busy_ring_ops = memring_ops\<lparr>ur_submit := (\<lambda>q m w. (- 16, q, m, w))\<rparr>"

lemma failed_submit_stays_counted:
  "(case ring_demo busy_ring_ops 4 of
      Some (r, b, m, w) \<Rightarrow> Some (r, ub_in_flight b, uring_reap busy_ring_ops 2 1 b m w = None,
        map_option (\<lambda>(r, b', m', w'). map_option (\<lambda>q. map sq_data (mr_running q)) (ub_ring b'))
          (uring_submit memring_ops [] b m w))
    | None \<Rightarrow> None) =
   Some (Inl (BackendError (RingError ''io_uring_submit'' 16)), 2, True, Some (Some [10, 11]))"
  by code_simp

text \<open>A destination of 4 GiB becomes a read of no byte.\<close>

lemma four_gib_read_is_empty: "(of_nat 4294967296 :: u32) = 0"
  by simp

section \<open>Properties\<close>

text \<open>
  Property C13 (reap on the ring). \<open>reap\<close> on the ring backend always returns, whatever the order in which the
  kernel completes the reads. Without an error it hands out between the smaller of \<open>min\<close> and half of what is in flight and
  \<open>out.size ()\<close> completions; each belongs to one request in flight, which then is no longer in flight, and
  is true of its buffer. Only destinations of reads in flight are written.
\<close>

theorem uring_reap_truthful:
  assumes "uring_inv K U Y V fd c b m w"
  shows "\<exists>r b' m' w'. uring_reap U out_size at_least b m w = Some (r, b', m', w') \<and>
    frame (bufs_of (uring_requests Y b)) m m' \<and>
    (\<forall>cs. r = Inr cs \<longrightarrow> length cs \<le> out_size \<and>
       min (min at_least out_size) ((ub_in_flight b + 1) div 2) \<le> length cs \<and>
       ub_in_flight b' + length cs = ub_in_flight b \<and> uring_inv K U Y V fd c b' m' w' \<and>
       (\<exists>ps. mset (uring_requests Y b) = mset ps + mset (uring_requests Y b') \<and> list_all2 (completes c m') ps cs))"
proof -
  have len: "length (uring_requests Y x) = ub_in_flight x" if "uring_inv K U Y V fd c x n v" for x n v
    using uring_invE [OF that] by metis
  from uring_reap_correct [OF assms, of out_size at_least] obtain r b' m' w' where
    r: "uring_reap U out_size at_least b m w = Some (r, b', m', w')" "frame (bufs_of (uring_requests Y b)) m m'"
    and post: "\<And>cs. r = Inr cs \<Longrightarrow> length cs \<le> out_size \<and>
       min (min at_least out_size) ((length (uring_requests Y b) + 1) div 2) \<le> length cs \<and>
       uring_inv K U Y V fd c b' m' w' \<and>
       (\<exists>ps. mset (uring_requests Y b) = mset ps + mset (uring_requests Y b') \<and> list_all2 (completes c m') ps cs)"
    by blast
  have "ub_in_flight b' + length cs = ub_in_flight b" if "r = Inr cs" for cs
  proof -
    from post [OF that] obtain ps where ps: "mset (uring_requests Y b) = mset ps + mset (uring_requests Y b')"
      "list_all2 (completes c m') ps cs" and inv': "uring_inv K U Y V fd c b' m' w'" by blast
    from arg_cong [OF ps(1), of size] list_all2_lengthD [OF ps(2)] len [OF inv'] len [OF assms]
    show ?thesis by simp
  qed
  with r post len [OF assms] show ?thesis by fastforce
qed

theorem uring_reap_truthful_witness:
  "\<exists>b m w cs b' m' w'. ring_demo memring_ops 4 = Some (Inr (), b, m, w) \<and>
     uring_reap memring_ops 4 1 b m w = Some (Inr cs, b', m', w') \<and>
     cs = [\<lparr>cp_token = 11, cp_bytes = 1, cp_error = 0\<rparr>] \<and> ub_in_flight b' = 1"
proof -
  have "map_option (\<lambda>(r, b, m, w). (r, ub_in_flight b, map_option fst (uring_reap memring_ops 4 1 b m w)))
      (ring_demo memring_ops 4) = Some (Inr (), 2, Some (Inr [\<lparr>cp_token = 11, cp_bytes = 1, cp_error = 0\<rparr>]))"
    by code_simp
  then obtain b m w b' m' w' where d: "ring_demo memring_ops 4 = Some (Inr (), b, m, w)" "ub_in_flight b = 2"
    "uring_reap memring_ops 4 1 b m w = Some (Inr [\<lparr>cp_token = 11, cp_bytes = 1, cp_error = 0\<rparr>], b', m', w')"
    by (auto simp: map_option_case split: option.splits prod.splits)
  from uring_reap_truthful [OF ring_demo_inv [OF d(1)], of 4 1] d show ?thesis by auto
qed

text \<open>
  Property C11 (submit on the ring). Whatever liburing does, \<open>in_flight_\<close> never shrinks in \<open>submit\<close> and never
  exceeds the depth of the queue; a batch that would exceed it is refused with \<open>EAGAIN\<close> and nothing
  changes, and success counts the whole batch.
\<close>

theorem uring_submit_counts:
  assumes "uring_submit U rs b m w = Some (r, b', m', w')" and "ub_in_flight b \<le> unat (ub_depth b)"
  shows "ub_depth b' = ub_depth b \<and> ub_in_flight b \<le> ub_in_flight b' \<and> ub_in_flight b' \<le> unat (ub_depth b') \<and>
    (unat (ub_depth b) < ub_in_flight b + length rs \<longrightarrow>
       r = Inl (BackendError (QueueFull ''UringBackend'' EAGAIN)) \<and> b' = b \<and> m' = m \<and> w' = w) \<and>
    (r = Inr () \<longrightarrow> ub_in_flight b' = ub_in_flight b + length rs)"
proof (cases "unat (ub_depth b) < ub_in_flight b + length rs")
  case True
  with assms show ?thesis by (auto simp: uring_submit_def)
next
  case False
  with assms(1) obtain q where q: "ub_ring b = Some q" by (auto simp: uring_submit_def split: option.splits)
  obtain r1 n q1 m1 w1 where u: "uring_queue U (ub_fd b) rs (ub_in_flight b) q m w = (r1, n, q1, m1, w1)"
    by (metis prod.exhaust)
  obtain rc q2 m2 w2 where s: "ur_submit U q1 m1 w1 = (rc, q2, m2, w2)" by (metis prod.exhaust)
  have "ub_in_flight b' = n \<and> ub_depth b' = ub_depth b \<and> (r = Inr () \<longrightarrow> r1 = Inr ())"
    using assms(1) False q u s by (cases r1) (auto simp: uring_submit_def)
  with uring_queue_counts [OF u] False show ?thesis by auto
qed

theorem uring_submit_counts_witness:
  "\<exists>b m w. ring_demo memring_ops 4 = Some (Inr (), b, m, w) \<and>
     (\<forall>r b' m' w'. uring_submit memring_ops (ring_demo_requests @ ring_demo_requests) b m w = Some (r, b', m', w') \<longrightarrow>
        ub_in_flight b' \<le> 4)"
proof -
  have "map_option (\<lambda>(r, b, m, w). (r, ub_in_flight b, ub_depth b)) (ring_demo memring_ops 4) = Some (Inr (), 2, 4)"
    by code_simp
  then obtain b m w where d: "ring_demo memring_ops 4 = Some (Inr (), b, m, w)" "ub_in_flight b = 2" "ub_depth b = 4"
    by auto
  then have "ub_in_flight b \<le> unat (ub_depth b)" by simp
  from uring_submit_counts [OF _ this, of memring_ops] d show ?thesis by fastforce
qed

text \<open>
  Property C15 (the best backend). When the kernel has no ring for it, \<open>open_backend\<close> still gives a backend: it fails only for a
  queue depth of zero or when the threads of the fallback cannot start. What it gives has the depth that was asked for,
  nothing in flight, and keeps the contract of \<^theory_text>\<open>async_backend\<close>.
\<close>

theorem open_backend_falls_back:
  assumes "uring_world K U Y V w" and "0 \<le> fd" and "v_fds V w fd = Some c"
    and "open_backend K U fd options w = (r, w')"
  shows "(case r of
      Inl e \<Rightarrow> bo_queue_depth options = 0 \<and> e = BackendError (QueueDepthZero ''open_thread_backend'') \<or>
        (\<exists>what v v'. bo_queue_depth options \<noteq> 0 \<and>
           pool_start K (if bo_threads options = 0 then 2 else bo_threads options) v = (Some what, v'))
    | Inr b \<Rightarrow> bo_queue_depth options \<noteq> 0 \<and> any_requests Y b = [] \<and> any_depth b = unat (bo_queue_depth options) \<and>
        any_inv K U Y V fd c b m w') \<and> v_fds V w' = v_fds V w"
proof -
  have call: "bk_open (any_ops K U) fd options w = (r, w')" using assms(4) by (simp add: any_ops_def)
  note law = any.open_law [OF assms(1-3) call, of m]
  show ?thesis
  proof (cases r)
    case (Inr b)
    then have "bo_queue_depth options \<noteq> 0"
      using assms(4) by (auto simp: open_backend_def open_uring_backend_def open_thread_backend_def)
    with law Inr show ?thesis by simp
  next
    case (Inl e)
    then obtain e1 w1 where "open_uring_backend U fd options w = (Inl e1, w1)"
      and t: "open_thread_backend K fd options w1 = (Inl e, w')"
      using assms(4) by (auto simp: open_backend_def split: sum.splits prod.splits)
    with law Inl show ?thesis
      by (auto simp: open_thread_backend_def split: if_splits prod.splits option.splits)
  qed
qed

theorem open_backend_falls_back_witness:
  "\<exists>b w. open_backend memfs_sys memring_ops 3 \<lparr>bo_queue_depth = 40000, bo_threads = 0\<rparr> ring_demo_world =
       (Inr (Threads b :: memring any_backend), w) \<and> unat (tb_depth b) = 40000"
proof -
  let ?o = "\<lparr>bo_queue_depth = 40000, bo_threads = 0\<rparr>"
  obtain b w where call: "open_backend memfs_sys memring_ops 3 ?o ring_demo_world = (Inr (Threads b :: memring any_backend), w)"
    by (simp add: open_backend_def open_uring_backend_def uring_init_def memring_ops_def open_thread_backend_def)
  have "v_fds (memfs_view True ring_demo_files) ring_demo_world 3 = Some [1, 2, 3, 4]"
    by (simp add: memfs_content_def ring_demo_world_def memfs_world_def ring_demo_files_def)
  from open_backend_falls_back [OF ring_demo_world_ok _ this call, of "[]"] call show ?thesis by simp
qed

text \<open>
  Property C1 (the stream over any backend). The stream refines its list of bytes whatever backend \<open>open_backend\<close> returns: when the
  promises of liburing and of the system calls hold and segments are below 4 GiB, \<open>read\<close> returns, and without an
  error it takes the next bytes of the shards, although a ring completes its reads in any order.
\<close>

theorem stream_read_any_backend:
  assumes "stream_inv V (uring_world K U Y V) (any_requests Y) (any_inv K U Y V) s w"
    and "owns_file V D s w" and "block_law K V n"
    and "segments_hold (ss_options s) n" and "unat (segment_limit (ss_options s)) < 2 ^ 32"
  shows "\<exists>r out' s' w'. stream_read K (any_ops K U) out s w = Some (r, out', s', w') \<and>
    owns_file V D s' w' \<and>
    (\<forall>m. r = Inr m \<longrightarrow>
       stream_inv V (uring_world K U Y V) (any_requests Y) (any_inv K U Y V) s' w' \<and>
       m = min (length out) (length (stream_rest V s)) \<and>
       out' = take m (stream_rest V s) @ drop m out \<and>
       stream_rest V s' = drop m (stream_rest V s) \<and> ss_options s' = ss_options s)"
proof -
  have "options_fit uring_len (ss_options s) n" using assms(4,5) by (simp add: options_fit_uring)
  from any_read_correct [OF assms(1-3) this, of out] show ?thesis unfolding same_config_def by blast
qed

text \<open>The witness reads over a ring in memory.\<close>

theorem stream_read_any_backend_witness:
  "\<exists>s w. stream_read memfs_sys (any_ops memfs_sys memring_ops) [0, 0, 0, 0, 0]
       (stream_init [\<lparr>sh_path = ''a'', sh_offset = 0, sh_length = 4\<rparr>,
                     \<lparr>sh_path = ''b'', sh_offset = 0, sh_length = 5\<rparr>] [1, 0]
         \<lparr>batch_bytes = 5, prefetch = 1, read_depth = 4, segment_bytes = 512, seed = 1\<rparr>)
       (memfs_world ring_demo_files 2) = Some (Inr 5, [5, 6, 7, 8, 9], s, w) \<and>
     stream_rest (memfs_view True ring_demo_files) s = [1, 2, 3, 4]"
proof -
  let ?shards = "[\<lparr>sh_path = ''a'', sh_offset = 0, sh_length = 4\<rparr>,
                     \<lparr>sh_path = ''b'', sh_offset = 0, sh_length = 5\<rparr>] :: shard list"
  let ?opts = "\<lparr>batch_bytes = 5, prefetch = 1, read_depth = 4, segment_bytes = 512, seed = 1\<rparr>"
  let ?s = "stream_init ?shards [1, 0] ?opts :: memring any_backend stream"
  let ?V = "memfs_view True ring_demo_files" and ?w = "memfs_world ring_demo_files 2"
  let ?run = "stream_read memfs_sys (any_ops memfs_sys memring_ops) [0, 0, 0, 0, 0] ?s ?w"
  have world: "uring_world memfs_sys memring_ops memring_view ?V ?w"
    by (simp add: uring_world_def thread_world_def memfs_files_law memfs_full_pread_law memring_law ring_demo_files_def)
  have shards: "\<forall>i \<in> set [1, 0]. i < length ?shards \<and>
      unat (sh_offset (?shards ! i)) + unat (sh_length (?shards ! i)) < 2 ^ 64" by simp
  note init = stream_init_inv [where ok = "uring_world memfs_sys memring_ops memring_view ?V" and V = ?V and w = ?w and
    D = "v_fds ?V ?w" and shards = ?shards and order = "[1, 0]" and options = ?opts, OF world refl shards]
  have blk: "block_law memfs_sys ?V 512" by (auto simp: block_law_def memfs_good_def)
  have seg: "segments_hold (ss_options ?s) 512" "unat (segment_limit (ss_options ?s)) < 2 ^ 32"
    by (simp_all add: segments_hold_def segment_limit_def stream_init_def)
  have "map_option (\<lambda>(r, out, s, w). (r, out)) ?run = Some (Inr 5, [5, 6, 7, 8, 9])" by code_simp
  then obtain s w where run: "?run = Some (Inr 5, [5, 6, 7, 8, 9], s, w)" by auto
  from stream_read_any_backend [OF init(1,2) blk seg, of "[0, 0, 0, 0, 0]"] run
  have "stream_rest ?V s = drop 5 (stream_rest ?V ?s)" by fastforce
  also have "\<dots> = [1, 2, 3, 4]" unfolding init(3) by (simp add: shard_content_def window_def ring_demo_files_def)
  finally show ?thesis using run by blast
qed

text \<open>
  Property C20 (after the end of the stream). When a read delivers less than the destination holds, the stream has ended: no byte is
  left, no shard is open, and the stream holds no backend, no pending read and no file any more. So every descriptor is as it was
  before the stream, and the destructor has nothing left to do.
\<close>

theorem drained_stream_owns_nothing:
  assumes "stream_inv V (uring_world K U Y V) (any_requests Y) (any_inv K U Y V) s w"
    and "owns_file V D s w" and "block_law K V n"
    and "segments_hold (ss_options s) n" and "unat (segment_limit (ss_options s)) < 2 ^ 32"
    and "stream_read K (any_ops K U) out s w = Some (Inr m, out', s', w')" and "m < length out"
  shows "stream_rest V s' = [] \<and> \<not> ss_open s' \<and> ss_backend s' = None \<and> ss_pending s' = [] \<and> \<not> is_open (ss_file s') \<and>
    v_fds V w' = D \<and> stream_destroy K (any_ops K U) s' w' = Some w'"
proof -
  have "options_fit uring_len (ss_options s) n" using assms(4,5) by (simp add: options_fit_uring)
  from any_read_correct [OF assms(1-3) this, of out] assms(6,7)
  have s': "stream_inv V (uring_world K U Y V) (any_requests Y) (any_inv K U Y V) s' w'" "owns_file V D s' w'"
    "\<not> ss_open s'" "m = min (length out) (length (stream_rest V s))"
    "stream_rest V s' = drop m (stream_rest V s)" by auto
  then have "ss_backend s' = None" "ss_pending s' = []" "\<not> is_open (ss_file s')" "v_fds V w' = D"
    by (simp_all add: stream_inv_def owns_file_def)
  moreover have "stream_rest V s' = []" using s'(4,5) assms(7) by simp
  ultimately show ?thesis using s'(3) by (simp add: stream_destroy_def file_close_def is_open_def)
qed

theorem drained_stream_owns_nothing_witness:
  "\<exists>out s w. stream_read memfs_sys (any_ops memfs_sys memring_ops) [0, 0, 0]
       (stream_init [\<lparr>sh_path = ''a'', sh_offset = 0, sh_length = 2\<rparr>] [0]
         \<lparr>batch_bytes = 5, prefetch = 1, read_depth = 3, segment_bytes = 512, seed = 1\<rparr>)
       (memfs_world ring_demo_files 2) = Some (Inr 2, out, s, w) \<and>
     \<not> is_open (ss_file s) \<and> memfs_content w = (\<lambda>fd. None)"
proof -
  let ?shards = "[\<lparr>sh_path = ''a'', sh_offset = 0, sh_length = 2\<rparr>] :: shard list"
  let ?opts = "\<lparr>batch_bytes = 5, prefetch = 1, read_depth = 3, segment_bytes = 512, seed = 1\<rparr>"
  let ?s = "stream_init ?shards [0] ?opts :: memring any_backend stream"
  let ?V = "memfs_view True ring_demo_files" and ?w = "memfs_world ring_demo_files 2"
  let ?run = "stream_read memfs_sys (any_ops memfs_sys memring_ops) [0, 0, 0] ?s ?w"
  have world: "uring_world memfs_sys memring_ops memring_view ?V ?w"
    by (simp add: uring_world_def thread_world_def memfs_files_law memfs_full_pread_law memring_law ring_demo_files_def)
  have shards: "\<forall>i \<in> set [0]. i < length ?shards \<and>
      unat (sh_offset (?shards ! i)) + unat (sh_length (?shards ! i)) < 2 ^ 64" by simp
  have fds: "v_fds ?V ?w = (\<lambda>fd. None)"
    by (simp add: memfs_content_def memfs_world_def fun_eq_iff)
  note init = stream_init_inv [where ok = "uring_world memfs_sys memring_ops memring_view ?V" and V = ?V and w = ?w and
    shards = ?shards and order = "[0]" and options = ?opts, OF world fds shards]
  have blk: "block_law memfs_sys ?V 512" by (auto simp: block_law_def memfs_good_def)
  have seg: "segments_hold (ss_options ?s) 512" "unat (segment_limit (ss_options ?s)) < 2 ^ 32"
    by (simp_all add: segments_hold_def segment_limit_def stream_init_def)
  have "map_option fst ?run = Some (Inr 2)" by code_simp
  then obtain out s w where run: "?run = Some (Inr 2, out, s, w)" by auto
  have "2 < length [0, 0, 0 :: byte]" by simp
  from drained_stream_owns_nothing [OF init(1,2) blk seg run this] run show ?thesis by auto
qed

end
