(* ===== verification/Dataset.thy ===== *)
theory Dataset
  imports BatchRun UringStream
begin

text \<open>
  \<open>for_each_batch\<close> on the shard stream over the best backend: the batches that the callback is
  given, the errors it returns, the memory it uses, and that it returns under every interleaving
  of the two threads.
\<close>

section \<open>The stream is a source of bytes\<close>

definition stream_intact ::
  "'w sys \<Rightarrow> ('q, 'w) uring_ops \<Rightarrow> 'q uring_view \<Rightarrow> 'w view \<Rightarrow> (int \<Rightarrow> byte list option) \<Rightarrow> u64 \<Rightarrow>
     'q any_backend stream \<Rightarrow> 'w \<Rightarrow> bool" where
  "stream_intact K U Y V D n s w \<longleftrightarrow>
     stream_inv V (uring_world K U Y V) (any_requests Y) (any_inv K U Y V) s w \<and> owns_file V D s w \<and>
     block_law K V n \<and> options_fit uring_len (ss_options s) n"

text \<open>What is left when the stream is gone: a world of the same kind, with the descriptors of before.\<close>

definition stream_gone ::
  "'w sys \<Rightarrow> ('q, 'w) uring_ops \<Rightarrow> 'q uring_view \<Rightarrow> 'w view \<Rightarrow> (int \<Rightarrow> byte list option) \<Rightarrow> 'w \<Rightarrow> bool" where
  "stream_gone K U Y V D w \<longleftrightarrow> uring_world K U Y V w \<and> v_fds V w = D"

text \<open>A stream that has closed its last shard; destroying it changes nothing.\<close>

definition stream_finished ::
  "'w sys \<Rightarrow> ('q, 'w) uring_ops \<Rightarrow> 'q uring_view \<Rightarrow> 'w view \<Rightarrow> (int \<Rightarrow> byte list option) \<Rightarrow> 'q any_backend stream \<Rightarrow> 'w \<Rightarrow> bool" where
  "stream_finished K U Y V D s w \<longleftrightarrow> ss_backend s = None \<and> \<not> is_open (ss_file s) \<and> stream_gone K U Y V D w"

text \<open>A stream of which a read may have failed; and one with reads in flight, whose destruction is undefined.\<close>

definition stream_spent ::
  "'w sys \<Rightarrow> ('q, 'w) uring_ops \<Rightarrow> 'q uring_view \<Rightarrow> 'w view \<Rightarrow> (int \<Rightarrow> byte list option) \<Rightarrow> 'q any_backend stream \<Rightarrow> 'w \<Rightarrow> bool" where
  "stream_spent K U Y V D s w \<longleftrightarrow> uring_world K U Y V w \<and> owns_file V D s w \<and>
     (\<forall>b. ss_backend s = Some b \<longrightarrow> any_closable b)"

definition stream_busy :: "'q any_backend stream \<Rightarrow> bool" where
  "stream_busy s \<longleftrightarrow> (\<exists>b. ss_backend s = Some b \<and> any_in_flight b \<noteq> 0)"

lemma stream_spent_destroy:
  assumes "stream_spent K U Y V D s w"
  shows "case stream_destroy K (any_ops K U) s w of
      None \<Rightarrow> stream_busy s | Some w' \<Rightarrow> \<not> stream_busy s \<and> stream_gone K U Y V D w'"
proof -
  from assms have "uring_world K U Y V w" "owns_file V D s w" "as.can_close s"
    by (simp_all add: stream_spent_def as.can_close_def)
  from any_destroy_correct [OF this] show ?thesis
    by (auto simp: stream_busy_def stream_gone_def any_ops_def split: option.splits)
qed

lemma stream_finished_destroy: "ss_backend s = None \<Longrightarrow> \<not> is_open (ss_file s) \<Longrightarrow> stream_destroy K B s w = Some w"
  by (simp add: stream_destroy_def file_close_def is_open_def)

interpretation bs: byte_source "stream_read K (any_ops K U)" "stream_destroy K (any_ops K U)"
    "stream_intact K U Y V D n" "stream_rest V" "stream_finished K U Y V D" "stream_gone K U Y V D"
    "stream_spent K U Y V D" stream_busy for K U Y V D n
proof unfold_locales
  fix s w out
  assume "stream_intact K U Y V D n s w"
  then have pre: "stream_inv V (uring_world K U Y V) (any_requests Y) (any_inv K U Y V) s w"
      "owns_file V D s w" "block_law K V n" "options_fit uring_len (ss_options s) n"
    by (simp_all add: stream_intact_def)
  note correct = any_read_correct [OF pre, of out]
  from correct pre(3,4) show "\<exists>r out' s' w'. stream_read K (any_ops K U) out s w = Some (r, out', s', w') \<and>
      (\<forall>m. r = Inr m \<longrightarrow> stream_intact K U Y V D n s' w' \<and> m = min (length out) (length (stream_rest V s)) \<and>
         out' = take m (stream_rest V s) @ drop m out \<and> stream_rest V s' = drop m (stream_rest V s)) \<and>
      (\<forall>e. r = Inl e \<longrightarrow> stream_spent K U Y V D s' w')"
    unfolding stream_intact_def same_config_def stream_spent_def as.can_close_def by auto
  fix m out' s' w'
  assume "stream_read K (any_ops K U) out s w = Some (Inr m, out', s', w')" and "m < length out"
  with correct show "stream_finished K U Y V D s' w'"
    by (auto simp: stream_finished_def stream_gone_def stream_inv_def owns_file_def)
next
  fix s w
  show "stream_spent K U Y V D s w" if i: "stream_intact K U Y V D n s w"
  proof -
    from i have inv: "stream_inv V (uring_world K U Y V) (any_requests Y) (any_inv K U Y V) s w" "owns_file V D s w"
      by (simp_all add: stream_intact_def)
    then have "uring_world K U Y V w" by (simp add: stream_inv_def)
    with as.inv_can_close [OF inv(1)] inv(2) show ?thesis by (simp add: stream_spent_def as.can_close_def)
  qed
  show "stream_finished K U Y V D s w \<Longrightarrow> stream_spent K U Y V D s w \<and> \<not> stream_busy s"
    by (simp add: stream_finished_def stream_spent_def stream_busy_def stream_gone_def owns_file_def)
  show "stream_spent K U Y V D s w \<Longrightarrow> (case stream_destroy K (any_ops K U) s w of
      None \<Rightarrow> stream_busy s | Some w' \<Rightarrow> \<not> stream_busy s \<and> stream_gone K U Y V D w')"
    by (rule stream_spent_destroy)
qed

section \<open>The start\<close>

lemma fill_free_result:
  assumes "channel_law C Q" and "\<not> q_closed Q c"
  shows "case fill_free C size' n c of
      None \<Rightarrow> q_cap Q c < length (q_items Q c) + n
    | Some c' \<Rightarrow> q_items Q c' = q_items Q c @ replicate n \<lparr>ba_bytes = replicate (unat size') 0, ba_size = 0\<rparr> \<and>
        q_cap Q c' = q_cap Q c \<and> \<not> q_closed Q c'"
  using assms(2)
proof (induction n arbitrary: c)
  case (Suc n)
  let ?b = "\<lparr>ba_bytes = replicate (unat size') 0, ba_size = 0\<rparr>"
  show ?case
  proof (cases "ch_send C ?b c")
    case (Passed c')
    from channel_send(1) [OF assms(1) this] have c': "q_items Q c' = q_items Q c @ [?b]"
      "q_cap Q c' = q_cap Q c" "\<not> q_closed Q c'" by simp_all
    from Suc.IH [OF c'(3)] show ?thesis using Passed c'(1,2) by (auto split: option.splits)
  next
    case Blocked
    then show ?thesis using channel_send(3) [OF assms(1), of ?b c] by simp
  next
    case Closed
    then show ?thesis using channel_send(2) [OF assms(1)] Suc.prems by auto
  qed
qed simp

text \<open>
  What the theorems assume of the world: the channels and system calls keep their promises, the
  shuffle is a permutation, segments hold whole blocks and are below 4 GiB, and no shard wraps around.
\<close>

definition dataset_setting ::
  "'w sys \<Rightarrow> ('q, 'w) uring_ops \<Rightarrow> 'q uring_view \<Rightarrow> 'w view \<Rightarrow> (batch, 'c) channel_ops \<Rightarrow> (batch, 'c) channel_view \<Rightarrow>
     (u64 \<Rightarrow> nat list \<Rightarrow> nat list) \<Rightarrow> u64 \<Rightarrow> shard_set \<Rightarrow> batch_options \<Rightarrow> 'w \<Rightarrow> bool" where
  "dataset_setting K U Y V C Q shuffle block shards options w \<longleftrightarrow>
     channel_law C Q \<and> uring_world K U Y V w \<and> block_law K V block \<and> options_fit uring_len options block \<and>
     (\<forall>seed' xs. mset (shuffle seed' xs) = mset xs) \<and>
     (\<forall>s \<in> set shards. unat (sh_offset s) + unat (sh_length s) < 2 ^ 64)"

text \<open>The bytes of the data set, in the order of the stream.\<close>

definition dataset_bytes ::
  "'w view \<Rightarrow> (u64 \<Rightarrow> nat list \<Rightarrow> nat list) \<Rightarrow> shard_set \<Rightarrow> batch_options \<Rightarrow> byte list" where
  "dataset_bytes V shuffle shards options =
     concat (map (\<lambda>i. shard_content V (shards ! i)) (stream_order shuffle options shards))"

text \<open>The states that the two threads can reach.\<close>

abbreviation batches_run where
  "batches_run K U C callback \<equiv> batch_run (stream_read K (any_ops K U)) (stream_destroy K (any_ops K U)) C callback"

abbreviation batches_step where
  "batches_step K U C callback \<equiv> batch_step (stream_read K (any_ops K U)) (stream_destroy K (any_ops K U)) C callback"

abbreviation dataset_inv where
  "dataset_inv K U Y V Q D block n p bytes s \<equiv>
     pool_inv Q n p s \<and> close_inv Q s \<and> error_inv s \<and>
     data_inv Q n (stream_intact K U Y V D block) (stream_rest V) (stream_finished K U Y V D)
       (stream_gone K U Y V D)
       (source_error (stream_read K (any_ops K U)) (stream_intact K U Y V D block)) bytes s"

lemma stream_order_bounds:
  assumes "\<forall>seed' xs. mset (shuffle seed' xs) = mset xs" and "i \<in> set (stream_order shuffle options shards)"
  shows "i < length shards"
proof -
  have "mset (stream_order shuffle options shards) = mset [0..<length shards]"
    using assms(1) by (simp add: stream_order_def)
  then have "set (stream_order shuffle options shards) = set [0..<length shards]"
    by (metis set_mset_mset)
  with assms(2) show ?thesis by simp
qed

lemma start_inv:
  fixes U :: "('q, 'w) uring_ops"
  assumes set: "dataset_setting K U Y V C Q shuffle block shards options w"
    and start: "for_each_batch C shuffle shards options user w = Some (Inr s)"
  shows "dataset_inv K U Y V Q (v_fds V w) block (unat (batch_bytes options)) (unat (prefetch options))
      (dataset_bytes V shuffle shards options) s"
    and "0 < unat (batch_bytes options)" and "0 < unat (prefetch options)"
proof -
  let ?stream = "stream_init shards (stream_order shuffle options shards) options :: 'q any_backend stream"
  let ?free0 = "ch_new C (prefetch options + 1)"
  have law: "channel_law C Q" using set by (simp add: dataset_setting_def)
  from start obtain free where
    free: "fill_free C (batch_bytes options) (unat (prefetch options) + 1) ?free0 = Some free"
    and nz: "batch_bytes options \<noteq> 0" "prefetch options \<noteq> 0"
    and s: "s = \<lparr>bt_ready = ch_new C (prefetch options), bt_free = free, bt_error = None,
          bt_stream = ?stream, bt_world = w, bt_user = user, bt_keep_going = True,
          bt_producer = PRecv, bt_consumer = CRecv, bt_given = []\<rparr>"
    by (auto simp: for_each_batch_def bind_eq_Some_conv split: if_splits)
  from nz show pos: "0 < unat (batch_bytes options)" "0 < unat (prefetch options)"
    by (simp_all add: unat_gt_0)
  have new: "q_items Q ?free0 = []" "q_cap Q ?free0 = unat (prefetch options + 1)" "\<not> q_closed Q ?free0"
    using channel_new [OF law] by blast+
  have nowrap: "prefetch options + 1 \<noteq> 0"
  proof
    assume "prefetch options + 1 = 0"
    then have "ch_send C b ?free0 = Blocked" for b
      using channel_send(3) [OF law, of b ?free0] new by simp
    with free show False by simp
  qed
  then have cap: "unat (prefetch options + 1) = unat (prefetch options) + 1"
    by (simp add: unatSuc add.commute)
  have free': "q_items Q free = replicate (unat (prefetch options) + 1)
        \<lparr>ba_bytes = replicate (unat (batch_bytes options)) 0, ba_size = 0\<rparr>"
      "q_cap Q free = unat (prefetch options) + 1" "\<not> q_closed Q free"
    using fill_free_result [OF law new(3), of "unat (prefetch options) + 1" "batch_bytes options"]
    unfolding free option.case new(1,2) cap append_Nil by blast+
  have ready: "q_items Q (ch_new C (prefetch options)) = []"
      "q_cap Q (ch_new C (prefetch options)) = unat (prefetch options)"
      "\<not> q_closed Q (ch_new C (prefetch options))"
    using channel_new [OF law] by blast+
  have idx: "\<forall>i \<in> set (stream_order shuffle options shards). i < length shards \<and>
      unat (sh_offset (shards ! i)) + unat (sh_length (shards ! i)) < 2 ^ 64"
    using set stream_order_bounds [of shuffle] by (auto simp: dataset_setting_def)
  have world: "uring_world K U Y V w" using set by (simp add: dataset_setting_def)
  note init = stream_init_inv [where ok = "uring_world K U Y V", OF world refl idx]
  have "stream_inv V (uring_world K U Y V) (any_requests Y) (any_inv K U Y V) ?stream w"
    "owns_file V (v_fds V w) ?stream w" by (rule init)+
  then have intact: "stream_intact K U Y V (v_fds V w) block ?stream w"
    using set by (simp add: stream_intact_def dataset_setting_def stream_init_def)
  have "stream_rest V ?stream = dataset_bytes V shuffle shards options"
    unfolding dataset_bytes_def by (rule init)
  then show "dataset_inv K U Y V Q (v_fds V w) block (unat (batch_bytes options)) (unat (prefetch options))
      (dataset_bytes V shuffle shards options) s"
    using free' ready intact
    by (auto simp: s pool_inv_def close_inv_def error_inv_def data_inv_def sent_def)
qed

lemma run_inv:
  assumes "dataset_setting K U Y V C Q shuffle block shards options w"
    and "for_each_batch C shuffle shards options user w = Some (Inr s0)"
    and "batches_run K U C callback s0 k s"
  shows "dataset_inv K U Y V Q (v_fds V w) block (unat (batch_bytes options)) (unat (prefetch options))
      (dataset_bytes V shuffle shards options) s"
proof -
  have "channel_law C Q" using assms(1) by (simp add: dataset_setting_def)
  from bs.batch_run_inv [OF assms(3) this start_inv(2) [OF assms(1,2)] start_inv(1) [OF assms(1,2)]]
  show ?thesis .
qed

text \<open>However the function is left, the stream leaves nothing behind, unless it was destroyed with reads in flight.\<close>

abbreviation leaves_dataset where
  "leaves_dataset K U Y V D \<equiv> leave_inv (stream_spent K U Y V D) stream_busy (stream_gone K U Y V D)"

lemma start_leaves:
  assumes set: "dataset_setting K U Y V C Q shuffle block shards options w"
    and start: "for_each_batch C shuffle shards options user w = Some (Inr s)"
  shows "leaves_dataset K U Y V (v_fds V w) s"
proof -
  from start have s: "bt_world s = w" "bt_producer s = PRecv" "bt_consumer s = CRecv"
    by (auto simp: for_each_batch_def bind_eq_Some_conv split: if_splits)
  from start_inv(1) [OF set start] s(2) have "stream_intact K U Y V (v_fds V w) block (bt_stream s) (bt_world s)"
    by (simp add: data_inv_def)
  from bs.intact_spent [OF this] s show ?thesis by (simp add: leave_inv_def)
qed

lemma run_leaves:
  assumes "dataset_setting K U Y V C Q shuffle block shards options w"
    and "for_each_batch C shuffle shards options user w = Some (Inr s0)"
    and "batches_run K U C callback s0 k s"
  shows "leaves_dataset K U Y V (v_fds V w) s"
proof -
  have "channel_law C Q" using assms(1) by (simp add: dataset_setting_def)
  from bs.batch_run_leaves [OF assms(3) this start_inv(2) [OF assms(1,2)] start_inv(1) [OF assms(1,2)] start_leaves [OF assms(1,2)]]
  show ?thesis .
qed

text \<open>It starts the threads, or says which option is zero.\<close>

lemma for_each_batch_starts:
  assumes "channel_law C Q" and "prefetch options + 1 \<noteq> 0"
  shows "for_each_batch C shuffle shards options user w \<noteq> None \<and>
    (for_each_batch C shuffle shards options user w = Some (Inl e) \<longleftrightarrow>
      (if batch_bytes options = 0 then e = BatchError BatchBytesZero
       else if prefetch options = 0 then e = BatchError PrefetchZero
       else read_depth options = 0 \<and> e = BatchError ReadDepthZero))"
proof -
  let ?free = "ch_new C (prefetch options + 1)"
  have new: "q_items Q ?free = []" "q_cap Q ?free = unat (prefetch options + 1)" "\<not> q_closed Q ?free"
    using channel_new [OF assms(1)] by blast+
  have "unat (prefetch options + 1) = unat (prefetch options) + 1"
    using assms(2) by (simp add: unatSuc add.commute)
  then have "fill_free C (batch_bytes options) (unat (prefetch options) + 1) ?free \<noteq> None"
    using fill_free_result [OF assms(1) new(3), of "unat (prefetch options) + 1" "batch_bytes options"] new
    by (cases "fill_free C (batch_bytes options) (unat (prefetch options) + 1) ?free") simp_all
  then show ?thesis by (auto simp: for_each_batch_def)
qed

text \<open>Where a run ends whose callback never stops and never throws.\<close>

lemma ended_run:
  assumes "dataset_setting K U Y V C Q shuffle block shards options w"
    and "for_each_batch C shuffle shards options user w = Some (Inr s0)"
    and "batches_run K U C callback s0 k s" and "goes_on callback"
    and "\<And>t. \<not> batches_step K U C callback s t"
  shows "bt_consumer s = CReturned (Inr ()) \<and> bt_error s = None \<and>
      bt_given s = chunks (unat (batch_bytes options)) (dataset_bytes V shuffle shards options) \<and>
      uring_world K U Y V (bt_world s) \<and> v_fds V (bt_world s) = v_fds V w \<or>
    (\<exists>e. bt_error s = Some e \<and>
      source_error (stream_read K (any_ops K U)) (stream_intact K U Y V (v_fds V w) block) e \<and>
      (bt_consumer s = CReturned (Inl e) \<and> uring_world K U Y V (bt_world s) \<and> v_fds V (bt_world s) = v_fds V w \<or>
       bt_consumer s = CLost (Some (Inl e)) \<and> stream_busy (bt_stream s)))"
proof -
  have law: "channel_law C Q" using assms(1) by (simp add: dataset_setting_def)
  note start = start_inv [OF assms(1,2)] and invs = run_inv [OF assms(1-3)]
  have "going s0" using assms(2)
    by (auto simp: for_each_batch_def bind_eq_Some_conv going_def split: if_splits)
  then have going: "going s"
    by (rule bs.batch_run_going [OF assms(3) law start(2,1) assms(4)])
  have ended: "bt_producer s = PDone" "consumer_ended (bt_consumer s)"
    using bs.batch_progress [OF law start(3) invs] assms(5) by blast+
  then obtain r where r: "bt_consumer s = CReturned r \<or> bt_consumer s = CLost (Some r)"
    using going by (cases "bt_consumer s") (auto simp: going_def)
  then have res: "r = result_of (bt_error s)"
    using invs going by (auto simp: error_inv_def going_def)
  show ?thesis
  proof (cases "bt_error s")
    case None
    then have "bt_consumer s = CReturned (Inr ())"
      using r res invs ended going by (auto simp: data_inv_def going_def result_of_def)
    moreover have "bt_given s = chunks (unat (batch_bytes options)) (dataset_bytes V shuffle shards options)"
      using None invs ended going calculation by (auto simp: data_inv_def sent_def close_inv_def going_def)
    moreover have "stream_gone K U Y V (v_fds V w) (bt_world s)"
      using None invs ended going calculation(1) by (auto simp: data_inv_def going_def)
    ultimately show ?thesis using None by (simp add: stream_gone_def)
  next
    case (Some e)
    with r res invs run_leaves [OF assms(1-3)] show ?thesis
      by (auto simp: data_inv_def result_of_def leave_inv_def stream_gone_def)
  qed
qed

section \<open>Schedules are runs\<close>

lemma batch_run_front:
  "batch_step rd destroy C callback s s' \<Longrightarrow> batch_run rd destroy C callback s' k t \<Longrightarrow>
     batch_run rd destroy C callback s (Suc k) t"
  by (rotate_tac, induction rule: batch_run.induct) (auto intro: batch_run.intros)

lemma run_schedule_run: "\<exists>k. batch_run rd destroy C callback s k (run_schedule rd destroy C callback ps s)"
proof (induction ps arbitrary: s)
  case Nil
  then show ?case by (auto intro: batch_run.start)
next
  case (Cons turn ps)
  have step: "\<exists>k. batch_run rd destroy C callback s k (run_schedule rd destroy C callback ps s')"
    if "batch_step rd destroy C callback s s'" for s'
    using Cons.IH [of s'] batch_run_front [OF that] by blast
  show ?case
    using Cons.IH [of s] step
    by (cases turn; cases "producer_step rd C s"; cases "consumer_step destroy C callback s")
      (simp_all add: batch_step_iff)
qed

lemma run_schedule_append:
  "run_schedule rd destroy C callback (ps @ qs) s =
     run_schedule rd destroy C callback qs (run_schedule rd destroy C callback ps s)"
proof (induction ps arbitrary: s)
  case (Cons turn ps)
  then show ?case by (cases turn) simp_all
qed simp

lemma batch_step_schedule:
  "batch_step rd destroy C callback s t \<Longrightarrow> \<exists>turn. run_schedule rd destroy C callback [turn] s = t"
  unfolding batch_step_iff
  by (elim disjE; rule exI [of _ True] exI [of _ False]) (simp_all add: exI)

text \<open>There is always a schedule under which both threads end.\<close>

lemma finishing_schedule:
  assumes "dataset_setting K U Y V C Q shuffle block shards options w"
    and "for_each_batch C shuffle shards options user w = Some (Inr s0)"
  shows "\<exists>ps. let s = run_schedule (stream_read K (any_ops K U)) (stream_destroy K (any_ops K U)) C callback ps s0 in
    bt_producer s = PDone \<and> consumer_ended (bt_consumer s)"
proof -
  let ?run = "run_schedule (stream_read K (any_ops K U)) (stream_destroy K (any_ops K U)) C callback"
  let ?bound = "work_left (stream_rest V) Q (unat (batch_bytes options)) s0"
  have law: "channel_law C Q" using assms(1) by (simp add: dataset_setting_def)
  note start = start_inv [OF assms]
  have "\<exists>ps. bt_producer (?run ps s) = PDone \<and> consumer_ended (bt_consumer (?run ps s))"
    if "batches_run K U C callback s0 k s" for k s
    using that
  proof (induction "?bound - k" arbitrary: k s rule: less_induct)
    case less
    note run = less.prems
    show ?case
    proof (cases "bt_producer s = PDone \<and> consumer_ended (bt_consumer s)")
      case True
      then show ?thesis by (intro exI [of _ "[]"]) simp
    next
      case False
      with bs.batch_progress [OF law start(3) run_inv [OF assms run]] obtain t where
        t: "batches_step K U C callback s t" by blast
      from bs.batch_run_bounded [OF batch_run.step [OF run t] law start(2,1)] have "?bound - Suc k < ?bound - k"
        by linarith
      from less.hyps [OF this batch_run.step [OF run t]] obtain ps where
        ps: "bt_producer (?run ps t) = PDone" "consumer_ended (bt_consumer (?run ps t))" by blast
      obtain turn where "?run [turn] s = t" using batch_step_schedule [OF t] by blast
      then have "?run (turn # ps) s = ?run ps t" using run_schedule_append [where ps = "[turn]" and qs = ps and s = s] by simp
      with ps show ?thesis by metis
    qed
  qed
  from this [OF batch_run.start] show ?thesis unfolding Let_def .
qed

text \<open>What a callback that always goes on has made of its state.\<close>

lemma batch_run_user:
  assumes "\<And>bytes u. callback bytes u = (Some True, f bytes u)"
  shows "batch_run rd destroy C callback s k t \<Longrightarrow> bt_user s = fold f (bt_given s) u \<Longrightarrow> bt_user t = fold f (bt_given t) u"
proof (induction rule: batch_run.induct)
  case (step s k t t')
  from step.hyps(2) step.IH [OF step.prems] show ?case
    by (cases rule: batch_step.cases)
      (auto simp: producer_step_def consumer_step_def assms Let_def
        split: producer.splits consumer.splits channel_result.splits option.splits prod.splits if_splits)
qed

section \<open>A concrete run\<close>

text \<open>Two shards in memory, read in the order of a shuffle that reverses.\<close>

definition demo_files :: "(string \<times> byte list) list" where
  "demo_files = [(''a'', [1, 2, 3, 4]), (''b'', [5, 6, 7, 8, 9])]"

definition demo_set :: shard_set where
  "demo_set = [\<lparr>sh_path = ''a'', sh_offset = 0, sh_length = 4\<rparr>, \<lparr>sh_path = ''b'', sh_offset = 2, sh_length = 3\<rparr>]"

definition demo_options :: batch_options where
  "demo_options = \<lparr>batch_bytes = 5, prefetch = 1, read_depth = 3, segment_bytes = 0, seed = 1\<rparr>"

definition collect :: "byte list \<Rightarrow> byte list list \<Rightarrow> bool option \<times> byte list list" where
  "collect bytes user = (Some True, user @ [bytes])"

definition demo_start where
  "demo_start = (for_each_batch list_channel_ops (\<lambda>_. rev) demo_set demo_options ([] :: byte list list)
     (memfs_world demo_files 2) :: (error + (batch list_channel, memring any_backend stream, byte list list, memfs) batches) option)"

definition demo_end where
  "demo_end callback schedule = (case demo_start of
       Some (Inr s) \<Rightarrow> Some (run_schedule (stream_read memfs_sys (any_ops memfs_sys memring_ops))
         (stream_destroy memfs_sys (any_ops memfs_sys memring_ops)) list_channel_ops callback schedule s)
     | _ \<Rightarrow> None)"

lemma demo_setting:
  "dataset_setting memfs_sys memring_ops memring_view (memfs_view True demo_files) list_channel_ops list_channel_view (\<lambda>_. rev) 512
     demo_set demo_options (memfs_world demo_files 2)"
  by (auto simp: dataset_setting_def list_channel_law memring_law uring_world_def thread_world_def memfs_files_law memfs_full_pread_law
      block_law_def memfs_good_def memfs_world_def options_fit_uring segments_hold_def segment_limit_def demo_options_def demo_set_def demo_files_def)

lemma demo_run:
  assumes "demo_end callback schedule = Some s"
  shows "\<exists>s0 k. demo_start = Some (Inr s0) \<and> batches_run memfs_sys memring_ops list_channel_ops callback s0 k s"
  using assms run_schedule_run
  by (fastforce simp: demo_end_def split: option.splits sum.splits)

definition demo_schedule :: "bool list" where
  "demo_schedule = concat (replicate 12 [True, True, False])"

lemma demo_result:
  "map_option (\<lambda>s. (bt_producer s, bt_consumer s, bt_given s, bt_keep_going s)) (demo_end collect demo_schedule) =
     Some (PDone, CReturned (Inr ()), [[7, 8, 9, 1, 2], [3, 4]], True)"
  by code_simp

section \<open>Properties\<close>

text \<open>
  Property C2 (the batches). Whatever the interleaving, the batches that the callback has been given are the
  first ones of the reference: the bytes of the data set, in stream order, cut into pieces of
  \<open>batch_bytes\<close>. When the function has returned success and the callback did not stop it, they are all
  of them.
\<close>

theorem for_each_batch_gives_chunks:
  assumes "dataset_setting K U Y V C Q shuffle block shards options w"
    and "for_each_batch C shuffle shards options user w = Some (Inr s0)"
    and "batches_run K U C callback s0 k s"
  shows "(\<exists>more. chunks (unat (batch_bytes options)) (dataset_bytes V shuffle shards options) =
       bt_given s @ more) \<and>
     (bt_consumer s = CReturned (Inr ()) \<and> bt_keep_going s \<longrightarrow>
       bt_given s = chunks (unat (batch_bytes options)) (dataset_bytes V shuffle shards options))"
proof -
  note invs = run_inv [OF assms]
  have "bt_given s = chunks (unat (batch_bytes options)) (dataset_bytes V shuffle shards options)"
    if ret: "bt_consumer s = CReturned (Inr ())" "bt_keep_going s"
  proof -
    have "bt_error s = None" using invs ret by (auto simp: error_inv_def result_of_def split: option.splits)
    moreover have "bt_producer s = PDone" "q_items Q (bt_ready s) = []" using invs ret by (auto simp: close_inv_def)
    ultimately show ?thesis using invs ret by (simp add: data_inv_def sent_def)
  qed
  moreover have "\<exists>more. chunks (unat (batch_bytes options)) (dataset_bytes V shuffle shards options) =
      bt_given s @ more"
    using invs unfolding data_inv_def sent_def append_assoc by blast
  ultimately show ?thesis by blast
qed

theorem for_each_batch_gives_chunks_witness:
  "\<exists>s. demo_end collect demo_schedule = Some s \<and> bt_consumer s = CReturned (Inr ()) \<and>
     chunks 5 (dataset_bytes (memfs_view True demo_files) (\<lambda>_. rev) demo_set demo_options) =
       [[7, 8, 9, 1, 2], [3, 4]]"
proof -
  from demo_result obtain s where s: "demo_end collect demo_schedule = Some s"
      "bt_consumer s = CReturned (Inr ())" "bt_given s = [[7, 8, 9, 1, 2], [3, 4]]" "bt_keep_going s" by auto
  from demo_run [OF s(1)] obtain s0 k where
    "demo_start = Some (Inr s0)" "batches_run memfs_sys memring_ops list_channel_ops collect s0 k s" by blast
  from for_each_batch_gives_chunks [OF demo_setting this(1) [unfolded demo_start_def] this(2)] s
  show ?thesis by (simp add: demo_options_def)
qed

text \<open>
  Property C17 (only the last batch is short). Every batch holds between 1 and \<open>batch_bytes\<close> bytes, and
  one that is not full is the last, and ends the data set.
\<close>

theorem only_last_batch_short:
  assumes "dataset_setting K U Y V C Q shuffle block shards options w"
    and "for_each_batch C shuffle shards options user w = Some (Inr s0)"
    and "batches_run K U C callback s0 k s" and "bt_given s = before @ bytes # after"
  shows "0 < length bytes \<and> length bytes \<le> unat (batch_bytes options) \<and>
    (length bytes < unat (batch_bytes options) \<longrightarrow>
       after = [] \<and> concat (bt_given s) = dataset_bytes V shuffle shards options)"
proof -
  let ?n = "unat (batch_bytes options)" and ?bytes = "dataset_bytes V shuffle shards options"
  from run_inv [OF assms(1-3)] obtain more where more: "chunks ?n ?bytes = bt_given s @ more"
    by (auto simp: data_inv_def sent_def)
  then have split: "before @ bytes # (after @ more) = chunks ?n ?bytes" using assms(4) by simp
  have "chunks ?n ?bytes = chunks ?n ?bytes" "0 < ?n" using start_inv(2) [OF assms(1,2)] by simp_all
  then have "0 < length bytes" using chunks_nonempty [of bytes ?n ?bytes] split by (metis in_set_conv_decomp)
  moreover note chunks_append_sizes [OF split]
  moreover have "concat (bt_given s) = ?bytes" if "more = []"
    using concat_chunks [OF \<open>0 < ?n\<close>, of ?bytes] more that by simp
  ultimately show ?thesis by auto
qed

theorem only_last_batch_short_witness:
  "concat [[7, 8, 9, 1, 2], [3, 4]] =
     dataset_bytes (memfs_view True demo_files) (\<lambda>_. rev) demo_set demo_options"
proof -
  from demo_result obtain s where s: "demo_end collect demo_schedule = Some s"
      "bt_given s = [[7, 8, 9, 1, 2]] @ [3, 4] # []" by auto
  from demo_run [OF s(1)] obtain s0 k where
    "demo_start = Some (Inr s0)" "batches_run memfs_sys memring_ops list_channel_ops collect s0 k s" by blast
  from only_last_batch_short [OF demo_setting this(1) [unfolded demo_start_def] this(2) s(2)] s(2)
  show ?thesis by (simp add: demo_options_def)
qed

text \<open>
  Property C16 (memory). At any time at most \<open>prefetch + 1\<close> batches exist, each with a buffer of
  \<open>batch_bytes\<close>; no span is longer than its buffer, and giving a batch back never blocks.
\<close>

theorem batch_memory_bounded:
  assumes "dataset_setting K U Y V C Q shuffle block shards options w"
    and "for_each_batch C shuffle shards options user w = Some (Inr s0)"
    and "batches_run K U C callback s0 k s"
  shows "length (q_items Q (bt_free s) @ q_items Q (bt_ready s) @
        producer_batch (bt_producer s) @ consumer_batch (bt_consumer s)) \<le> unat (prefetch options) + 1 \<and>
     (\<forall>b \<in> set (q_items Q (bt_free s) @ q_items Q (bt_ready s) @
        producer_batch (bt_producer s) @ consumer_batch (bt_consumer s)).
        length (ba_bytes b) = unat (batch_bytes options)) \<and>
     (\<forall>b. bt_consumer s = CCall b \<longrightarrow> batch_span b \<noteq> None) \<and>
     (\<forall>b. bt_consumer s = CRecycle b \<longrightarrow> (\<exists>c. ch_send C b (bt_free s) = Passed c))"
proof (intro conjI)
  have law: "channel_law C Q" using assms(1) by (simp add: dataset_setting_def)
  note invs = run_inv [OF assms]
  then have pool: "pool_inv Q (unat (batch_bytes options)) (unat (prefetch options)) s" and close: "close_inv Q s"
    by simp_all
  show "length (q_items Q (bt_free s) @ q_items Q (bt_ready s) @
        producer_batch (bt_producer s) @ consumer_batch (bt_consumer s)) \<le> unat (prefetch options) + 1"
    "\<forall>b \<in> set (q_items Q (bt_free s) @ q_items Q (bt_ready s) @
        producer_batch (bt_producer s) @ consumer_batch (bt_consumer s)).
        length (ba_bytes b) = unat (batch_bytes options)"
    using pool by (simp_all add: pool_inv_def Let_def)
  show "\<forall>b. bt_consumer s = CCall b \<longrightarrow> batch_span b \<noteq> None"
    using pool by (auto simp: pool_inv_def Let_def batch_span_def)
  show "\<forall>b. bt_consumer s = CRecycle b \<longrightarrow> (\<exists>c. ch_send C b (bt_free s) = Passed c)"
  proof (intro allI impI)
    fix b assume "bt_consumer s = CRecycle b"
    then have "\<not> q_closed Q (bt_free s)" "length (q_items Q (bt_free s)) < q_cap Q (bt_free s)"
      using pool close by (auto simp: pool_inv_def Let_def close_inv_def)
    then show "\<exists>c. ch_send C b (bt_free s) = Passed c"
      using channel_send(2,3) [OF law, of b "bt_free s"] by (cases "ch_send C b (bt_free s)") auto
  qed
qed

theorem batch_memory_bounded_witness:
  "\<exists>s b. demo_end collect [True, True, True, False] = Some s \<and> bt_consumer s = CCall b \<and>
     batch_span b = Some [7, 8, 9, 1, 2] \<and> length (ba_bytes b) = 5"
proof -
  have "map_option (\<lambda>s. bt_consumer s) (demo_end collect [True, True, True, False]) =
      Some (CCall \<lparr>ba_bytes = [7, 8, 9, 1, 2], ba_size = 5\<rparr>)" by code_simp
  then obtain s where s: "demo_end collect [True, True, True, False] = Some s"
      "bt_consumer s = CCall \<lparr>ba_bytes = [7, 8, 9, 1, 2], ba_size = 5\<rparr>" by auto
  from demo_run [OF s(1)] obtain s0 k where
    "demo_start = Some (Inr s0)" "batches_run memfs_sys memring_ops list_channel_ops collect s0 k s" by blast
  from batch_memory_bounded [OF demo_setting this(1) [unfolded demo_start_def] this(2)] s
  have "batch_span \<lparr>ba_bytes = [7, 8, 9, 1, 2], ba_size = 5\<rparr> \<noteq> None" by blast
  with s show ?thesis by (simp add: batch_span_def)
qed

text \<open>
  Property C6 (no deadlock). Every interleaving of the two threads ends: there is a bound on the number of
  steps, and a state in which neither thread can move is one in which the worker has ended and the
  function has been left.
\<close>

theorem for_each_batch_terminates:
  assumes "dataset_setting K U Y V C Q shuffle block shards options w"
    and "for_each_batch C shuffle shards options user w = Some (Inr s0)"
  shows "\<exists>bound. \<forall>k s. batches_run K U C callback s0 k s \<longrightarrow> k \<le> bound \<and>
    ((\<exists>t. batches_step K U C callback s t) \<or>
     bt_producer s = PDone \<and> consumer_ended (bt_consumer s))"
proof (intro exI allI impI conjI)
  fix k s
  assume run: "batches_run K U C callback s0 k s"
  have law: "channel_law C Q" using assms(1) by (simp add: dataset_setting_def)
  note start = start_inv [OF assms]
  from bs.batch_run_bounded [OF run law start(2,1)]
  show "k \<le> work_left (stream_rest V) Q (unat (batch_bytes options)) s0" by simp
  from bs.batch_progress [OF law start(3) run_inv [OF assms run]]
  show "(\<exists>t. batches_step K U C callback s t) \<or> bt_producer s = PDone \<and> consumer_ended (bt_consumer s)"
    by blast
qed

theorem for_each_batch_terminates_witness:
  "\<exists>s0 bound. demo_start = Some (Inr s0) \<and>
     (\<forall>k s. batches_run memfs_sys memring_ops list_channel_ops collect s0 k s \<longrightarrow> k \<le> bound)"
proof -
  from demo_result obtain s where "demo_end collect demo_schedule = Some s" by auto
  from demo_run [OF this] obtain s0 where start: "demo_start = Some (Inr s0)" by blast
  from for_each_batch_terminates [OF demo_setting start [unfolded demo_start_def], of collect] start
  show ?thesis by blast
qed

text \<open>
  Property C5 (the result). A callback that never stops and never throws gets everything; on success every descriptor is as before.
  Otherwise a read of the stream has failed: the function returns its error, the first one, and no descriptor is lost either. The one
  exception is an error while other reads of the backend are in flight (\<open>CLost\<close> with a busy stream): then the destructor of the stream frees their buffers before the backend
  has ended, which is undefined.
\<close>

theorem for_each_batch_completes:
  assumes "dataset_setting K U Y V C Q shuffle block shards options w"
    and "for_each_batch C shuffle shards options user w = Some (Inr s0)"
    and "batches_run K U C callback s0 k s" and "goes_on callback"
    and "\<And>t. \<not> batches_step K U C callback s t"
  shows "bt_consumer s = CReturned (Inr ()) \<and> bt_error s = None \<and>
      bt_given s = chunks (unat (batch_bytes options)) (dataset_bytes V shuffle shards options) \<and>
      uring_world K U Y V (bt_world s) \<and> v_fds V (bt_world s) = v_fds V w \<or>
    (\<exists>e. bt_error s = Some e \<and>
      source_error (stream_read K (any_ops K U)) (stream_intact K U Y V (v_fds V w) block) e \<and>
      (bt_consumer s = CReturned (Inl e) \<and> uring_world K U Y V (bt_world s) \<and> v_fds V (bt_world s) = v_fds V w \<or>
       bt_consumer s = CLost (Some (Inl e)) \<and> stream_busy (bt_stream s)))"
  by (rule ended_run [OF assms])

theorem for_each_batch_completes_witness:
  "\<exists>s. demo_end collect demo_schedule = Some s \<and> bt_error s = None \<and>
     bt_given s = chunks 5 (dataset_bytes (memfs_view True demo_files) (\<lambda>_. rev) demo_set demo_options)"
proof -
  from demo_result obtain s where s: "demo_end collect demo_schedule = Some s"
      "bt_producer s = PDone" "bt_consumer s = CReturned (Inr ())" by auto
  from demo_run [OF s(1)] obtain s0 k where
    run: "demo_start = Some (Inr s0)" "batches_run memfs_sys memring_ops list_channel_ops collect s0 k s" by blast
  have go: "goes_on collect" by (simp add: goes_on_def collect_def)
  have stop: "\<not> batches_step memfs_sys memring_ops list_channel_ops collect s t" for t
    by (simp add: batch_step_iff producer_step_def consumer_step_def s)
  from for_each_batch_completes [OF demo_setting run(1) [unfolded demo_start_def] run(2) go stop] s
  show ?thesis by (auto simp: demo_options_def)
qed

text \<open>
  Property C9 (leaving). Whatever the callback does --- it may go on, stop or throw --- and whether reads have failed or not: when
  \<open>for_each_batch\<close> has been left, by returning or by the exception of the callback, its worker has ended and every descriptor is as it was
  before the call, and of the world the same promises hold. The function is only left in an undefined way when its stream is destroyed with reads in
  flight.
\<close>

theorem for_each_batch_leaves_no_descriptor:
  assumes "dataset_setting K U Y V C Q shuffle block shards options w"
    and "for_each_batch C shuffle shards options user w = Some (Inr s0)"
    and "batches_run K U C callback s0 k s" and "consumer_ended (bt_consumer s)"
  shows "bt_producer s = PDone \<and>
    (case bt_consumer s of
       CLost r \<Rightarrow> \<exists>b. ss_backend (bt_stream s) = Some b \<and> any_in_flight b \<noteq> 0
     | _ \<Rightarrow> uring_world K U Y V (bt_world s) \<and> v_fds V (bt_world s) = v_fds V w)"
  using run_leaves [OF assms(1-3)] assms(4)
  by (cases "bt_consumer s") (auto simp: leave_inv_def stream_gone_def stream_busy_def)

text \<open>The witness: the callback throws at the last batch.\<close>

definition throwing :: "byte list \<Rightarrow> byte list list \<Rightarrow> bool option \<times> byte list list" where
  "throwing bytes user = (if length bytes = 5 then Some True else None, user @ [bytes])"

theorem for_each_batch_leaves_no_descriptor_witness:
  "\<exists>s. demo_end throwing demo_schedule = Some s \<and> bt_consumer s = CThrew \<and> bt_user s = [[7, 8, 9, 1, 2], [3, 4]] \<and>
     memfs_content (bt_world s) = (\<lambda>fd. None)"
proof -
  have "map_option (\<lambda>s. (bt_consumer s, bt_user s)) (demo_end throwing demo_schedule) =
      Some (CThrew, [[7, 8, 9, 1, 2], [3, 4]])" by code_simp
  then obtain s where s: "demo_end throwing demo_schedule = Some s" "bt_consumer s = CThrew"
      "bt_user s = [[7, 8, 9, 1, 2], [3, 4]]" by auto
  from demo_run [OF s(1)] obtain s0 k where
    "demo_start = Some (Inr s0)" "batches_run memfs_sys memring_ops list_channel_ops throwing s0 k s" by blast
  from for_each_batch_leaves_no_descriptor [OF demo_setting this(1) [unfolded demo_start_def] this(2)] s
  have "memfs_content (bt_world s) = memfs_content (memfs_world demo_files 2)" by simp
  also have "\<dots> = (\<lambda>fd. None)" by (simp add: memfs_content_def memfs_world_def fun_eq_iff)
  finally show ?thesis using s by blast
qed

text \<open>
  Property C30 (the options). A zero among the options that must not be zero is an error of its own and starts
  nothing; otherwise the threads start, unless \<open>prefetch + 1\<close> wraps.
\<close>

theorem for_each_batch_checks_options:
  assumes "channel_law C Q" and "prefetch options + 1 \<noteq> 0"
  shows "for_each_batch C shuffle shards options user w \<noteq> None \<and>
    (for_each_batch C shuffle shards options user w = Some (Inl e) \<longleftrightarrow>
      (if batch_bytes options = 0 then e = BatchError BatchBytesZero
       else if prefetch options = 0 then e = BatchError PrefetchZero
       else read_depth options = 0 \<and> e = BatchError ReadDepthZero))"
  by (rule for_each_batch_starts [OF assms])

theorem for_each_batch_checks_options_witness:
  "for_each_batch list_channel_ops (\<lambda>_. rev) demo_set (demo_options\<lparr>read_depth := 0\<rparr>) () () =
     (Some (Inl (BatchError ReadDepthZero)) ::
        (error + (batch list_channel, memring any_backend stream, unit, unit) batches) option)"
proof -
  have "prefetch (demo_options\<lparr>read_depth := 0\<rparr>) + 1 \<noteq> 0" by (simp add: demo_options_def)
  then show ?thesis
    by (rule for_each_batch_checks_options [OF list_channel_law, THEN conjunct2, THEN iffD2])
      (simp add: demo_options_def)
qed

section \<open>An early stop\<close>

text \<open>
  When the callback stops the stream, the worker may meanwhile have failed: whether the function
  then returns success or the error depends on who is faster. Here the second shard does not exist
  and the callback stops at the first batch.
\<close>

definition stop_start where
  "stop_start = (for_each_batch list_channel_ops (\<lambda>_. rev)
     [\<lparr>sh_path = ''a'', sh_offset = 0, sh_length = 4\<rparr>, \<lparr>sh_path = ''x'', sh_offset = 0, sh_length = 4\<rparr>]
     \<lparr>batch_bytes = 4, prefetch = 1, read_depth = 3, segment_bytes = 0, seed = 0\<rparr> ()
     (memfs_world demo_files 2) :: (error + (batch list_channel, memring any_backend stream, unit, memfs) batches) option)"

definition stop_run where
  "stop_run schedule = (case stop_start of
       Some (Inr s) \<Rightarrow> Some (bt_consumer (run_schedule (stream_read memfs_sys (any_ops memfs_sys memring_ops))
         (stream_destroy memfs_sys (any_ops memfs_sys memring_ops)) list_channel_ops (\<lambda>bytes user. (Some False, user)) schedule s))
     | _ \<Rightarrow> None)"

lemma early_stop_race:
  "stop_run (replicate 3 True @ replicate 6 False @ replicate 6 True @ [False]) = Some (CReturned (Inr ()))"
  "stop_run (replicate 9 True @ replicate 8 False) =
     Some (CReturned (Inl (FileError (FileCannotOpen ''x'' 2))))"
  by code_simp+

end
