(* ===== verification/Reader.thy ===== *)
theory Reader
  imports File
begin

text \<open>
  \<open>include/dsio/reader.hpp\<close> and \<open>src/reader.cpp\<close>: a window of a file read front to back, one aligned block
  at a time, through a buffer that the reader owns.
\<close>

section \<open>Definitions\<close>

text \<open>\<open>ck_bytes\<close> are the bytes that the chunk's span views.\<close>

record chunk =
  ck_bytes :: "byte list"
  ck_offset :: u64

definition chunk_empty :: "chunk \<Rightarrow> bool" where
  "chunk_empty c \<longleftrightarrow> ck_bytes c = []"

record reader =
  rd_file :: file_t
  rd_buffer :: span
  rd_start :: u64
  rd_end :: u64
  rd_position :: u64

definition reader_block_size :: "reader \<Rightarrow> nat" where
  "reader_block_size r = span_size (rd_buffer r)"

definition reader_size :: "reader \<Rightarrow> u64" where
  "reader_size r = rd_end r - rd_start r"

text \<open>
  A \<open>File\<close> that a failing function owns is closed by its destructor. The members of a new
  \<open>DirectReader\<close> are empty, so moving into them closes nothing.
\<close>

definition reader_open_window ::
  "'w sys \<Rightarrow> file_t \<Rightarrow> u64 \<Rightarrow> u64 \<Rightarrow> 'w \<Rightarrow> reader outcome \<times> 'w" where
  "reader_open_window K f offset len w =
     (let block = file_alignment f in
      case fp_alloc K block block w of
        (Inl what, w1) \<Rightarrow> (Inl (ReaderError (ReaderAlloc what)), snd (file_close K f w1))
      | (Inr buffer, w1) \<Rightarrow>
          (Inr \<lparr>rd_file = f, rd_buffer = buffer, rd_start = offset, rd_end = offset + len,
             rd_position = offset\<rparr>, w1))"

definition reader_open :: "'w sys \<Rightarrow> string \<Rightarrow> 'w \<Rightarrow> reader outcome \<times> 'w" where
  "reader_open K path w =
     (case file_open K path DirectRead w of
        (Inl e, w1) \<Rightarrow> (Inl e, w1)
      | (Inr f, w1) \<Rightarrow>
          (case file_size K f w1 of
             (Inl e, w2) \<Rightarrow> (Inl e, snd (file_close K f w2))
           | (Inr n, w2) \<Rightarrow> reader_open_window K f 0 n w2))"

text \<open>The overload with a window; \<open>None\<close> is the division by an alignment of zero.\<close>

definition reader_open_at ::
  "'w sys \<Rightarrow> string \<Rightarrow> u64 \<Rightarrow> u64 \<Rightarrow> 'w \<Rightarrow> (reader outcome \<times> 'w) option" where
  "reader_open_at K path offset len w =
     (case file_open K path DirectRead w of
        (Inl e, w1) \<Rightarrow> Some (Inl e, w1)
      | (Inr f, w1) \<Rightarrow>
          let alignment = file_alignment f in
          if alignment = 0 then None
          else if offset mod alignment \<noteq> 0
          then Some (Inl (ReaderError (ReaderMisaligned offset alignment)), snd (file_close K f w1))
          else (case file_size K f w1 of
              (Inl e, w2) \<Rightarrow> Some (Inl e, snd (file_close K f w2))
            | (Inr n, w2) \<Rightarrow>
                if offset > n
                then Some (Inl (ReaderError (ReaderPastEnd offset n)), snd (file_close K f w2))
                else Some (reader_open_window K f offset (if len > n - offset then n - offset else len) w2)))"

definition reader_next_chunk :: "'w sys \<Rightarrow> reader \<Rightarrow> 'w \<Rightarrow> (chunk outcome \<times> reader \<times> 'w) option" where
  "reader_next_chunk K r w =
     (if rd_position r \<ge> rd_end r then Some (Inr \<lparr>ck_bytes = [], ck_offset = rd_position r\<rparr>, r, w)
      else do {
        ((got, buffer), w') \<leftarrow> file_pread_exact K (rd_file r) (rd_position r) (rd_buffer r) w;
        let r' = r\<lparr>rd_buffer := buffer\<rparr>;
        (case got of
           Inl e \<Rightarrow> Some (Inl e, r', w')
         | Inr n \<Rightarrow>
             if n = 0 then Some (Inr \<lparr>ck_bytes = [], ck_offset = rd_position r\<rparr>, r', w')
             else
               let remaining = rd_end r - rd_position r;
                   bytes = (if n > unat remaining then unat remaining else n) in
               Some (Inr \<lparr>ck_bytes = take bytes (sp_bytes buffer), ck_offset = rd_position r\<rparr>,
                 r'\<lparr>rd_position := rd_position r + of_nat bytes\<rparr>, w'))
      })"

definition reader_reset :: "reader \<Rightarrow> reader" where
  "reader_reset r = r\<lparr>rd_position := rd_start r\<rparr>"

text \<open>\<open>~DirectReader\<close>: the file is closed.\<close>

definition reader_destroy :: "'w sys \<Rightarrow> reader \<Rightarrow> 'w \<Rightarrow> 'w" where
  "reader_destroy K r w = snd (file_close K (rd_file r) w)"

text \<open>
  The loop in which every client uses a reader: until the first error or empty chunk. It collects
  what it is given.
\<close>

partial_function (option) drain_reader ::
  "'w sys \<Rightarrow> chunk list \<Rightarrow> reader \<Rightarrow> 'w \<Rightarrow> (error option \<times> chunk list \<times> reader \<times> 'w) option" where
  "drain_reader K seen r w = do {
     (got, r', w') \<leftarrow> reader_next_chunk K r w;
     (case got of
        Inl e \<Rightarrow> Some (Some e, seen, r', w')
      | Inr c \<Rightarrow> if chunk_empty c then Some (None, seen, r', w') else drain_reader K (seen @ [c]) r' w')
   }"

declare drain_reader.simps [code]

section \<open>The invariant\<close>

text \<open>
  A reader over a file with content \<open>c\<close>: its window lies in the file, its position in the window,
  and its buffer holds a block.
\<close>

definition reader_inv :: "'w view \<Rightarrow> byte list \<Rightarrow> reader \<Rightarrow> 'w \<Rightarrow> bool" where
  "reader_inv V c r w \<longleftrightarrow> reads_from V (rd_file r) c w \<and> rd_start r \<le> rd_position r \<and>
     rd_position r \<le> rd_end r \<and> unat (rd_end r) \<le> length c \<and> 0 < reader_block_size r"

text \<open>What the reader has still to deliver.\<close>

definition reader_rest :: "byte list \<Rightarrow> reader \<Rightarrow> byte list" where
  "reader_rest c r = window (unat (rd_position r)) (unat (rd_end r) - unat (rd_position r)) c"

definition reader_window :: "byte list \<Rightarrow> reader \<Rightarrow> byte list" where
  "reader_window c r = window (unat (rd_start r)) (unat (reader_size r)) c"

lemma reader_invD:
  assumes "reader_inv V c r w"
  shows "reads_from V (rd_file r) c w" "unat (rd_start r) \<le> unat (rd_position r)"
    "unat (rd_position r) \<le> unat (rd_end r)" "unat (rd_end r) \<le> length c" "0 < reader_block_size r"
    "length (reader_rest c r) = unat (rd_end r) - unat (rd_position r)"
  using assms by (auto simp: reader_inv_def reader_rest_def u64_le_nat bytes_simps)

text \<open>The same window of the same file through the same descriptor.\<close>

definition same_window :: "reader \<Rightarrow> reader \<Rightarrow> bool" where
  "same_window r r' \<longleftrightarrow> rd_file r' = rd_file r \<and> rd_start r' = rd_start r \<and> rd_end r' = rd_end r \<and>
     reader_block_size r' = reader_block_size r"

lemma same_window_trans: "same_window r s \<Longrightarrow> same_window s t \<Longrightarrow> same_window r t"
  by (simp add: same_window_def)

lemma reader_next_chunk_correct:
  assumes law: "read_law K V" and inv: "reader_inv V c r w"
  shows "\<exists>got r' w'. reader_next_chunk K r w = Some (got, r', w') \<and> quiet V w w' \<and> same_window r r' \<and>
    reader_inv V c r' w' \<and>
    (case got of
       Inl e \<Rightarrow> rd_position r' = rd_position r
     | Inr ch \<Rightarrow> ck_bytes ch = take (reader_block_size r) (reader_rest c r) \<and>
         ck_offset ch = rd_position r \<and> reader_rest c r' = drop (reader_block_size r) (reader_rest c r) \<and>
         unat (rd_position r') = unat (rd_position r) + length (ck_bytes ch))"
proof -
  note i = reader_invD [OF inv]
  show ?thesis
  proof (cases "rd_position r \<ge> rd_end r")
    case True
    then have "reader_rest c r = []" using i(6) by (simp add: u64_le_nat)
    with True inv i(1) show ?thesis
      by (auto simp: reader_next_chunk_def same_window_def reads_from_good)
  next
    case False
    let ?pos = "rd_position r" and ?buf = "rd_buffer r"
    have more: "unat ?pos < unat (rd_end r)" using False i(3) by (simp add: u64_le_nat)
    from file_pread_exact_correct [OF law i(1), of ?pos ?buf] obtain got buf' w' where
      rd: "file_pread_exact K (rd_file r) ?pos ?buf w = Some ((got, buf'), w')" "quiet V w w'"
        "span_size buf' = span_size ?buf"
      and ok: "\<forall>n. got = Inr n \<longrightarrow> n = min (span_size ?buf) (length c - unat ?pos) \<and>
        take n (sp_bytes buf') = window (unat ?pos) n c" by blast
    have inv': "reader_inv V c (r\<lparr>rd_buffer := buf'\<rparr>) w'"
      using inv rd(2,3) by (auto simp: reader_inv_def reader_block_size_def intro: reads_from_quiet)
    show ?thesis
    proof (cases got)
      case (Inl e)
      with False rd inv' show ?thesis
        by (simp add: reader_next_chunk_def same_window_def reader_block_size_def)
    next
      case (Inr n)
      let ?left = "unat (rd_end r) - unat ?pos"
      have left: "unat (rd_end r - ?pos) = ?left" using more by (simp add: unat_minus_u64 u64_le_nat)
      have n: "n = min (reader_block_size r) (length c - unat ?pos)" "take n (sp_bytes buf') = window (unat ?pos) n c"
        using ok Inr unfolding reader_block_size_def by blast+
      have n0: "n \<noteq> 0" using n(1) i(4,5) more by simp
      define k where "k = min (reader_block_size r) ?left"
      have k: "(if n > ?left then ?left else n) = k" "k \<le> n" "unat ?pos + k \<le> unat (rd_end r)"
        using n(1) i(4) more by (auto simp: k_def)
      have bound: "unat ?pos + k < 18446744073709551616"
        by (rule le_less_trans [OF k(3) unat_u64_less])
      have pos: "unat (?pos + of_nat k) = unat ?pos + k"
      proof -
        have "unat (of_nat k :: u64) = k" using bound by (simp add: unat_of_nat_u64)
        then show ?thesis using bound by (simp add: unat_plus_u64)
      qed
      have bytes: "take k (sp_bytes buf') = window (unat ?pos) k c"
      proof -
        have "take k (sp_bytes buf') = take k (take n (sp_bytes buf'))" using k(2) by simp
        also have "\<dots> = window (unat ?pos) k c" unfolding n(2) using k(2) by (simp add: take_window)
        finally show ?thesis .
      qed
      have tk: "window (unat ?pos) k c = take (reader_block_size r) (reader_rest c r)"
        by (simp add: k_def reader_rest_def take_window min.commute)
      have dr: "window (unat ?pos + k) (unat (rd_end r) - (unat ?pos + k)) c = drop (reader_block_size r) (reader_rest c r)"
        by (cases "reader_block_size r \<le> ?left")
          (simp_all add: k_def reader_rest_def window_def drop_take add.commute)
      let ?r = "r\<lparr>rd_buffer := buf', rd_position := ?pos + of_nat k\<rparr>"
      have go: "reader_next_chunk K r w =
          Some (Inr \<lparr>ck_bytes = take k (sp_bytes buf'), ck_offset = ?pos\<rparr>, ?r, w')"
        using False rd(1) Inr n0 by (simp add: reader_next_chunk_def Let_def left k(1) cong: if_cong split del: if_split)
      have "reader_inv V c ?r w'"
        using inv' pos k(3) i(2) by (simp add: reader_inv_def u64_le_nat reader_block_size_def)
      moreover have "length (take k (sp_bytes buf')) = k"
        unfolding bytes using k(3) i(4) by (simp add: length_window)
      moreover have "reader_rest c ?r = drop (reader_block_size r) (reader_rest c r)"
        unfolding dr [symmetric] by (simp add: reader_rest_def pos)
      ultimately show ?thesis using go rd(2,3) bytes tk pos
        by (simp add: same_window_def reader_block_size_def)
    qed
  qed
qed

section \<open>Draining a reader\<close>

text \<open>The chunks that belong to the pieces of a window that starts at \<open>pos\<close>.\<close>

fun chunks_at :: "u64 \<Rightarrow> byte list list \<Rightarrow> chunk list" where
  "chunks_at pos [] = []"
| "chunks_at pos (bs # bss) = \<lparr>ck_bytes = bs, ck_offset = pos\<rparr> # chunks_at (pos + of_nat (length bs)) bss"

lemma drain_reader_correct:
  assumes law: "read_law K V"
  shows "reader_inv V c r w \<Longrightarrow>
    \<exists>e seen' r' w'. drain_reader K seen r w = Some (e, seen', r', w') \<and> quiet V w w' \<and> same_window r r' \<and>
      reader_inv V c r' w' \<and>
      (e = None \<longrightarrow> rd_position r' = rd_end r \<and>
         seen' = seen @ chunks_at (rd_position r) (chunks (reader_block_size r) (reader_rest c r)))"
proof (induction "unat (rd_end r) - unat (rd_position r)" arbitrary: r w seen rule: less_induct)
  case less
  note i = reader_invD [OF less.prems]
  from reader_next_chunk_correct [OF law less.prems] obtain got r1 w1 where
    n: "reader_next_chunk K r w = Some (got, r1, w1)" "quiet V w w1" "same_window r r1" "reader_inv V c r1 w1"
    and post: "case got of Inl e \<Rightarrow> rd_position r1 = rd_position r
      | Inr ch \<Rightarrow> ck_bytes ch = take (reader_block_size r) (reader_rest c r) \<and>
         ck_offset ch = rd_position r \<and> reader_rest c r1 = drop (reader_block_size r) (reader_rest c r) \<and>
         unat (rd_position r1) = unat (rd_position r) + length (ck_bytes ch)" by blast
  show ?case
  proof (cases got)
    case (Inl e)
    with n show ?thesis by (subst drain_reader.simps) simp
  next
    case (Inr ch)
    with post have ch: "ck_bytes ch = take (reader_block_size r) (reader_rest c r)" "ck_offset ch = rd_position r"
      "reader_rest c r1 = drop (reader_block_size r) (reader_rest c r)"
      "unat (rd_position r1) = unat (rd_position r) + length (ck_bytes ch)" by simp_all
    show ?thesis
    proof (cases "reader_rest c r = []")
      case True
      then have "rd_position r1 = rd_end r" using ch(1,4) i(3,6) by (simp add: u64_eq_nat)
      moreover have "drain_reader K seen r w = Some (None, seen, r1, w1)"
        using n(1) Inr ch(1) True by (subst drain_reader.simps) (simp add: chunk_empty_def)
      ultimately show ?thesis using n True by simp
    next
      case False
      then have some: "ck_bytes ch \<noteq> []" using ch(1) i(5) by simp
      have same: "rd_end r1 = rd_end r" "reader_block_size r1 = reader_block_size r"
        using n(3) by (simp_all add: same_window_def)
      have "unat (rd_end r1) - unat (rd_position r1) < unat (rd_end r) - unat (rd_position r)"
      proof -
        have "0 < length (reader_rest c r)" using False by simp
        then have "unat (rd_position r) < unat (rd_end r)" unfolding i(6) by simp
        moreover have "0 < length (ck_bytes ch)" using some by simp
        ultimately show ?thesis unfolding same ch(4) by linarith
      qed
      from less.hyps [OF this n(4), of "seen @ [ch]"] obtain e seen' r' w' where
        d: "drain_reader K (seen @ [ch]) r1 w1 = Some (e, seen', r', w')" "quiet V w1 w'" "same_window r1 r'"
          "reader_inv V c r' w'"
        and fin: "e = None \<longrightarrow> rd_position r' = rd_end r1 \<and>
          seen' = (seen @ [ch]) @ chunks_at (rd_position r1) (chunks (reader_block_size r1) (reader_rest c r1))"
        by blast
      have go: "drain_reader K seen r w = Some (e, seen', r', w')"
        using n(1) Inr some d(1) by (subst drain_reader.simps) (simp add: chunk_empty_def)
      have pos: "rd_position r1 = rd_position r + of_nat (length (ck_bytes ch))"
        using arg_cong [OF ch(4), of "of_nat :: nat \<Rightarrow> u64"] by simp
      have "chunks (reader_block_size r) (reader_rest c r) =
          ck_bytes ch # chunks (reader_block_size r1) (reader_rest c r1)"
        unfolding same ch(1,3) by (rule chunks_next [OF i(5) False])
      moreover have "ch = \<lparr>ck_bytes = ck_bytes ch, ck_offset = rd_position r\<rparr>" using ch(2) by (cases ch) simp
      ultimately have "[ch] @ chunks_at (rd_position r1) (chunks (reader_block_size r1) (reader_rest c r1)) =
          chunks_at (rd_position r) (chunks (reader_block_size r) (reader_rest c r))"
        unfolding pos by simp
      with fin same have "e = None \<longrightarrow> rd_position r' = rd_end r \<and>
         seen' = seen @ chunks_at (rd_position r) (chunks (reader_block_size r) (reader_rest c r))" by simp
      with go d(4) quiet_trans [OF n(2) d(2)] same_window_trans [OF n(3) d(3)] show ?thesis by blast
    qed
  qed
qed

section \<open>Opening\<close>

lemma reader_open_window_correct:
  assumes law: "files_law K V" and rd: "reads_from V f c w" and fits: "unat offset + unat len \<le> length c"
    and block: "file_alignment f \<noteq> 0" and call: "reader_open_window K f offset len w = (r, w')"
  shows "v_good V w' \<and> (case r of
      Inl e \<Rightarrow> v_fds V w' = (v_fds V w)(file_fd f := None)
    | Inr rd \<Rightarrow> reader_inv V c rd w' \<and> v_fds V w' = v_fds V w \<and> rd_file rd = f \<and> rd_start rd = offset \<and>
        rd_position rd = offset \<and> unat (reader_size rd) = unat len)"
proof -
  obtain a w1 where alloc: "fp_alloc K (file_alignment f) (file_alignment f) w = (a, w1)" by (metis prod.exhaust)
  from alloc_lawD [OF files_lawD(6) [OF law] reads_from_good [OF rd] alloc]
  have al: "quiet V w w1" "\<forall>s. a = Inr s \<longrightarrow> unat (file_alignment f) \<le> span_size s" by simp_all
  have rd1: "reads_from V f c w1" by (rule reads_from_quiet [OF rd al(1)])
  show ?thesis
  proof (cases a)
    case (Inl what)
    obtain f' w2 where cl: "file_close K f w1 = (f', w2)" by (metis prod.exhaust)
    from Inl call alloc cl have "r = Inl (ReaderError (ReaderAlloc what))" "w' = w2"
      by (simp_all add: reader_open_window_def)
    with file_close_correct [OF law rd1 cl] al(1) show ?thesis by (simp add: quiet_fds)
  next
    case (Inr buffer)
    have "length c < 2 ^ 63" by (rule reads_from_size [OF read_law_files [OF law] rd])
    then have sum: "unat (offset + len) = unat offset + unat len" using fits by (simp add: unat_plus_u64)
    have "0 < unat (file_alignment f)" using block by (simp add: unat_gt_0)
    moreover have "unat (file_alignment f) \<le> span_size buffer" using al(2) Inr by simp
    ultimately have "0 < span_size buffer" by (rule less_le_trans)
    then show ?thesis using call alloc Inr rd1 al(1) fits sum
      by (auto simp: reader_open_window_def Let_def reader_inv_def u64_le_nat reader_block_size_def reader_size_def
          quiet_def)
  qed
qed

text \<open>What \<open>open\<close> gives: a reader at the start of its window that owns the one new descriptor.\<close>

definition opened_reader ::
  "'w view \<Rightarrow> 'w \<Rightarrow> byte list \<Rightarrow> u64 \<Rightarrow> nat \<Rightarrow> reader \<Rightarrow> 'w \<Rightarrow> bool" where
  "opened_reader V w c offset len r w' \<longleftrightarrow> reader_inv V c r w' \<and> rd_start r = offset \<and> rd_position r = offset \<and>
     unat (reader_size r) = len \<and> unat offset + len \<le> length c \<and> v_fds V w (file_fd (rd_file r)) = None \<and>
     v_fds V w' = (v_fds V w)(file_fd (rd_file r) \<mapsto> c)"

lemma file_close_opened:
  assumes law: "files_law K V" and rd: "reads_from V f c v"
    and fds: "v_fds V w (file_fd f) = None" "v_fds V v = (v_fds V w)(file_fd f \<mapsto> c)"
  shows "v_good V (snd (file_close K f v)) \<and> v_fds V (snd (file_close K f v)) = v_fds V w"
  using file_close_correct [OF law rd, of "fst (file_close K f v)" "snd (file_close K f v)"] fds
  by (simp add: fun_upd_idem)

lemma reader_open_at_correct:
  assumes law: "files_law K V" and good: "v_good V w"
    and call: "reader_open_at K path offset len w = Some (r, w')"
  shows "v_good V w' \<and> (case r of
      Inl e \<Rightarrow> v_fds V w' = v_fds V w
    | Inr rd \<Rightarrow> \<exists>c. v_files V path = Some c \<and> file_alignment (rd_file rd) \<noteq> 0 \<and>
        offset mod file_alignment (rd_file rd) = 0 \<and>
        opened_reader V w c offset (min (unat len) (length c - unat offset)) rd w')"
proof -
  obtain fr w1 where o: "file_open K path DirectRead w = (fr, w1)" by (metis prod.exhaust)
  have mode: "DirectRead = ReadOnly \<or> DirectRead = DirectRead" by simp
  consider e where "fr = Inl e" "quiet V w w1"
    | f c where "fr = Inr f" "v_files V path = Some c" "reads_from V f c w1" "v_fds V w (file_fd f) = None"
        "v_fds V w1 = (v_fds V w)(file_fd f \<mapsto> c)"
    using file_open_correct [OF law good mode o] by blast
  then show ?thesis
  proof cases
    case 1
    then show ?thesis using call o by (auto simp: reader_open_at_def quiet_def)
  next
    case (2 f c)
    have closed: "v_good V (snd (file_close K f v)) \<and> v_fds V (snd (file_close K f v)) = v_fds V w" if "quiet V w1 v" for v
      by (rule file_close_opened [OF law reads_from_quiet [OF 2(3) that] 2(4)]) (use 2(5) that in \<open>simp add: quiet_fds\<close>)
    obtain sz w2 where s: "file_size K f w1 = (sz, w2)" by (metis prod.exhaust)
    note size = file_size_correct [OF law 2(3) s]
    have al: "file_alignment f \<noteq> 0" using call o 2(1) by (auto simp: reader_open_at_def Let_def)
    show ?thesis
    proof (cases "offset mod file_alignment f \<noteq> 0")
      case True
      then show ?thesis using call o 2(1) al closed [of w1] 2(3)
        by (auto simp: reader_open_at_def Let_def reads_from_def)
    next
      case aligned: False
      show ?thesis
      proof (cases sz)
        case (Inl e)
        then show ?thesis using call o 2(1) al aligned s closed [OF size(1)]
          by (auto simp: reader_open_at_def Let_def)
      next
        case (Inr n)
        have n: "unat n = length c" using size(2) Inr by simp
        show ?thesis
        proof (cases "offset > n")
          case True
          then show ?thesis using call o 2(1) al aligned s Inr closed [OF size(1)]
            by (auto simp: reader_open_at_def Let_def)
        next
          case False
          let ?len = "if len > n - offset then n - offset else len"
          from False have le: "unat offset \<le> length c" by (simp add: not_less u64_le_nat n)
          have "unat (n - offset) = length c - unat offset"
            using unat_minus_u64 [of offset n] False n by (simp add: not_less)
          then have len: "unat ?len = min (unat len) (length c - unat offset)"
            by (simp add: u64_less_nat min_def)
          have w: "reader_open_window K f offset ?len w2 = (r, w')"
            using call o 2(1) al aligned s Inr False by (simp add: reader_open_at_def Let_def)
          have rd2: "reads_from V f c w2" by (rule reads_from_quiet [OF 2(3) size(1)])
          have "unat offset + unat ?len \<le> length c" unfolding len using le by simp
          from reader_open_window_correct [OF law rd2 this al w] al aligned 2(2,4,5) size(1) len le
          show ?thesis by (cases r) (auto simp: opened_reader_def quiet_fds fun_upd_idem)
        qed
      qed
    qed
  qed
qed

text \<open>The whole-file overload is the window from zero.\<close>

lemma reader_open_correct:
  assumes law: "files_law K V" and good: "v_good V w" and call: "reader_open K path w = (r, w')"
  shows "v_good V w' \<and> (case r of
      Inl e \<Rightarrow> v_fds V w' = v_fds V w
    | Inr rd \<Rightarrow> file_alignment (rd_file rd) \<noteq> 0 \<longrightarrow>
        (\<exists>c. v_files V path = Some c \<and> opened_reader V w c 0 (length c) rd w'))"
proof -
  obtain fr w1 where o: "file_open K path DirectRead w = (fr, w1)" by (metis prod.exhaust)
  have mode: "DirectRead = ReadOnly \<or> DirectRead = DirectRead" by simp
  consider e where "fr = Inl e" "quiet V w w1"
    | f c where "fr = Inr f" "v_files V path = Some c" "reads_from V f c w1" "v_fds V w (file_fd f) = None"
        "v_fds V w1 = (v_fds V w)(file_fd f \<mapsto> c)"
    using file_open_correct [OF law good mode o] by blast
  then show ?thesis
  proof cases
    case 1
    then show ?thesis using call o by (auto simp: reader_open_def quiet_def)
  next
    case (2 f c)
    obtain sz w2 where s: "file_size K f w1 = (sz, w2)" by (metis prod.exhaust)
    note size = file_size_correct [OF law 2(3) s]
    have rd2: "reads_from V f c w2" by (rule reads_from_quiet [OF 2(3) size(1)])
    show ?thesis
    proof (cases sz)
      case (Inl e)
      have "v_fds V w2 = (v_fds V w)(file_fd f \<mapsto> c)" using 2(5) size(1) by (simp add: quiet_fds)
      from file_close_opened [OF law rd2 2(4) this] show ?thesis
        using call o 2(1) s Inl by (auto simp: reader_open_def)
    next
      case (Inr n)
      have n: "unat n = length c" using size(2) Inr by simp
      have w: "reader_open_window K f 0 n w2 = (r, w')" using call o 2(1) s Inr by (simp add: reader_open_def)
      show ?thesis
      proof (cases "file_alignment f = 0")
        case False
        have "unat (0 :: u64) + unat n \<le> length c" using n by simp
        from reader_open_window_correct [OF law rd2 this False w] n 2(2,4,5) size(1)
        show ?thesis by (cases r) (auto simp: opened_reader_def quiet_fds fun_upd_idem)
      next
        case True
        obtain a w3 where alloc: "fp_alloc K (file_alignment f) (file_alignment f) w2 = (a, w3)" by (metis prod.exhaust)
        from alloc_lawD [OF files_lawD(6) [OF law] reads_from_good [OF rd2] alloc] have al: "quiet V w2 w3" by simp
        have rd3: "reads_from V f c w3" by (rule reads_from_quiet [OF rd2 al])
        have "v_fds V w3 = (v_fds V w)(file_fd f \<mapsto> c)" using 2(5) size(1) al by (simp add: quiet_fds)
        from file_close_opened [OF law rd3 2(4) this] show ?thesis
          using w alloc True al by (cases a) (auto simp: reader_open_window_def quiet_def)
      qed
    qed
  qed
qed

text \<open>Such a reader delivers its window, as often as it is reset, and gives its descriptor back.\<close>

lemma opened_reader_drains:
  assumes law: "files_law K V" and opened: "opened_reader V w c offset len r w1"
  shows "\<exists>e seen r' w2. drain_reader K [] r w1 = Some (e, seen, r', w2) \<and>
    v_fds V (reader_destroy K r' w2) = v_fds V w \<and>
    (e = None \<longrightarrow> seen = chunks_at offset (chunks (reader_block_size r) (window (unat offset) len c))) \<and>
    (\<exists>e2 seen2 r2 w3. drain_reader K [] (reader_reset r') w2 = Some (e2, seen2, r2, w3) \<and>
       (e2 = None \<longrightarrow> seen2 = chunks_at offset (chunks (reader_block_size r) (window (unat offset) len c))))"
proof -
  have rl: "read_law K V" by (rule read_law_files [OF law])
  from opened have inv: "reader_inv V c r w1" and start: "rd_start r = offset" "rd_position r = offset"
    and size: "unat (reader_size r) = len" and fds: "v_fds V w (file_fd (rd_file r)) = None"
      "v_fds V w1 = (v_fds V w)(file_fd (rd_file r) \<mapsto> c)"
    by (simp_all add: opened_reader_def)
  have rest: "reader_rest c s = window (unat offset) len c"
    if "same_window r s" "rd_position s = offset" for s
  proof -
    have "unat (rd_end r) - unat offset = len"
      using size reader_invD(3) [OF inv] start by (simp add: reader_size_def unat_minus_u64 u64_le_nat)
    then show ?thesis using that by (simp add: reader_rest_def same_window_def)
  qed
  have refl: "same_window r r" by (simp add: same_window_def)
  from drain_reader_correct [OF rl inv, of "[]"] obtain e seen r' w2 where
    d: "drain_reader K [] r w1 = Some (e, seen, r', w2)" "quiet V w1 w2" "same_window r r'" "reader_inv V c r' w2"
      "e = None \<longrightarrow> seen = chunks_at (rd_position r) (chunks (reader_block_size r) (reader_rest c r))" by auto
  let ?r = "reader_reset r'"
  have inv': "reader_inv V c ?r w2" and same': "same_window r ?r"
    using d(3,4) order_trans [of "rd_start r'" "rd_position r'" "rd_end r'"]
    by (auto simp: reader_inv_def reader_reset_def same_window_def reader_block_size_def)
  have pos': "rd_position ?r = offset" using d(3) start by (simp add: reader_reset_def same_window_def)
  from drain_reader_correct [OF rl inv', of "[]"] obtain e2 seen2 r2 w3 where
    d2: "drain_reader K [] ?r w2 = Some (e2, seen2, r2, w3)"
      "e2 = None \<longrightarrow> seen2 = chunks_at (rd_position ?r) (chunks (reader_block_size ?r) (reader_rest c ?r))" by auto
  have "v_fds V w2 = (v_fds V w)(file_fd (rd_file r') \<mapsto> c)" "v_fds V w (file_fd (rd_file r')) = None"
    using fds d(2,3) by (simp_all add: quiet_fds same_window_def)
  then have "v_fds V (reader_destroy K r' w2) = v_fds V w"
    using file_close_opened [OF law reader_invD(1) [OF d(4)]] by (simp add: reader_destroy_def)
  moreover have "reader_block_size ?r = reader_block_size r" using same' by (simp add: same_window_def)
  ultimately show ?thesis
    using d(1,5) d2 rest [OF refl start(2)] rest [OF same' pos'] start(2) pos' by auto
qed

section \<open>Properties\<close>

text \<open>
  Property C8 (the reader). A reader on a window of a file delivers the window cut into blocks, each with
  its offset in the file, and then an empty chunk; the loop over it always ends. After \<open>reset\<close> it
  delivers the same again, and destroying it closes exactly the descriptor that \<open>open\<close> opened.
\<close>

theorem reader_delivers_window:
  assumes "files_law K V" and "v_good V w" and "reader_open_at K path offset len w = Some (Inr r, w1)"
  shows "\<exists>c e seen r' w2. v_files V path = Some c \<and> drain_reader K [] r w1 = Some (e, seen, r', w2) \<and>
    v_fds V (reader_destroy K r' w2) = v_fds V w \<and>
    (e = None \<longrightarrow> seen = chunks_at offset (chunks (reader_block_size r) (window (unat offset) (unat len) c))) \<and>
    (\<exists>e2 seen2 r2 w3. drain_reader K [] (reader_reset r') w2 = Some (e2, seen2, r2, w3) \<and>
       (e = None \<and> e2 = None \<longrightarrow> seen2 = seen))"
proof -
  from reader_open_at_correct [OF assms] obtain c where c: "v_files V path = Some c"
    "opened_reader V w c offset (min (unat len) (length c - unat offset)) r w1" by auto
  have "window (unat offset) (min (unat len) (length c - unat offset)) c = window (unat offset) (unat len) c"
    by (simp add: window_def min_def)
  with opened_reader_drains [OF assms(1) c(2)] c(1) show ?thesis by fastforce
qed

theorem reader_delivers_window_witness:
  "\<exists>r w r' w2. reader_open_at memfs_sys ''a'' 2 9 (memfs_world [(''a'', [1, 2, 3, 4, 5])] 2) = Some (Inr r, w) \<and>
     drain_reader memfs_sys [] r w = Some (None,
       [\<lparr>ck_bytes = [3, 4], ck_offset = 2\<rparr>, \<lparr>ck_bytes = [5], ck_offset = 4\<rparr>], r', w2) \<and>
     memfs_content (reader_destroy memfs_sys r' w2) = (\<lambda>fd. None)"
proof -
  let ?w = "memfs_world [(''a'', [1, 2, 3, 4, 5])] 2" and ?V = "memfs_view True [(''a'', [1, 2, 3, 4, 5])]"
  have "(case reader_open_at memfs_sys ''a'' 2 9 ?w of Some (Inr r, w) \<Rightarrow>
        map_option (\<lambda>(e, seen, r', w2). (e, reader_block_size r, seen)) (drain_reader memfs_sys [] r w)
      | _ \<Rightarrow> None) = Some (None, 2, [\<lparr>ck_bytes = [3, 4], ck_offset = 2\<rparr>, \<lparr>ck_bytes = [5], ck_offset = 4\<rparr>])"
    by code_simp
  then obtain r w r' w2 where d: "reader_open_at memfs_sys ''a'' 2 9 ?w = Some (Inr r, w)"
    "drain_reader memfs_sys [] r w = Some (None,
       [\<lparr>ck_bytes = [3, 4], ck_offset = 2\<rparr>, \<lparr>ck_bytes = [5], ck_offset = 4\<rparr>], r', w2)"
    by (auto split: option.splits prod.splits sum.splits)
  have "v_good ?V ?w" by simp
  from reader_delivers_window [OF memfs_files_law this d(1)] d
  have "v_fds ?V (reader_destroy memfs_sys r' w2) = v_fds ?V ?w" by auto
  also have "\<dots> = (\<lambda>fd. None)" by (simp add: memfs_content_def memfs_world_def fun_eq_iff)
  finally show ?thesis using d by auto
qed

text \<open>
  Property C31 (opening a reader). \<open>open\<close> with a window fails without leaving a descriptor open. It succeeds only for
  an offset that is a multiple of the file's alignment and not past the end of the file; the window is
  then trimmed to the file, and the reader owns one new descriptor.
\<close>

theorem reader_open_at_checks_window:
  assumes "files_law K V" and "v_good V w" and "reader_open_at K path offset len w = Some (r, w')"
  shows "case r of
      Inl e \<Rightarrow> v_fds V w' = v_fds V w
    | Inr rd \<Rightarrow> \<exists>c. v_files V path = Some c \<and> offset mod file_alignment (rd_file rd) = 0 \<and>
        unat offset \<le> length c \<and> unat (reader_size rd) = min (unat len) (length c - unat offset) \<and>
        rd_position rd = offset \<and> 0 < reader_block_size rd \<and>
        v_fds V w (file_fd (rd_file rd)) = None \<and> v_fds V w' = (v_fds V w)(file_fd (rd_file rd) \<mapsto> c)"
proof (cases r)
  case (Inr rd)
  note res = reader_open_at_correct [OF assms, unfolded Inr sum.case, THEN conjunct2]
  show ?thesis unfolding Inr sum.case
  proof (rule exE [OF res], intro exI conjI)
    fix c
    assume c: "v_files V path = Some c \<and> file_alignment (rd_file rd) \<noteq> 0 \<and>
      offset mod file_alignment (rd_file rd) = 0 \<and>
      opened_reader V w c offset (min (unat len) (length c - unat offset)) rd w'"
    then show "v_files V path = Some c" "offset mod file_alignment (rd_file rd) = 0" by blast+
    from c have o: "opened_reader V w c offset (min (unat len) (length c - unat offset)) rd w'" by blast
    show "unat offset \<le> length c" "unat (reader_size rd) = min (unat len) (length c - unat offset)"
      "rd_position rd = offset" "0 < reader_block_size rd" "v_fds V w (file_fd (rd_file rd)) = None"
      "v_fds V w' = (v_fds V w)(file_fd (rd_file rd) \<mapsto> c)"
      using o by (auto simp: opened_reader_def reader_inv_def)
  qed
qed (use reader_open_at_correct [OF assms] in simp)

theorem reader_open_at_checks_window_witness:
  "\<exists>w'. reader_open_at memfs_sys ''a'' 6 9 (memfs_world [(''a'', [1, 2, 3, 4, 5])] 2) =
     Some (Inl (ReaderError (ReaderPastEnd 6 5)), w') \<and> memfs_content w' = (\<lambda>fd. None)"
proof -
  let ?w = "memfs_world [(''a'', [1, 2, 3, 4, 5])] 2" and ?V = "memfs_view True [(''a'', [1, 2, 3, 4, 5])]"
  have "map_option fst (reader_open_at memfs_sys ''a'' 6 9 ?w) = Some (Inl (ReaderError (ReaderPastEnd 6 5)))"
    by code_simp
  then obtain w' where d: "reader_open_at memfs_sys ''a'' 6 9 ?w = Some (Inl (ReaderError (ReaderPastEnd 6 5)), w')"
    by auto
  have "v_good ?V ?w" by simp
  from reader_open_at_checks_window [OF memfs_files_law this d]
  have "v_fds ?V w' = v_fds ?V ?w" by simp
  also have "\<dots> = (\<lambda>fd. None)" by (simp add: memfs_content_def memfs_world_def fun_eq_iff)
  finally show ?thesis using d by auto
qed

text \<open>
  Property C32 (the whole file). A reader opened without a window delivers the whole file: the chunks joined are the
  content, and all but the last are full blocks.
\<close>

theorem reader_reads_whole_file:
  assumes "files_law K V" and "v_good V w" and "reader_open K path w = (Inr r, w1)"
    and "file_alignment (rd_file r) \<noteq> 0"
  shows "\<exists>e seen r' w2. drain_reader K [] r w1 = Some (e, seen, r', w2) \<and>
    (e = None \<longrightarrow> v_files V path = Some (concat (map ck_bytes seen)) \<and>
       (\<forall>before ch after. seen = before @ ch # after \<longrightarrow>
          0 < length (ck_bytes ch) \<and> length (ck_bytes ch) \<le> reader_block_size r \<and>
          (after \<noteq> [] \<longrightarrow> length (ck_bytes ch) = reader_block_size r)))"
proof -
  from reader_open_correct [OF assms(1-3)] assms(4) obtain c where c: "v_files V path = Some c"
    "opened_reader V w c 0 (length c) r w1" by auto
  let ?n = "reader_block_size r"
  have pos: "0 < ?n" using c(2) by (simp add: opened_reader_def reader_inv_def)
  have bytes: "map ck_bytes (chunks_at p bss) = bss" for p bss
    by (induction p bss rule: chunks_at.induct) simp_all
  have sizes: "0 < length (ck_bytes ch) \<and> length (ck_bytes ch) \<le> ?n \<and> (after \<noteq> [] \<longrightarrow> length (ck_bytes ch) = ?n)"
    if "chunks_at 0 (chunks ?n c) = before @ ch # after" for before ch after
  proof -
    have split: "map ck_bytes before @ ck_bytes ch # map ck_bytes after = chunks ?n c"
      using arg_cong [OF that, of "map ck_bytes"] bytes by simp
    then have "ck_bytes ch \<in> set (chunks ?n c)" by (metis in_set_conv_decomp)
    then show ?thesis using chunks_nonempty chunks_append_sizes [OF split] by auto
  qed
  have whole: "window (unat (0 :: u64)) (length c) c = c" by (simp add: window_def)
  from opened_reader_drains [OF assms(1) c(2)] obtain e seen r' w2 where
    "drain_reader K [] r w1 = Some (e, seen, r', w2)" "e = None \<longrightarrow> seen = chunks_at 0 (chunks ?n c)"
    unfolding whole by blast
  then show ?thesis using c(1) bytes concat_chunks [OF pos, of c] sizes by auto
qed

theorem reader_reads_whole_file_witness:
  "\<exists>r w seen r' w2. reader_open memfs_sys ''a'' (memfs_world [(''a'', [1, 2, 3, 4, 5])] 2) = (Inr r, w) \<and>
     drain_reader memfs_sys [] r w = Some (None, seen, r', w2) \<and> concat (map ck_bytes seen) = [1, 2, 3, 4, 5]"
proof -
  let ?w = "memfs_world [(''a'', [1, 2, 3, 4, 5])] 2" and ?V = "memfs_view True [(''a'', [1, 2, 3, 4, 5])]"
  have "(case reader_open memfs_sys ''a'' ?w of (Inr r, w) \<Rightarrow>
        map_option (\<lambda>(e, seen, r', w2). (e, file_alignment (rd_file r))) (drain_reader memfs_sys [] r w)
      | _ \<Rightarrow> None) = Some (None, 2)" by code_simp
  then obtain r w seen r' w2 where d: "reader_open memfs_sys ''a'' ?w = (Inr r, w)"
    "drain_reader memfs_sys [] r w = Some (None, seen, r', w2)" "file_alignment (rd_file r) = 2"
    by (auto split: option.splits prod.splits sum.splits)
  have "v_good ?V ?w" "file_alignment (rd_file r) \<noteq> 0" using d(3) by simp_all
  from reader_reads_whole_file [OF memfs_files_law this(1) d(1) this(2)] d show ?thesis by fastforce
qed

end
