(* ===== verification/Sink.thy ===== *)
theory Sink
  imports File
begin

text \<open>
  \<open>include/dsio/sink.hpp\<close> and \<open>src/sink.cpp\<close>: where read bytes land. The abstract class \<open>Sink\<close> is a record of
  its virtual functions, its contract is the locale \<open>sink\<close>, which the host sink interprets.
\<close>

section \<open>Definitions\<close>

datatype memory_kind = Host | Device

text \<open>
  A read fills the region through the span that \<open>region ()\<close> returns; \<open>sk_store\<close> is the sink with new bytes in
  its region.
\<close>

record ('s, 'w) sink_ops =
  sk_region :: "'s \<Rightarrow> span"
  sk_store :: "span \<Rightarrow> 's \<Rightarrow> 's"
  sk_kind :: "'s \<Rightarrow> memory_kind"
  sk_alignment :: "'s \<Rightarrow> u64"
  sk_commit :: "nat \<Rightarrow> 's \<Rightarrow> 'w \<Rightarrow> unit outcome \<times> 's \<times> 'w"

record host_sink =
  hs_region :: span
  hs_alignment :: u64

text \<open>\<open>HostSink::commit\<close>: host memory needs no synchronization.\<close>

definition host_commit :: "nat \<Rightarrow> host_sink \<Rightarrow> 'w \<Rightarrow> unit outcome \<times> host_sink \<times> 'w" where
  "host_commit bytes s w = (Inr (), s, w)"

definition host_sink_ops :: "(host_sink, 'w) sink_ops" where
  "host_sink_ops = \<lparr>sk_region = hs_region, sk_store = (\<lambda>region s. s\<lparr>hs_region := region\<rparr>),
     sk_kind = (\<lambda>s. Host), sk_alignment = hs_alignment, sk_commit = host_commit\<rparr>"

lemma host_sink_simps [simp]:
  "sk_region host_sink_ops = hs_region" "sk_kind host_sink_ops = (\<lambda>s. Host)"
  "sk_store host_sink_ops region s = s\<lparr>hs_region := region\<rparr>" "sk_commit host_sink_ops = host_commit"
  by (simp_all add: host_sink_ops_def)

text \<open>\<open>None\<close> is the division by an alignment of zero.\<close>

definition read_into ::
  "'w sys \<Rightarrow> ('s, 'w) sink_ops \<Rightarrow> file_t \<Rightarrow> u64 \<Rightarrow> 's \<Rightarrow> 'w \<Rightarrow> (nat outcome \<times> 's \<times> 'w) option" where
  "read_into K S f offset s w =
     (if sk_kind S s = Device then Some (Inl (SinkError SinkNoDevice), s, w)
      else
        let alignment = file_alignment f;
            region = sk_region S s;
            aligned = span_size region - span_size region mod unat alignment in
        if alignment = 0 then None
        else if aligned = 0 then Some (Inl (SinkError (SinkTooSmall (span_size region) alignment)), s, w)
        else do {
          ((got, part), w1) \<leftarrow> file_pread_exact K f offset (span_first aligned region) w;
          let s1 = sk_store S (span_store 0 (sp_bytes part) region) s;
          (case got of
             Inl e \<Rightarrow> Some (Inl e, s1, w1)
           | Inr n \<Rightarrow>
               (case sk_commit S n s1 w1 of
                  (Inl e, s2, w2) \<Rightarrow> Some (Inl e, s2, w2)
                | (Inr _, s2, w2) \<Rightarrow> Some (Inr n, s2, w2)))
        })"

text \<open>The build option \<open>DSIO_WITH_CUFILE\<close> is an argument.\<close>

definition gpu_direct_available :: "bool \<Rightarrow> bool" where
  "gpu_direct_available with_cufile = with_cufile"

definition open_device_sink :: "bool \<Rightarrow> u64 \<Rightarrow> 's outcome" where
  "open_device_sink with_cufile bytes = Inl (SinkError NoDeviceBackend)"

section \<open>The contract\<close>

text \<open>
  What a read stores through the region is in the region, of the same kind of memory; committing on host
  memory leaves the bytes and the world alone.
\<close>

locale sink =
  fixes S :: "('s, 'w) sink_ops"
  assumes store_law: "span_size region = span_size (sk_region S s) \<Longrightarrow>
      sk_region S (sk_store S region s) = region \<and> sk_kind S (sk_store S region s) = sk_kind S s"
    and commit_law: "sk_kind S s = Host \<Longrightarrow> sk_commit S n s w = (r, s', w') \<Longrightarrow>
      sk_region S s' = sk_region S s \<and> sk_kind S s' = Host \<and> w' = w"
begin

lemma read_into_correct:
  assumes law: "read_law K V" and rd: "reads_from V f c w" and host: "sk_kind S s = Host"
    and block: "file_alignment f \<noteq> 0"
  shows "\<exists>got s' w'. read_into K S f offset s w = Some (got, s', w') \<and> quiet V w w' \<and>
    sp_addr (sk_region S s') = sp_addr (sk_region S s) \<and>
    span_size (sk_region S s') = span_size (sk_region S s) \<and>
    (span_size (sk_region S s) < unat (file_alignment f) \<longrightarrow>
       got = Inl (SinkError (SinkTooSmall (span_size (sk_region S s)) (file_alignment f))) \<and> s' = s) \<and>
    (\<forall>n. got = Inr n \<longrightarrow>
       n = min (span_size (sk_region S s) div unat (file_alignment f) * unat (file_alignment f)) (length c - unat offset) \<and>
       sp_bytes (sk_region S s') = window (unat offset) n c @ drop n (sp_bytes (sk_region S s)))"
proof -
  let ?a = "unat (file_alignment f)" and ?R = "sk_region S s"
  let ?k = "span_size ?R - span_size ?R mod ?a"
  have a: "0 < ?a" using block by (simp add: unat_gt_0)
  have k: "?k = span_size ?R div ?a * ?a" by (simp add: minus_mod_eq_div_mult)
  have small: "?k = 0 \<longleftrightarrow> span_size ?R < ?a" unfolding k using a by (simp add: div_eq_0_iff)
  show ?thesis
  proof (cases "?k = 0")
    case True
    then show ?thesis
      using host block small reads_from_good [OF rd] by (simp add: read_into_def Let_def)
  next
    case False
    from file_pread_exact_correct [OF law rd, of offset "span_first ?k ?R"] obtain got part w1 where
      r: "file_pread_exact K f offset (span_first ?k ?R) w = Some ((got, part), w1)" "quiet V w w1"
        "span_size part = span_size (span_first ?k ?R)"
      and ok: "\<forall>n. got = Inr n \<longrightarrow> n = min (span_size (span_first ?k ?R)) (length c - unat offset) \<and>
        take n (sp_bytes part) = window (unat offset) n c \<and>
        drop n (sp_bytes part) = drop n (sp_bytes (span_first ?k ?R))" by blast
    have lp: "length (sp_bytes part) = ?k" using r(3) by (simp add: span_size_def span_first_def)
    let ?region = "span_store 0 (sp_bytes part) ?R"
    have size: "span_size ?region = span_size ?R" using lp by (simp add: span_size_def length_overwrite)
    note st = store_law [OF size]
    show ?thesis
    proof (cases got)
      case (Inl e)
      with r(1,2) host block False st size small show ?thesis by (simp add: read_into_def Let_def)
    next
      case (Inr n)
      obtain r2 s2 w2 where cm: "sk_commit S n (sk_store S ?region s) w1 = (r2, s2, w2)" by (metis prod.exhaust)
      have "sk_kind S (sk_store S ?region s) = Host" using st host by simp
      from commit_law [OF this cm] st have s2: "sk_region S s2 = ?region" "w2 = w1" by simp_all
      have n: "n = min ?k (length c - unat offset)" "take n (sp_bytes part) = window (unat offset) n c"
        "drop n (sp_bytes part) = drop n (take ?k (sp_bytes ?R))"
        using ok Inr by (auto simp: span_first_def span_size_def)
      have "sp_bytes ?region = take n (sp_bytes part) @ drop n (sp_bytes part) @ drop ?k (sp_bytes ?R)"
        using lp by (simp add: overwrite_def)
      also have "drop n (sp_bytes part) @ drop ?k (sp_bytes ?R) = drop n (take ?k (sp_bytes ?R) @ drop ?k (sp_bytes ?R))"
        unfolding n(3) using n(1) by (simp add: span_size_def del: append_take_drop_id)
      also have "take n (sp_bytes part) @ \<dots> = window (unat offset) n c @ drop n (sp_bytes ?R)"
        unfolding n(2) by simp
      finally show ?thesis
        using r(1,2) host block False Inr cm s2 size small n(1) k
        by (cases r2) (simp_all add: read_into_def Let_def)
    qed
  qed
qed

end

interpretation host: sink host_sink_ops
  by unfold_locales (auto simp: host_commit_def)

text \<open>
  A build with cuFile says that device reads are available, but no device sink can be opened, and reading
  into one fails.
\<close>

lemma device_sink_never_opens:
  "gpu_direct_available True \<and> (\<nexists>s. open_device_sink True bytes = Inr s)"
  by (simp add: gpu_direct_available_def open_device_sink_def)

section \<open>Properties\<close>

text \<open>
  Property C33 (reading into host memory). \<open>read_into\<close> on a host sink always returns. A region smaller than one
  block of the file is an error and nothing happens; otherwise, without an error, the largest prefix of whole
  blocks is filled with the bytes of the file at the offset, up to the end of the file, and the rest
  of the region stays.
\<close>

theorem read_into_fills_whole_blocks:
  assumes "read_law K V" and "reads_from V f c w" and "file_alignment f \<noteq> 0"
  shows "\<exists>got s' w'. read_into K host_sink_ops f offset s w = Some (got, s', w') \<and> quiet V w w' \<and>
    span_size (hs_region s') = span_size (hs_region s) \<and>
    (span_size (hs_region s) < unat (file_alignment f) \<longrightarrow>
       got = Inl (SinkError (SinkTooSmall (span_size (hs_region s)) (file_alignment f))) \<and> s' = s) \<and>
    (\<forall>n. got = Inr n \<longrightarrow>
       n = min (span_size (hs_region s) div unat (file_alignment f) * unat (file_alignment f)) (length c - unat offset) \<and>
       sp_bytes (hs_region s') = window (unat offset) n c @ drop n (sp_bytes (hs_region s)))"
proof -
  have "sk_kind host_sink_ops s = Host" by simp
  from host.read_into_correct [OF assms(1,2) this assms(3), of offset] show ?thesis
    unfolding host_sink_simps by blast
qed

theorem read_into_fills_whole_blocks_witness:
  "\<exists>w. read_into memfs_sys host_sink_ops \<lparr>file_fd = 3, file_path = ''a'', file_alignment = 2\<rparr> 2
     \<lparr>hs_region = \<lparr>sp_addr = 0, sp_bytes = [0, 0, 0, 0, 9]\<rparr>, hs_alignment = 1\<rparr>
     \<lparr>mf_files = [(''a'', [1, 2, 3, 4, 5])], mf_fds = [(3, ''a'')], mf_next = 4, mf_signals = 1,
       mf_chunk = Some 2, mf_block = 2\<rparr>
   = Some (Inr 3, \<lparr>hs_region = \<lparr>sp_addr = 0, sp_bytes = [3, 4, 5, 0, 9]\<rparr>, hs_alignment = 1\<rparr>, w)"
proof -
  let ?f = "\<lparr>file_fd = 3, file_path = ''a'', file_alignment = 2\<rparr>"
  let ?s = "\<lparr>hs_region = \<lparr>sp_addr = 0, sp_bytes = [0, 0, 0, 0, 9]\<rparr>, hs_alignment = 1\<rparr>"
  let ?w = "\<lparr>mf_files = [(''a'', [1, 2, 3, 4, 5])], mf_fds = [(3, ''a'')], mf_next = 4, mf_signals = 1,
       mf_chunk = Some 2, mf_block = 2\<rparr>"
  let ?V = "memfs_view False [(''a'', [1, 2, 3, 4, 5])]"
  have law: "read_law memfs_sys ?V" by (rule read_law_files [OF memfs_files_law])
  have rd: "reads_from ?V ?f [1, 2, 3, 4, 5] ?w"
    by (simp add: reads_from_def memfs_good_def memfs_content_def)
  have "map_option (\<lambda>(got, s, w). (got, sp_addr (hs_region s), hs_alignment s))
      (read_into memfs_sys host_sink_ops ?f 2 ?s ?w) = Some (Inr 3, 0, 1)" by code_simp
  then obtain s w where run: "read_into memfs_sys host_sink_ops ?f 2 ?s ?w = Some (Inr 3, s, w)"
    "sp_addr (hs_region s) = 0" "hs_alignment s = 1" by auto
  have "file_alignment ?f \<noteq> 0" by simp
  from read_into_fills_whole_blocks [OF law rd this, of 2 ?s] run(1)
  have "sp_bytes (hs_region s) = [3, 4, 5, 0, 9]" by (auto simp: window_def)
  with run show ?thesis by (cases s) (auto intro: span.equality)
qed

end
