(* ===== verification/Mmap.thy ===== *)
theory Mmap
  imports File
begin

text \<open>
  \<open>include/dsio/mmap.hpp\<close> and \<open>src/mmap.cpp\<close>: read-only mappings of file windows, their ownership, and the hints
  to the kernel. \<open>mmap\<close>, \<open>munmap\<close>, \<open>madvise\<close> and \<open>sysconf\<close> are parameters.
\<close>

section \<open>Definitions\<close>

subsection \<open>The system calls\<close>

datatype madvise_flag = MADV_NORMAL | MADV_SEQUENTIAL | MADV_RANDOM | MADV_WILLNEED | MADV_DONTNEED

text \<open>
  \<open>mm_page\<close> is what \<open>sysconf (_SC_PAGESIZE)\<close> returns. \<open>mm_mmap length fd offset\<close> is the read-only private
  mapping at an address that the kernel chooses, or the error behind \<open>MAP_FAILED\<close>.
\<close>

record 'w mm =
  mm_page :: int
  mm_mmap :: "u64 \<Rightarrow> int \<Rightarrow> int \<Rightarrow> 'w \<Rightarrow> u64 sysret \<times> 'w"
  mm_munmap :: "u64 \<Rightarrow> u64 \<Rightarrow> 'w \<Rightarrow> 'w"
  mm_madvise :: "u64 \<Rightarrow> u64 \<Rightarrow> madvise_flag \<Rightarrow> 'w \<Rightarrow> unit sysret \<times> 'w"

subsection \<open>The mapping\<close>

datatype advice = Normal | Sequential | Random | WillNeed | DontNeed

definition mmap_error :: "string \<Rightarrow> string \<Rightarrow> errno \<Rightarrow> error" where
  "mmap_error what path code = MmapError (MmapOp what path code)"

fun to_madvise :: "advice \<Rightarrow> madvise_flag" where
  "to_madvise Normal = MADV_NORMAL"
| "to_madvise Sequential = MADV_SEQUENTIAL"
| "to_madvise Random = MADV_RANDOM"
| "to_madvise WillNeed = MADV_WILLNEED"
| "to_madvise DontNeed = MADV_DONTNEED"

definition page_size :: "'w mm \<Rightarrow> u64" where
  "page_size M = (let n = word_of_int (mm_page M) in if n = 0 then 4096 else n)"

text \<open>Pointers are addresses; the null pointer is \<open>0\<close>.\<close>

record mmap_file =
  mm_map :: u64
  mm_map_length :: u64
  mm_data :: u64
  mm_size :: u64

definition mmap_none :: mmap_file where
  "mmap_none = \<lparr>mm_map = 0, mm_map_length = 0, mm_data = 0, mm_size = 0\<rparr>"

definition mmap_empty :: "mmap_file \<Rightarrow> bool" where
  "mmap_empty m \<longleftrightarrow> mm_size m = 0"

definition unmap :: "'w mm \<Rightarrow> mmap_file \<Rightarrow> 'w \<Rightarrow> mmap_file \<times> 'w" where
  "unmap M m w =
     (m\<lparr>mm_map := 0, mm_map_length := 0, mm_data := 0, mm_size := 0\<rparr>,
      if mm_map m \<noteq> 0 then mm_munmap M (mm_map m) (mm_map_length m) w else w)"

text \<open>\<open>MmapFile(MmapFile &&other)\<close>: the new object and what is left in \<open>other\<close>.\<close>

definition mmap_move :: "mmap_file \<Rightarrow> mmap_file \<times> mmap_file" where
  "mmap_move other =
     (\<lparr>mm_map = mm_map other, mm_map_length = mm_map_length other, mm_data = mm_data other, mm_size = mm_size other\<rparr>,
      other\<lparr>mm_map := 0, mm_map_length := 0, mm_data := 0, mm_size := 0\<rparr>)"

text \<open>\<open>operator=(MmapFile &&other)\<close> for two different objects.\<close>

definition mmap_move_assign ::
  "'w mm \<Rightarrow> mmap_file \<Rightarrow> mmap_file \<Rightarrow> 'w \<Rightarrow> (mmap_file \<times> mmap_file) \<times> 'w" where
  "mmap_move_assign M self other w = (case unmap M self w of (_, w') \<Rightarrow> (mmap_move other, w'))"

text \<open>\<open>~MmapFile\<close>.\<close>

definition mmap_destroy :: "'w mm \<Rightarrow> mmap_file \<Rightarrow> 'w \<Rightarrow> 'w" where
  "mmap_destroy M m w = snd (unmap M m w)"

text \<open>The descriptor is closed on every path; the mapping outlives it.\<close>

definition mmap_open ::
  "'w sys \<Rightarrow> 'w mm \<Rightarrow> string \<Rightarrow> u64 \<Rightarrow> u64 \<Rightarrow> 'w \<Rightarrow> mmap_file outcome \<times> 'w" where
  "mmap_open K M path offset len0 w =
     (if offset mod page_size M \<noteq> 0 then (Inl (MmapError (MmapMisaligned path offset)), w)
      else (case sys_open K path [O_RDONLY, O_CLOEXEC] w of
          (Errno code, w1) \<Rightarrow> (Inl (mmap_error ''open'' path code), w1)
        | (Ret fd, w1) \<Rightarrow>
            (case sys_fstat K fd w1 of
               (Errno code, w2) \<Rightarrow> (Inl (mmap_error ''stat'' path code), sys_close K fd w2)
             | (Ret st_size, w2) \<Rightarrow>
                 let size' = word_of_int st_size;
                     len = (if len0 = 0 then size' - offset else len0) in
                 if offset > size' then (Inl (MmapError (MmapPastEnd path offset size')), sys_close K fd w2)
                 else if len > size' - offset
                 then (Inl (MmapError (MmapWindow path len offset)), sys_close K fd w2)
                 else if len = 0 then (Inr (mmap_none\<lparr>mm_size := len\<rparr>), sys_close K fd w2)
                 else (case mm_mmap M len fd (sint offset) w2 of
                     (Errno code, w3) \<Rightarrow> (Inl (mmap_error ''mmap'' path code), sys_close K fd w3)
                   | (Ret a, w3) \<Rightarrow>
                       (Inr \<lparr>mm_map = a, mm_map_length = len, mm_data = a, mm_size = len\<rparr>,
                        sys_close K fd w3)))))"

definition mmap_advise ::
  "'w mm \<Rightarrow> advice \<Rightarrow> u64 \<Rightarrow> u64 \<Rightarrow> mmap_file \<Rightarrow> 'w \<Rightarrow> unit outcome \<times> 'w" where
  "mmap_advise M adv offset len0 m w =
     (if mmap_empty m then (Inr (), w)
      else if offset > mm_size m then (Inl (MmapError AdvisePastEnd), w)
      else if offset mod page_size M \<noteq> 0 then (Inl (MmapError AdviseMisaligned), w)
      else
        let len = (if len0 = 0 \<or> len0 > mm_size m - offset then mm_size m - offset else len0) in
        (case mm_madvise M (mm_data m + offset) len (to_madvise adv) w of
           (Errno code, w') \<Rightarrow> (Inl (MmapError (AdviseFailed code)), w')
         | (Ret _, w') \<Rightarrow> (Inr (), w')))"

definition mmap_prefetch :: "'w mm \<Rightarrow> u64 \<Rightarrow> u64 \<Rightarrow> mmap_file \<Rightarrow> 'w \<Rightarrow> unit outcome \<times> 'w" where
  "mmap_prefetch M offset len m w = mmap_advise M WillNeed offset len m w"

definition mmap_drop :: "'w mm \<Rightarrow> u64 \<Rightarrow> u64 \<Rightarrow> mmap_file \<Rightarrow> 'w \<Rightarrow> unit outcome \<times> 'w" where
  "mmap_drop M offset len m w = mmap_advise M DontNeed offset len m w"

section \<open>What the calls promise\<close>

text \<open>
  \<open>maps\<close> are the mappings that exist in a world, by the address of their first byte: a partial map, like a heap. Calls on
  descriptors leave them alone; a new mapping shows the window of the file.
\<close>

type_synonym 'w maps = "'w \<Rightarrow> u64 \<Rightarrow> byte list option"

definition map_open_law :: "'w sys \<Rightarrow> 'w view \<Rightarrow> 'w maps \<Rightarrow> bool" where
  "map_open_law K V maps \<longleftrightarrow> (\<forall>p fl w r w'. v_good V w \<longrightarrow> O_RDWR \<notin> set fl \<longrightarrow>
     sys_open K p fl w = (r, w') \<longrightarrow> maps w' = maps w)"

definition map_close_law :: "'w sys \<Rightarrow> 'w view \<Rightarrow> 'w maps \<Rightarrow> bool" where
  "map_close_law K V maps \<longleftrightarrow> (\<forall>fd w. v_good V w \<longrightarrow> maps (sys_close K fd w) = maps w)"

definition map_fstat_law :: "'w sys \<Rightarrow> 'w view \<Rightarrow> 'w maps \<Rightarrow> bool" where
  "map_fstat_law K V maps \<longleftrightarrow> (\<forall>fd w r w'. v_good V w \<longrightarrow> sys_fstat K fd w = (r, w') \<longrightarrow> maps w' = maps w)"

definition map_new_law :: "'w mm \<Rightarrow> 'w view \<Rightarrow> 'w maps \<Rightarrow> bool" where
  "map_new_law M V maps \<longleftrightarrow> (\<forall>len fd c off w r w'. v_good V w \<longrightarrow> v_fds V w fd = Some c \<longrightarrow> len \<noteq> 0 \<longrightarrow>
     0 \<le> off \<longrightarrow> nat off + unat len \<le> length c \<longrightarrow> mm_mmap M len fd off w = (r, w') \<longrightarrow> quiet V w w' \<and>
     (case r of
        Errno e \<Rightarrow> maps w' = maps w
      | Ret a \<Rightarrow> a \<noteq> 0 \<and> maps w a = None \<and> maps w' = (maps w)(a \<mapsto> window (nat off) (unat len) c)))"

definition map_unmap_law :: "'w mm \<Rightarrow> 'w view \<Rightarrow> 'w maps \<Rightarrow> bool" where
  "map_unmap_law M V maps \<longleftrightarrow> (\<forall>a len bs w. v_good V w \<longrightarrow> maps w a = Some bs \<longrightarrow> unat len = length bs \<longrightarrow>
     quiet V w (mm_munmap M a len w) \<and> maps (mm_munmap M a len w) = (maps w)(a := None))"

definition map_hint_law :: "'w mm \<Rightarrow> 'w view \<Rightarrow> 'w maps \<Rightarrow> bool" where
  "map_hint_law M V maps \<longleftrightarrow> (\<forall>a len flag w r w'. v_good V w \<longrightarrow> mm_madvise M a len flag w = (r, w') \<longrightarrow>
     quiet V w w' \<and> maps w' = maps w)"

definition mapping_law :: "'w sys \<Rightarrow> 'w mm \<Rightarrow> 'w view \<Rightarrow> 'w maps \<Rightarrow> bool" where
  "mapping_law K M V maps \<longleftrightarrow>
     open_law K V \<and> close_law K V \<and> stat_law K V \<and> size_law V \<and>
     map_open_law K V maps \<and> map_close_law K V maps \<and> map_fstat_law K V maps \<and>
     map_new_law M V maps \<and> map_unmap_law M V maps \<and> map_hint_law M V maps"

lemma mapping_lawD:
  assumes "mapping_law K M V maps"
  shows "open_law K V" "close_law K V" "stat_law K V" "size_law V" "map_new_law M V maps"
    "map_unmap_law M V maps" "map_hint_law M V maps"
  using assms by (simp_all add: mapping_law_def)

lemma mapping_open:
  assumes "mapping_law K M V maps" and "v_good V w" and "sys_open K p [O_RDONLY, O_CLOEXEC] w = (r, w')"
  shows "maps w' = maps w"
proof -
  have "map_open_law K V maps" using assms(1) by (simp add: mapping_law_def)
  moreover have "O_RDWR \<notin> set [O_RDONLY, O_CLOEXEC]" by simp
  ultimately show ?thesis using assms(2,3) unfolding map_open_law_def by blast
qed

lemma mapping_close:
  "mapping_law K M V maps \<Longrightarrow> v_good V w \<Longrightarrow> maps (sys_close K fd w) = maps w"
  by (simp add: mapping_law_def map_close_law_def)

lemma mapping_fstat:
  "mapping_law K M V maps \<Longrightarrow> v_good V w \<Longrightarrow> sys_fstat K fd w = (r, w') \<Longrightarrow> maps w' = maps w"
  unfolding mapping_law_def map_fstat_law_def by (elim conjE) fastforce

lemma mapping_mmap:
  "map_new_law M V maps \<Longrightarrow> v_good V w \<Longrightarrow> v_fds V w fd = Some c \<Longrightarrow> len \<noteq> 0 \<Longrightarrow> 0 \<le> off \<Longrightarrow>
     nat off + unat len \<le> length c \<Longrightarrow> mm_mmap M len fd off w = (r, w') \<Longrightarrow> quiet V w w' \<and>
     (case r of
        Errno e \<Rightarrow> maps w' = maps w
      | Ret a \<Rightarrow> a \<noteq> 0 \<and> maps w a = None \<and> maps w' = (maps w)(a \<mapsto> window (nat off) (unat len) c))"
  unfolding map_new_law_def by blast

lemma mapping_munmap:
  "map_unmap_law M V maps \<Longrightarrow> v_good V w \<Longrightarrow> maps w a = Some bs \<Longrightarrow> unat len = length bs \<Longrightarrow>
     quiet V w (mm_munmap M a len w) \<and> maps (mm_munmap M a len w) = (maps w)(a := None)"
  unfolding map_unmap_law_def by blast

lemma mapping_madvise:
  "map_hint_law M V maps \<Longrightarrow> v_good V w \<Longrightarrow> mm_madvise M a len flag w = (r, w') \<Longrightarrow>
     quiet V w w' \<and> maps w' = maps w"
  unfolding map_hint_law_def by blast

section \<open>Ownership\<close>

text \<open>
  An object is valid in a world when it maps nothing and is empty, or it owns a live mapping of its size. Its bytes
  are those of the mapping.
\<close>

definition mmap_valid :: "'w maps \<Rightarrow> mmap_file \<Rightarrow> 'w \<Rightarrow> bool" where
  "mmap_valid maps m w \<longleftrightarrow>
     (if mm_map m = 0 then m = mmap_none
      else mm_data m = mm_map m \<and> mm_size m = mm_map_length m \<and> mm_size m \<noteq> 0 \<and>
        (\<exists>bs. maps w (mm_map m) = Some bs \<and> length bs = unat (mm_map_length m)))"

definition mmap_bytes :: "'w maps \<Rightarrow> mmap_file \<Rightarrow> 'w \<Rightarrow> byte list" where
  "mmap_bytes maps m w =
     (if mm_size m = 0 then [] else case maps w (mm_data m) of None \<Rightarrow> [] | Some bs \<Rightarrow> take (unat (mm_size m)) bs)"

lemma mmap_none_valid [simp]: "mmap_valid maps mmap_none w"
  by (simp add: mmap_valid_def mmap_none_def)

lemma unmap_correct:
  assumes law: "mapping_law K M V maps" and good: "v_good V w" and valid: "mmap_valid maps m w"
    and call: "unmap M m w = (m', w')"
  shows "m' = mmap_none \<and> quiet V w w' \<and> maps w' = (if mm_map m = 0 then maps w else (maps w)(mm_map m := None))"
proof (cases "mm_map m = 0")
  case True
  with call good show ?thesis by (auto simp: unmap_def mmap_none_def)
next
  case False
  then obtain bs where bs: "maps w (mm_map m) = Some bs" "unat (mm_map_length m) = length bs"
    using valid by (auto simp: mmap_valid_def)
  from mapping_munmap [OF mapping_lawD(6) [OF law] good bs] call False show ?thesis by (auto simp: unmap_def mmap_none_def)
qed

lemma mmap_move_simps [simp]: "mmap_move m = (m, mmap_none)"
  by (simp add: mmap_move_def mmap_none_def)

text \<open>The failed \<open>sysconf\<close>: the fallback to 4096 is only for zero, so the page size is \<open>2^64 - 1\<close>.\<close>

lemma page_size_of_failed_sysconf: "mm_page M = -1 \<Longrightarrow> page_size M = - 1"
  by (simp add: page_size_def)

section \<open>Opening\<close>

lemma mmap_open_correct:
  assumes law: "mapping_law K M V maps" and good: "v_good V w"
    and call: "mmap_open K M path offset len0 w = (r, w')"
  shows "v_good V w' \<and> v_fds V w' = v_fds V w \<and>
    (case r of
       Inl e \<Rightarrow> maps w' = maps w
     | Inr m \<Rightarrow> \<exists>c. v_files V path = Some c \<and> offset mod page_size M = 0 \<and>
         unat offset + (if len0 = 0 then 0 else unat len0) \<le> length c \<and>
         unat (mm_size m) = (if len0 = 0 then length c - unat offset else unat len0) \<and>
         (if mm_size m = 0 then m = mmap_none \<and> maps w' = maps w
          else mm_map m \<noteq> 0 \<and> mm_data m = mm_map m \<and> mm_map_length m = mm_size m \<and> maps w (mm_map m) = None \<and>
            maps w' = (maps w)(mm_map m \<mapsto> window (unat offset) (unat (mm_size m)) c)))"
proof (cases "offset mod page_size M = 0")
  case False
  with call good show ?thesis by (auto simp: mmap_open_def)
next
  case aligned: True
  note laws = mapping_lawD [OF law]
  obtain fr w1 where o: "sys_open K path [O_RDONLY, O_CLOEXEC] w = (fr, w1)" by (metis prod.exhaust)
  have rdonly: "O_RDWR \<notin> set [O_RDONLY, O_CLOEXEC]" by simp
  have maps1: "maps w1 = maps w" by (rule mapping_open [OF law good o])
  consider code where "fr = Errno code" "quiet V w w1"
    | fd c where "fr = Ret fd" "v_good V w1" "v_fds V w fd = None" "v_files V path = Some c"
        "v_fds V w1 = (v_fds V w)(fd \<mapsto> c)"
    using open_lawD [OF laws(1) good rdonly o] by blast
  then show ?thesis
  proof cases
    case 1
    with call o aligned maps1 show ?thesis by (auto simp: mmap_open_def quiet_def)
  next
    case (2 fd c)
    obtain sr w2 where st: "sys_fstat K fd w1 = (sr, w2)" by (metis prod.exhaust)
    from fstat_lawD [OF laws(3) 2(2) st] have q2: "quiet V w1 w2"
      and size: "\<And>n. sr = Ret n \<Longrightarrow> n = int (length c)" using 2(5) by auto
    have maps2: "maps w2 = maps w" using mapping_fstat [OF law 2(2) st] maps1 by simp
    have fd2: "v_fds V w2 fd = Some c" "v_good V w2" using q2 2(5) by (simp_all add: quiet_def)
    have closed: "v_good V (sys_close K fd v) \<and> v_fds V (sys_close K fd v) = v_fds V w \<and> maps (sys_close K fd v) = maps v"
      if "quiet V w2 v" for v
      using close_lawD [OF laws(2) quiet_good [OF that], of fd] mapping_close [OF law quiet_good [OF that], of fd]
        that q2 2(3,5) by (simp add: quiet_fds fun_upd_idem)
    show ?thesis
    proof (cases sr)
      case (Errno code)
      with call o 2(1) st aligned closed [of w2] fd2(2) maps2 show ?thesis by (auto simp: mmap_open_def)
    next
      case (Ret n)
      let ?size = "word_of_int n :: u64"
      let ?len = "if len0 = 0 then ?size - offset else len0"
      have "length c < 2 ^ 63" using laws(4) fd2 unfolding size_law_def by blast
      then have big: "unat ?size = length c" "length c < 2 ^ 63"
        using size [OF Ret] by (simp_all add: unat_of_nat_u64)
      show ?thesis
      proof (cases "offset > ?size \<or> ?len > ?size - offset")
        case True
        with call o 2(1) st Ret aligned closed [of w2] fd2(2) maps2 show ?thesis
          by (cases "offset > ?size") (auto simp: mmap_open_def Let_def)
      next
        case False
        have off: "unat offset \<le> length c" using False big(1) by (simp add: not_less u64_le_nat)
        have left: "unat (?size - offset) = length c - unat offset"
          using unat_minus_u64 [of offset ?size] False big(1) by (simp add: not_less)
        have len: "unat ?len = (if len0 = 0 then length c - unat offset else unat len0)" using left by simp
        have le: "unat ?len \<le> length c - unat offset" using False left by (auto simp: not_less u64_le_nat)
        have sum: "unat offset + unat ?len \<le> length c" using off le by linarith
        show ?thesis
        proof (cases "?len = 0")
          case True
          have "mmap_none\<lparr>mm_size := ?len\<rparr> = mmap_none" unfolding True by (simp add: mmap_none_def)
          with True have r: "r = Inr mmap_none" "w' = sys_close K fd w2"
            using call o 2(1) st Ret aligned False by (auto simp: mmap_open_def Let_def split: if_splits)
          from len True have "(if len0 = 0 then length c - unat offset else unat len0) = 0" by simp
          with r closed [of w2] fd2(2) maps2 aligned 2(4) off show ?thesis
            by (auto simp: mmap_none_def split: if_splits)
        next
          case nz: False
          obtain mr w3 where mm: "mm_mmap M ?len fd (sint offset) w2 = (mr, w3)" by (metis prod.exhaust)
          have so: "0 \<le> sint offset" "nat (sint offset) = unat offset"
            using off big(2) by (simp_all add: sint_u64_small)
          have "nat (sint offset) + unat ?len \<le> length c" using so(2) sum by simp
          from mapping_mmap [OF laws(5) fd2(2,1) nz so(1) this mm] have q3: "quiet V w2 w3"
            and new: "case mr of Errno e \<Rightarrow> maps w3 = maps w2
              | Ret a \<Rightarrow> a \<noteq> 0 \<and> maps w2 a = None \<and> maps w3 = (maps w2)(a \<mapsto> window (unat offset) (unat ?len) c)"
            unfolding so(2) by blast+
          note call' = call [unfolded mmap_open_def o sysret.case prod.case 2(1) st Ret Let_def]
          have go: "(r, w') = (case mr of
                Errno code \<Rightarrow> (Inl (mmap_error ''mmap'' path code), sys_close K fd w3)
              | Ret a \<Rightarrow> (Inr \<lparr>mm_map = a, mm_map_length = ?len, mm_data = a, mm_size = ?len\<rparr>, sys_close K fd w3))"
            using call' aligned False nz mm by (cases mr) auto
          show ?thesis
          proof (cases mr)
            case (Errno e)
            with go new closed [OF q3] maps2 show ?thesis by simp
          next
            case (Ret a)
            have bound: "unat offset + (if len0 = 0 then 0 else unat len0) \<le> length c"
              using sum len off by (cases "len0 = 0") simp_all
            from Ret go have r: "r = Inr \<lparr>mm_map = a, mm_map_length = ?len, mm_data = a, mm_size = ?len\<rparr>"
              "w' = sys_close K fd w3" by simp_all
            from new Ret have n: "a \<noteq> 0" "maps w2 a = None"
              "maps w3 = (maps w2)(a \<mapsto> window (unat offset) (unat ?len) c)" by simp_all
            show ?thesis
              unfolding r sum.case using closed [OF q3] n maps2 aligned 2(4) bound len nz by simp
          qed
        qed
      qed
    qed
  qed
qed

section \<open>Mappings in memory\<close>

text \<open>
  A world that keeps these promises, for the witnesses: files in memory, and mappings at growing addresses, until none
  is left.
\<close>

record mapped =
  mp_fs :: memfs
  mp_next :: u64
  mp_maps :: "(u64 \<times> byte list) list"

definition on_fs :: "(memfs \<Rightarrow> 'r \<times> memfs) \<Rightarrow> mapped \<Rightarrow> 'r \<times> mapped" where
  "on_fs call w = (case call (mp_fs w) of (r, u) \<Rightarrow> (r, w\<lparr>mp_fs := u\<rparr>))"

definition mapped_sys :: "mapped sys" where
  "mapped_sys = \<lparr>
     sys_open = (\<lambda>p fl. on_fs (memfs_open p fl)),
     sys_close = (\<lambda>fd w. w\<lparr>mp_fs := memfs_close fd (mp_fs w)\<rparr>),
     sys_blksszget = (\<lambda>fd w. (Errno 25, w)),
     sys_statfs = (\<lambda>p w. (Ret (mf_block (mp_fs w)), w)),
     sys_fstat = (\<lambda>fd. on_fs (memfs_fstat fd)),
     sys_pread = (\<lambda>fd s off. on_fs (memfs_pread fd s off)),
     sys_pwrite = (\<lambda>fd s off. on_fs (memfs_pwrite fd s off)),
     sys_fsync = (\<lambda>fd w. (Ret (), w)),
     sys_fdatasync = (\<lambda>fd w. (Ret (), w)),
     fp_alloc = (\<lambda>n a. on_fs (memfs_alloc n a)),
     pool_start = (\<lambda>n w. (None, w)),
     pool_finish = (\<lambda>n w. ([], w))\<rparr>"

definition mapped_mmap :: "u64 \<Rightarrow> int \<Rightarrow> int \<Rightarrow> mapped \<Rightarrow> u64 sysret \<times> mapped" where
  "mapped_mmap len fd off w =
     (case memfs_content (mp_fs w) fd of
        None \<Rightarrow> (Errno 9, w)
      | Some c \<Rightarrow>
          if 9223372036854775808 < mp_next w then (Errno 12, w)
          else (Ret (mp_next w), w\<lparr>mp_next := mp_next w + 4096,
            mp_maps := (mp_next w, window (nat off) (unat len) c) # mp_maps w\<rparr>))"

definition mapped_mm :: "mapped mm" where
  "mapped_mm = \<lparr>mm_page = 4, mm_mmap = mapped_mmap,
     mm_munmap = (\<lambda>a len w. w\<lparr>mp_maps := filter (\<lambda>e. fst e \<noteq> a) (mp_maps w)\<rparr>),
     mm_madvise = (\<lambda>a len flag w. (Ret (), w))\<rparr>"

definition mapped_view :: "(string \<times> byte list) list \<Rightarrow> mapped view" where
  "mapped_view fs = \<lparr>v_good = (\<lambda>w. memfs_good True fs (mp_fs w) \<and> 0 < mp_next w \<and>
       (\<forall>(a, bs) \<in> set (mp_maps w). a < mp_next w)),
     v_fds = (\<lambda>w. memfs_content (mp_fs w)), v_files = map_of fs, v_signals = (\<lambda>w. mf_signals (mp_fs w))\<rparr>"

definition mapped_maps :: "mapped maps" where
  "mapped_maps w = map_of (mp_maps w)"

lemma mapped_simps [simp]:
  "sys_open mapped_sys p fl = on_fs (memfs_open p fl)"
  "sys_close mapped_sys fd w = w\<lparr>mp_fs := memfs_close fd (mp_fs w)\<rparr>"
  "sys_fstat mapped_sys fd = on_fs (memfs_fstat fd)"
  "sys_blksszget mapped_sys fd w = (Errno 25, w)"
  "sys_statfs mapped_sys p w = (Ret (mf_block (mp_fs w)), w)"
  "mm_page mapped_mm = 4" "mm_mmap mapped_mm = mapped_mmap"
  "mm_munmap mapped_mm a len w = w\<lparr>mp_maps := filter (\<lambda>e. fst e \<noteq> a) (mp_maps w)\<rparr>"
  "mm_madvise mapped_mm a len flag w = (Ret (), w)"
  "v_files (mapped_view fs) = map_of fs" "v_fds (mapped_view fs) = (\<lambda>w. memfs_content (mp_fs w))"
  by (simp_all add: mapped_sys_def mapped_mm_def mapped_view_def)

lemma mapped_good:
  "v_good (mapped_view fs) w \<longleftrightarrow> memfs_good True fs (mp_fs w) \<and> 0 < mp_next w \<and>
     (\<forall>(a, bs) \<in> set (mp_maps w). a < mp_next w)"
  by (simp add: mapped_view_def)

lemma mapped_open_law: "open_law mapped_sys (mapped_view fs)"
  unfolding open_law_def
proof (intro allI impI)
  fix p fl w r w'
  assume good: "v_good (mapped_view fs) w" and fl: "O_RDWR \<notin> set fl" and call: "sys_open mapped_sys p fl w = (r, w')"
  obtain r1 u where o: "memfs_open p fl (mp_fs w) = (r1, u)" by (metis prod.exhaust)
  with call have r: "r = r1" "w' = w\<lparr>mp_fs := u\<rparr>" by (simp_all add: on_fs_def)
  have "v_good (memfs_view True fs) (mp_fs w)" using good by (simp add: mapped_good)
  from open_lawD [OF memfs_open_law this fl, of p r1 u] o
  show "case r of Errno e \<Rightarrow> quiet (mapped_view fs) w w'
      | Ret fd \<Rightarrow> v_good (mapped_view fs) w' \<and> 0 \<le> fd \<and> v_fds (mapped_view fs) w fd = None \<and>
          (\<exists>c. v_files (mapped_view fs) p = Some c \<and> v_fds (mapped_view fs) w' = (v_fds (mapped_view fs) w)(fd \<mapsto> c))"
    using good by (auto simp: r mapped_good quiet_def split: sysret.splits)
qed

lemma mapped_close_law: "close_law mapped_sys (mapped_view fs)"
  using close_lawD [OF memfs_close_law [of True fs]] by (simp add: close_law_def mapped_good)

lemma mapped_stat_law: "stat_law mapped_sys (mapped_view fs)"
  using fstat_lawD [OF memfs_stat_law [of True fs]]
  by (fastforce simp: stat_law_def mapped_good quiet_def on_fs_def split: prod.splits)

lemma mapped_size_law: "size_law (mapped_view fs)"
  using memfs_size_law [of True fs] by (auto simp: size_law_def mapped_good)

lemma mapped_new_law: "map_new_law mapped_mm (mapped_view fs) mapped_maps"
  unfolding map_new_law_def
proof (intro allI impI)
  fix len fd c off and w :: mapped and r w'
  assume good: "v_good (mapped_view fs) w" and fd: "v_fds (mapped_view fs) w fd = Some c"
    and call: "mm_mmap mapped_mm len fd off w = (r, w')"
  show "quiet (mapped_view fs) w w' \<and> (case r of
        Errno e \<Rightarrow> mapped_maps w' = mapped_maps w
      | Ret a \<Rightarrow> a \<noteq> 0 \<and> mapped_maps w a = None \<and>
          mapped_maps w' = (mapped_maps w)(a \<mapsto> window (nat off) (unat len) c))"
  proof (cases "9223372036854775808 < mp_next w")
    case True
    with call fd good show ?thesis by (auto simp: mapped_mmap_def quiet_def)
  next
    case False
    then have "unat (mp_next w) \<le> 9223372036854775808" by (simp add: not_less u64_le_nat)
    then have "unat (mp_next w + 4096) = unat (mp_next w) + 4096" by (simp add: unat_plus_u64)
    then have up: "mp_next w < mp_next w + 4096" by (simp add: u64_less_nat)
    then have "0 < mp_next w + 4096" "\<forall>(a, bs) \<in> set (mp_maps w). a < mp_next w + 4096"
      using good by (auto simp: mapped_good intro: order.strict_trans)
    moreover have "mapped_maps w (mp_next w) = None"
      using good by (auto simp: mapped_maps_def mapped_good map_of_eq_None_iff)
    ultimately show ?thesis
      using call fd False good up by (auto simp: mapped_mmap_def quiet_def mapped_good mapped_maps_def fun_eq_iff)
  qed
qed

lemma mapped_law: "mapping_law mapped_sys mapped_mm (mapped_view fs) mapped_maps"
  unfolding mapping_law_def
  by (intro conjI mapped_open_law mapped_close_law mapped_stat_law mapped_size_law mapped_new_law)
    (auto simp: map_open_law_def map_close_law_def map_fstat_law_def map_unmap_law_def map_hint_law_def
      mapped_maps_def on_fs_def quiet_def mapped_good map_of_filter_neq split: prod.splits)

definition mapped_world :: mapped where
  "mapped_world = \<lparr>mp_fs = memfs_world [(''a'', [1, 2, 3, 4, 5, 6, 7])] 2, mp_next = 4096, mp_maps = []\<rparr>"

lemma mapped_world_good: "v_good (mapped_view [(''a'', [1, 2, 3, 4, 5, 6, 7])]) mapped_world"
  by (simp add: mapped_good mapped_world_def)

text \<open>The object that \<open>open\<close> returns is valid and shows its window.\<close>

lemma mmap_open_valid:
  assumes "mapping_law K M V maps" and "v_good V w" and "mmap_open K M path offset len w = (Inr m, w')"
  shows "mmap_valid maps m w' \<and> maps w = (maps w')(mm_map m := maps w (mm_map m)) \<and>
    (mm_map m = 0 \<or> maps w (mm_map m) = None) \<and>
    (\<exists>c. v_files V path = Some c \<and> offset mod page_size M = 0 \<and> unat offset + unat len \<le> length c \<and>
       mmap_bytes maps m w' = window (unat offset) (if len = 0 then length c else unat len) c)"
proof -
  note res = mmap_open_correct [OF assms, unfolded sum.case]
  then obtain c where c: "v_files V path = Some c" "offset mod page_size M = 0"
      "unat offset + (if len = 0 then 0 else unat len) \<le> length c"
      "unat (mm_size m) = (if len = 0 then length c - unat offset else unat len)"
    and m: "if mm_size m = 0 then m = mmap_none \<and> maps w' = maps w
          else mm_map m \<noteq> 0 \<and> mm_data m = mm_map m \<and> mm_map_length m = mm_size m \<and> maps w (mm_map m) = None \<and>
            maps w' = (maps w)(mm_map m \<mapsto> window (unat offset) (unat (mm_size m)) c)" by (elim conjE exE)
  have fits: "unat offset + unat len \<le> length c" using c(3) by (cases "len = 0") simp_all
  have win: "window (unat offset) (unat (mm_size m)) c = window (unat offset) (if len = 0 then length c else unat len) c"
    unfolding c(4) by (simp add: window_def)
  have size: "length (window (unat offset) (unat (mm_size m)) c) = unat (mm_size m)"
    using fits unfolding c(4) by (simp add: length_window)
  have "mmap_valid maps m w' \<and> maps w = (maps w')(mm_map m := maps w (mm_map m)) \<and>
      (mm_map m = 0 \<or> maps w (mm_map m) = None) \<and>
      mmap_bytes maps m w' = window (unat offset) (unat (mm_size m)) c"
  proof (cases "mm_size m = 0")
    case True
    with m show ?thesis by (simp add: mmap_bytes_def window_0) (simp add: mmap_none_def)
  next
    case False
    with m size show ?thesis by (simp add: mmap_valid_def mmap_bytes_def fun_upd_idem)
  qed
  with res c(1,2) fits win show ?thesis by auto
qed

section \<open>Properties\<close>

text \<open>
  Property C10 (mapping a window). \<open>open\<close> leaves no descriptor open, and no mapping behind when it fails. It succeeds
  only for a page-aligned offset and a window inside the file, a length of zero meaning the rest of the file; the
  object then shows exactly the bytes of the window and owns the one new mapping, or nothing when the window is
  empty.
\<close>

theorem mmap_open_maps_window:
  assumes "mapping_law K M V maps" and "v_good V w" and "mmap_open K M path offset len w = (r, w')"
  shows "v_fds V w' = v_fds V w \<and>
    (case r of
       Inl e \<Rightarrow> maps w' = maps w
     | Inr m \<Rightarrow> mmap_valid maps m w' \<and> maps w = (maps w')(mm_map m := maps w (mm_map m)) \<and>
         (mm_map m = 0 \<or> maps w (mm_map m) = None) \<and>
         (\<exists>c. v_files V path = Some c \<and> offset mod page_size M = 0 \<and> unat offset + unat len \<le> length c \<and>
            mmap_bytes maps m w' = window (unat offset) (if len = 0 then length c else unat len) c))"
  using mmap_open_correct [OF assms] mmap_open_valid [OF assms(1,2)] assms(3) by (cases r) auto

theorem mmap_open_maps_window_witness:
  "\<exists>m w. mmap_open mapped_sys mapped_mm ''a'' 4 0 mapped_world = (Inr m, w) \<and>
     mmap_bytes mapped_maps m w = [5, 6, 7] \<and> memfs_content (mp_fs w) = memfs_content (mp_fs mapped_world)"
proof -
  have "(case mmap_open mapped_sys mapped_mm ''a'' 4 0 mapped_world of (Inr m, w) \<Rightarrow> Some (mm_size m) | _ \<Rightarrow> None) = Some 3" by code_simp
  then obtain m w where r: "mmap_open mapped_sys mapped_mm ''a'' 4 0 mapped_world = (Inr m, w)"
    by (auto split: prod.splits sum.splits)
  from mmap_open_maps_window [OF mapped_law mapped_world_good r] r show ?thesis by (auto simp: window_def)
qed

text \<open>
  Property C34 (ownership of mappings). Moving one object into another unmaps what the target owned, once, and hands the
  other mapping over with its bytes; the source is empty, and destroying it does nothing. Destroying the target
  then unmaps exactly what was handed over.
\<close>

theorem mmap_move_assign_transfers:
  assumes "mapping_law K M V maps" and "v_good V w" and "mmap_valid maps self w" and "mmap_valid maps other w"
    and "mm_map self = 0 \<or> mm_map self \<noteq> mm_map other"
    and "mmap_move_assign M self other w = ((self', other'), w')"
  shows "mmap_valid maps self' w' \<and> mmap_bytes maps self' w' = mmap_bytes maps other w \<and>
    mmap_bytes maps other' w' = [] \<and> mmap_destroy M other' w' = w' \<and>
    maps w' = (if mm_map self = 0 then maps w else (maps w)(mm_map self := None)) \<and>
    maps (mmap_destroy M self' w') = (if mm_map other = 0 then maps w' else (maps w')(mm_map other := None)) \<and>
    v_fds V (mmap_destroy M self' w') = v_fds V w"
proof -
  obtain s1 w1 where u: "unmap M self w = (s1, w1)" by (metis prod.exhaust)
  from unmap_correct [OF assms(1-3) u] have w1: "quiet V w w1"
    "maps w1 = (if mm_map self = 0 then maps w else (maps w)(mm_map self := None))" by simp_all
  from assms(6) u have r: "self' = other" "other' = mmap_none" "w' = w1" by (simp_all add: mmap_move_assign_def)
  have same: "mm_map other \<noteq> 0 \<Longrightarrow> maps w1 (mm_map other) = maps w (mm_map other)"
    using w1(2) assms(5) by auto
  have valid: "mmap_valid maps other w1"
    using assms(4) same by (cases "mm_map other = 0") (auto simp: mmap_valid_def)
  have bytes: "mmap_bytes maps other w1 = mmap_bytes maps other w"
    using assms(4) same by (auto simp: mmap_valid_def mmap_bytes_def mmap_none_def split: if_splits)
  obtain s2 w2 where d: "unmap M other w1 = (s2, w2)" by (metis prod.exhaust)
  from unmap_correct [OF assms(1) quiet_good [OF w1(1)] valid d] w1(1)
  have "maps w2 = (if mm_map other = 0 then maps w1 else (maps w1)(mm_map other := None))" "v_fds V w2 = v_fds V w"
    by (auto simp: quiet_def)
  with d w1(2) valid bytes show ?thesis unfolding r
    by (simp add: mmap_destroy_def) (simp add: mmap_bytes_def unmap_def mmap_none_def)
qed

theorem mmap_move_assign_transfers_witness:
  "\<exists>m w self' other' w'. mmap_open mapped_sys mapped_mm ''a'' 0 2 mapped_world = (Inr m, w) \<and>
     mmap_move_assign mapped_mm mmap_none m w = ((self', other'), w') \<and>
     mmap_bytes mapped_maps self' w' = [1, 2] \<and> mmap_destroy mapped_mm other' w' = w'"
proof -
  have "(case mmap_open mapped_sys mapped_mm ''a'' 0 2 mapped_world of (Inr m, w) \<Rightarrow> Some (mm_size m) | _ \<Rightarrow> None) = Some 2" by code_simp
  then obtain m w where r: "mmap_open mapped_sys mapped_mm ''a'' 0 2 mapped_world = (Inr m, w)"
    by (auto split: prod.splits sum.splits)
  let ?V = "mapped_view [(''a'', [1, 2, 3, 4, 5, 6, 7])]"
  from mmap_open_correct [OF mapped_law mapped_world_good r] have good: "v_good ?V w" by simp
  from mmap_open_maps_window [OF mapped_law mapped_world_good r]
  have m: "mmap_valid mapped_maps m w" "mmap_bytes mapped_maps m w = [1, 2]" by (auto simp: window_def)
  obtain self' other' w' where mv: "mmap_move_assign mapped_mm mmap_none m w = ((self', other'), w')"
    by (metis prod.exhaust)
  have "mm_map mmap_none = 0 \<or> mm_map mmap_none \<noteq> mm_map m" by (simp add: mmap_none_def)
  from mmap_move_assign_transfers [OF mapped_law good mmap_none_valid m(1) this mv] m(2) r mv
  show ?thesis by auto
qed

text \<open>
  Property C35 (hints stay inside). The kernel is only ever given a range inside the mapping, at a page-aligned
  distance from its start; a request past the end or misaligned is refused without a call. Hints, \<open>drop\<close>
  included, change neither the bytes nor the descriptors.
\<close>

theorem mmap_advise_stays_inside:
  assumes "mapping_law K M V maps" and "v_good V w" and "mmap_valid maps m w"
    and "mmap_advise M adv offset len m w = (r, w')"
  shows "maps w' = maps w \<and> v_fds V w' = v_fds V w \<and>
    (if mmap_empty m then r = Inr () \<and> w' = w
     else if unat (mm_size m) < unat offset then r = Inl (MmapError AdvisePastEnd) \<and> w' = w
     else if offset mod page_size M \<noteq> 0 then r = Inl (MmapError AdviseMisaligned) \<and> w' = w
     else \<exists>l res. mm_madvise M (mm_map m + offset) l (to_madvise adv) w = (res, w') \<and>
       unat offset + unat l \<le> unat (mm_map_length m) \<and>
       (len \<noteq> 0 \<longrightarrow> unat l \<le> unat len) \<and> (len = 0 \<longrightarrow> unat offset + unat l = unat (mm_map_length m)) \<and>
       (r = Inr () \<longleftrightarrow> res = Ret ()))"
proof -
  note laws = mapping_lawD(7) [OF assms(1)]
  have past: "offset > mm_size m \<longleftrightarrow> unat (mm_size m) < unat offset" by (simp add: u64_less_nat)
  show ?thesis
  proof (cases "mmap_empty m \<or> offset > mm_size m \<or> offset mod page_size M \<noteq> 0")
    case True
    with assms(4) past show ?thesis by (auto simp: mmap_advise_def)
  next
    case False
    then have 2: "\<not> mmap_empty m" "\<not> offset > mm_size m" "offset mod page_size M = 0" by simp_all
    let ?l = "if len = 0 \<or> len > mm_size m - offset then mm_size m - offset else len"
    obtain res w1 where c: "mm_madvise M (mm_data m + offset) ?l (to_madvise adv) w = (res, w1)" by (metis prod.exhaust)
    from mapping_madvise [OF laws assms(2) c] have quiet: "maps w1 = maps w" "v_fds V w1 = v_fds V w"
      by (simp_all add: quiet_fds)
    have own: "mm_data m = mm_map m" "mm_map_length m = mm_size m"
      using assms(3) 2(1) by (auto simp: mmap_valid_def mmap_empty_def mmap_none_def split: if_splits)
    have left: "unat (mm_size m - offset) = unat (mm_size m) - unat offset" "unat offset \<le> unat (mm_size m)"
      using unat_minus_u64 [of offset "mm_size m"] 2(2) by (simp_all add: not_less u64_le_nat)
    have l: "unat offset + unat ?l \<le> unat (mm_map_length m)" "len \<noteq> 0 \<longrightarrow> unat ?l \<le> unat len"
      "len = 0 \<longrightarrow> unat offset + unat ?l = unat (mm_map_length m)"
      using left by (auto simp: own not_less u64_le_nat u64_less_nat)
    have "w' = w1 \<and> (r = Inr () \<longleftrightarrow> res = Ret ())"
      using assms(4) 2 c by (cases res) (auto simp: mmap_advise_def Let_def)
    moreover note c [unfolded own(1)]
    ultimately have "\<exists>l res. mm_madvise M (mm_map m + offset) l (to_madvise adv) w = (res, w') \<and>
       unat offset + unat l \<le> unat (mm_map_length m) \<and>
       (len \<noteq> 0 \<longrightarrow> unat l \<le> unat len) \<and> (len = 0 \<longrightarrow> unat offset + unat l = unat (mm_map_length m)) \<and>
       (r = Inr () \<longleftrightarrow> res = Ret ())"
      using l by (intro exI [of _ ?l] exI [of _ res]) simp
    with 2 quiet \<open>w' = w1 \<and> (r = Inr () \<longleftrightarrow> res = Ret ())\<close> show ?thesis unfolding past by simp
  qed
qed

theorem mmap_advise_stays_inside_witness:
  "\<exists>m w w'. mmap_open mapped_sys mapped_mm ''a'' 0 0 mapped_world = (Inr m, w) \<and>
     mmap_advise mapped_mm DontNeed 3 1 m w = (Inl (MmapError AdviseMisaligned), w') \<and> mapped_maps w' = mapped_maps w"
proof -
  have "(case mmap_open mapped_sys mapped_mm ''a'' 0 0 mapped_world of (Inr m, w) \<Rightarrow> Some (mm_size m) | _ \<Rightarrow> None) = Some 7" by code_simp
  then obtain m w where r: "mmap_open mapped_sys mapped_mm ''a'' 0 0 mapped_world = (Inr m, w)" "mm_size m = 7"
    by (auto split: prod.splits sum.splits)
  from mmap_open_correct [OF mapped_law mapped_world_good r(1)]
  have good: "v_good (mapped_view [(''a'', [1, 2, 3, 4, 5, 6, 7])]) w" by simp
  from mmap_open_maps_window [OF mapped_law mapped_world_good r(1)] have valid: "mmap_valid mapped_maps m w" by simp
  obtain res w' where a: "mmap_advise mapped_mm DontNeed 3 1 m w = (res, w')" by (metis prod.exhaust)
  from mmap_advise_stays_inside [OF mapped_law good valid a] r a show ?thesis
    by (simp add: mmap_empty_def page_size_def)
qed

end
