(* ===== verification/BenchRead.thy ===== *)
theory BenchRead
  imports UringStream Reader
begin

text \<open>
  \<open>bench/read_bench.cpp\<close>: the clients that read a file front to back, with one buffer through \<open>File\<close>, and in rounds
  of queued reads through a backend. Google Benchmark is a parameter: the number of iterations of the range loop. A benchmark gives the
  error that it reports by \<open>SkipWithError\<close>, or the bytes that it has processed.
\<close>

section \<open>Definitions\<close>

text \<open>
  The last two stand for behaviour that the language does not define, after which nothing is said: the value of a \<open>size ()\<close>
  that failed is used without looking, and a function is left while reads may be in flight into the buffers that it frees.
\<close>

datatype bench_error =
    BenchFailed error
  | BenchAlloc string
  | BenchErrno int
  | SizeUnchecked error
  | ReadsInFlight bench_error nat

subsection \<open>Sequential reads\<close>

text \<open>One iteration: \<open>pread_exact\<close> into the same buffer until the end of the file.\<close>

partial_function (option) sequential_pass ::
  "'w sys \<Rightarrow> file_t \<Rightarrow> u64 \<Rightarrow> u64 \<Rightarrow> span \<Rightarrow> 'w \<Rightarrow> ((bench_error + u64) \<times> span \<times> 'w) option" where
  "sequential_pass K f size' offset buffer w =
     (if offset < size' then do {
        ((got, buffer'), w') \<leftarrow> file_pread_exact K f offset buffer w;
        (case got of
           Inl e \<Rightarrow> Some (Inl (BenchFailed e), buffer', w')
         | Inr n \<Rightarrow>
             if n = 0 then Some (Inr offset, buffer', w')
             else sequential_pass K f size' (offset + of_nat n) buffer' w')
      } else Some (Inr offset, buffer, w))"

declare sequential_pass.simps [code]

fun sequential_passes ::
  "'w sys \<Rightarrow> file_t \<Rightarrow> u64 \<Rightarrow> nat \<Rightarrow> u64 \<Rightarrow> span \<Rightarrow> 'w \<Rightarrow> ((bench_error + u64) \<times> span \<times> 'w) option" where
  "sequential_passes K f size' 0 bytes buffer w = Some (Inr bytes, buffer, w)"
| "sequential_passes K f size' (Suc n) bytes buffer w = do {
     (r, buffer', w') \<leftarrow> sequential_pass K f size' 0 buffer w;
     (case r of
        Inl e \<Rightarrow> Some (Inl e, buffer', w')
      | Inr offset \<Rightarrow> sequential_passes K f size' n (bytes + offset) buffer' w')
   }"

text \<open>\<open>BM_Sequential\<close>.\<close>

definition bm_sequential ::
  "'w sys \<Rightarrow> string \<Rightarrow> u64 \<Rightarrow> nat \<Rightarrow> 'w \<Rightarrow> ((bench_error + u64) \<times> 'w) option" where
  "bm_sequential K path block iterations w =
     (case file_open K path DirectRead w of
        (Inl e, w1) \<Rightarrow> Some (Inl (BenchFailed e), w1)
      | (Inr f, w1) \<Rightarrow>
          (case fp_alloc K block (file_alignment f) w1 of
             (Inl what, w2) \<Rightarrow> Some (Inl (BenchAlloc what), snd (file_close K f w2))
           | (Inr buffer, w2) \<Rightarrow>
               (case file_size K f w2 of
                  (Inl e, w3) \<Rightarrow> Some (Inl (SizeUnchecked e), w3)
                | (Inr n, w3) \<Rightarrow> do {
                    (r, buffer', w4) \<leftarrow> sequential_passes K f n iterations 0 buffer w3;
                    Some (r, snd (file_close K f w4))
                  })))"

subsection \<open>Queued reads\<close>

definition k_queued_block :: u64 where
  "k_queued_block = 1024 * 1024"

definition round_requests :: "u64 \<Rightarrow> nat \<Rightarrow> u64 \<Rightarrow> span list \<Rightarrow> read_request list" where
  "round_requests block n offset m =
     map (\<lambda>i. \<lparr>rq_offset = offset + of_nat i * block, rq_buf = i, rq_len = span_size (m ! i), rq_token = of_nat i\<rparr>) [0..<n]"

text \<open>
  The loop that reaps until a round is complete; \<open>cs\<close> are the completions so far. An error comes with the
  number of reads that may then still be in flight.
\<close>

partial_function (option) reap_round ::
  "('b, 'w) backend_ops \<Rightarrow> nat \<Rightarrow> completion list \<Rightarrow> 'b \<Rightarrow> span list \<Rightarrow> 'w \<Rightarrow>
     ((bench_error \<times> nat + completion list) \<times> 'b \<times> span list \<times> 'w) option" where
  "reap_round B n cs b m w =
     (if length cs < n then do {
        (got, b', m', w') \<leftarrow> bk_reap B (n - length cs) (n - length cs) b m w;
        (case got of
           Inl e \<Rightarrow> Some (Inl (BenchFailed e, n - length cs), b', m', w')
         | Inr new \<Rightarrow> reap_round B n (cs @ new) b' m' w')
      } else Some (Inr cs, b, m, w))"

declare reap_round.simps [code]

text \<open>
  One round: submit a read into every buffer, reap them all, look for a failed one. A ring whose \<open>submit\<close> fails keeps
  what was queued before, so that up to \<open>n\<close> reads may then be in flight.
\<close>

definition queued_round ::
  "('b, 'w) backend_ops \<Rightarrow> u64 \<Rightarrow> nat \<Rightarrow> u64 \<Rightarrow> 'b \<Rightarrow> span list \<Rightarrow> 'w \<Rightarrow>
     ((bench_error \<times> nat + unit) \<times> 'b \<times> span list \<times> 'w) option" where
  "queued_round B block n offset b m w = do {
     (submitted, b1, m1, w1) \<leftarrow> bk_submit B (round_requests block n offset m) b m w;
     (case submitted of
        Inl e \<Rightarrow> Some (Inl (BenchFailed e, n), b1, m1, w1)
      | Inr _ \<Rightarrow> do {
          (r, b2, m2, w2) \<leftarrow> reap_round B n [] b1 m1 w1;
          (case r of
             Inl e \<Rightarrow> Some (Inl e, b2, m2, w2)
           | Inr cs \<Rightarrow>
               (case find (\<lambda>c. cp_error c \<noteq> 0) cs of
                  Some c \<Rightarrow> Some (Inl (BenchErrno (cp_error c), 0), b2, m2, w2)
                | None \<Rightarrow> Some (Inr (), b2, m2, w2)))
        })
   }"

partial_function (option) queued_pass ::
  "('b, 'w) backend_ops \<Rightarrow> u64 \<Rightarrow> u64 \<Rightarrow> u64 \<Rightarrow> u64 \<Rightarrow> 'b \<Rightarrow> span list \<Rightarrow> 'w \<Rightarrow>
     ((bench_error \<times> nat + u64) \<times> 'b \<times> span list \<times> 'w) option" where
  "queued_pass B block n size' offset b m w =
     (if offset + n * block \<le> size' then do {
        (r, b', m', w') \<leftarrow> queued_round B block (unat n) offset b m w;
        (case r of
           Inl e \<Rightarrow> Some (Inl e, b', m', w')
         | Inr _ \<Rightarrow> queued_pass B block n size' (offset + n * block) b' m' w')
      } else Some (Inr offset, b, m, w))"

declare queued_pass.simps [code]

fun queued_passes ::
  "('b, 'w) backend_ops \<Rightarrow> u64 \<Rightarrow> u64 \<Rightarrow> u64 \<Rightarrow> nat \<Rightarrow> u64 \<Rightarrow> 'b \<Rightarrow> span list \<Rightarrow> 'w \<Rightarrow>
     ((bench_error \<times> nat + u64) \<times> 'b \<times> span list \<times> 'w) option" where
  "queued_passes B block n size' 0 bytes b m w = Some (Inr bytes, b, m, w)"
| "queued_passes B block n size' (Suc k) bytes b m w = do {
     (r, b', m', w') \<leftarrow> queued_pass B block n size' 0 b m w;
     (case r of
        Inl e \<Rightarrow> Some (Inl e, b', m', w')
      | Inr offset \<Rightarrow> queued_passes B block n size' k (bytes + offset) b' m' w')
   }"

text \<open>The loop that allocates the buffers.\<close>

fun queued_buffers ::
  "'w sys \<Rightarrow> u64 \<Rightarrow> u64 \<Rightarrow> nat \<Rightarrow> span list \<Rightarrow> 'w \<Rightarrow> (string + span list) \<times> 'w" where
  "queued_buffers K block alignment 0 m w = (Inr m, w)"
| "queued_buffers K block alignment (Suc n) m w =
     (case fp_alloc K block alignment w of
        (Inl what, w1) \<Rightarrow> (Inl what, w1)
      | (Inr buffer, w1) \<Rightarrow> queued_buffers K block alignment n (m @ [buffer]) w1)"

text \<open>
  The end of the function with nothing in flight: the buffers are destroyed before the backend, and the backend before
  the file.
\<close>

definition queued_close ::
  "'w sys \<Rightarrow> ('b, 'w) backend_ops \<Rightarrow> file_t \<Rightarrow> 'b \<Rightarrow> 'w \<Rightarrow> 'w option" where
  "queued_close K B f b w = do {
     (m, w') \<leftarrow> bk_destroy B b [] w;
     Some (snd (file_close K f w'))
   }"

text \<open>
  \<open>BM_QueuedImpl\<close>. The template parameter chooses the backend \<open>B\<close>: that of \<open>open_thread_backend\<close> or that of
  \<open>open_backend\<close>. The size of a block is an argument, \<open>k_queued_block\<close> in the program.
\<close>

definition bm_queued ::
  "'w sys \<Rightarrow> ('b, 'w) backend_ops \<Rightarrow> u64 \<Rightarrow> string \<Rightarrow> u64 \<Rightarrow> nat \<Rightarrow> 'w \<Rightarrow> ((bench_error + u64) \<times> 'w) option" where
  "bm_queued K B block path n iterations w =
     (case file_open K path DirectRead w of
        (Inl e, w1) \<Rightarrow> Some (Inl (BenchFailed e), w1)
      | (Inr f, w1) \<Rightarrow>
          (case bk_open B (file_fd f) \<lparr>bo_queue_depth = n, bo_threads = 2\<rparr> w1 of
             (Inl e, w2) \<Rightarrow> Some (Inl (BenchFailed e), snd (file_close K f w2))
           | (Inr b, w2) \<Rightarrow>
               (case file_size K f w2 of
                  (Inl e, w3) \<Rightarrow> Some (Inl (SizeUnchecked e), w3)
                | (Inr size', w3) \<Rightarrow>
                    (case queued_buffers K block (file_alignment f) (unat n) [] w3 of
                       (Inl what, w4) \<Rightarrow> do {
                         w5 \<leftarrow> queued_close K B f b w4;
                         Some (Inl (BenchAlloc what), w5)
                       }
                     | (Inr m, w4) \<Rightarrow> do {
                         (r, b', m', w5) \<leftarrow> queued_passes B block n size' iterations 0 b m w4;
                         (case r of
                            Inl (e, pending) \<Rightarrow>
                              if pending > 0 then Some (Inl (ReadsInFlight e pending), w5)
                              else do {
                                w6 \<leftarrow> queued_close K B f b' w5;
                                Some (Inl e, w6)
                              }
                          | Inr bytes \<Rightarrow> do {
                              w6 \<leftarrow> queued_close K B f b' w5;
                              Some (Inr bytes, w6)
                            })
                       }))))"

section \<open>A round on any backend\<close>

text \<open>No read is in flight after a success, and after an error that says so.\<close>

definition settled :: "'e \<times> nat + 'a \<Rightarrow> bool" where
  "settled r \<longleftrightarrow> (case r of Inl (e, pending) \<Rightarrow> pending = 0 | Inr _ \<Rightarrow> True)"

lemma settled_simps [simp]: "settled (Inr a)" "settled (Inl (e, k)) \<longleftrightarrow> k = 0"
  by (simp_all add: settled_def)

context async_backend
begin

text \<open>
  Reaping a round: \<open>rs\<close> are the requests of the round, \<open>ps\<close> those that have completed, with \<open>cs\<close>.
\<close>

lemma reap_round_correct:
  assumes "binv fd c b m w" and "list_all2 (completes c m) ps cs" and "mset rs = mset ps + mset (pend b)"
    and "distinct (map rq_buf rs)" and "list_all (request_fits m) rs"
  shows "\<exists>r b' m' w'. reap_round ops (length rs) cs b m w = Some (r, b', m', w') \<and> ok w' \<and> fds w' = fds w \<and>
    frame (bufs_of rs) m m' \<and>
    (case r of
       Inl (e, k) \<Rightarrow> 0 < k
     | Inr cs' \<Rightarrow> binv fd c b' m' w' \<and> pend b' = [] \<and> depth b' = depth b \<and>
         (\<exists>ps'. mset ps' = mset rs \<and> list_all2 (completes c m') ps' cs'))"
  using assms
proof (induction "length rs - length cs" arbitrary: ps cs b m w rule: less_induct)
  case less
  have count: "length rs = length cs + length (pend b)"
    using arg_cong [OF less.prems(3), of size] list_all2_lengthD [OF less.prems(2)] by simp
  show ?case
  proof (cases "length cs < length rs")
    case False
    then have "pend b = []" using count by simp
    moreover have "reap_round ops (length rs) cs b m w = Some (Inr cs, b, m, w)"
      using False by (subst reap_round.simps) simp
    ultimately show ?thesis using less.prems binv_ok [OF less.prems(1)] by auto
  next
    case True
    let ?k = "length rs - length cs"
    from reap_law [OF less.prems(1), of ?k ?k] obtain r1 b1 m1 w1 where
      r1: "bk_reap ops ?k ?k b m w = Some (r1, b1, m1, w1)" "ok w1" "fds w1 = fds w" "frame (bufs_of (pend b)) m m1"
      and got: "\<forall>new. r1 = Inr new \<longrightarrow> length new \<le> ?k \<and> min 1 (min ?k (min ?k (length (pend b)))) \<le> length new \<and>
           depth b1 = depth b \<and> binv fd c b1 m1 w1 \<and>
           (\<exists>qs. mset (pend b) = mset qs + mset (pend b1) \<and> list_all2 (completes c m1) qs new)" by blast
    have "set (pend b) \<subseteq> set rs"
      using mset_eq_setD [of rs "ps @ pend b"] less.prems(3) by simp
    then have sub: "bufs_of (pend b) \<subseteq> bufs_of rs" by (auto simp: bufs_of_def)
    show ?thesis
    proof (cases r1)
      case (Inl e)
      then have "reap_round ops (length rs) cs b m w = Some (Inl (BenchFailed e, ?k), b1, m1, w1)"
        using True r1(1) by (subst reap_round.simps) simp
      then show ?thesis using r1 frame_mono [OF r1(4) sub] True by simp
    next
      case (Inr new)
      with got obtain qs where new: "min 1 (min ?k (min ?k (length (pend b)))) \<le> length new" "depth b1 = depth b"
        "binv fd c b1 m1 w1" "mset (pend b) = mset qs + mset (pend b1)" "list_all2 (completes c m1) qs new" by blast
      have some: "0 < length new" using new(1) True count by (cases new) simp_all
      have all: "mset rs = mset (ps @ qs) + mset (pend b1)" using less.prems(3) new(4) by simp
      have d: "distinct (map rq_buf (ps @ pend b))"
        using mset_eq_imp_distinct_iff [of "map rq_buf rs" "map rq_buf (ps @ pend b)"] less.prems(3,4) by simp
      then have apart: "bufs_of ps \<inter> bufs_of (pend b) = {}" by (auto simp: bufs_of_def)
      have "set ps \<subseteq> set rs" using mset_eq_setD [of rs "ps @ pend b"] less.prems(3) by simp
      then have inm: "\<forall>p \<in> set ps. rq_buf p < length m"
        using less.prems(5) by (auto simp: list_all_iff request_fits_def)
      have acc1: "list_all2 (completes c m1) (ps @ qs) (cs @ new)"
        using completes_list_frame [OF less.prems(2) r1(4) apart inm] new(5) by (rule list_all2_appendI)
      have fits: "list_all (request_fits m1) rs"
        using less.prems(5) request_fits_frame [OF _ r1(4)] by (auto simp: list_all_iff)
      have "length rs - length (cs @ new) < length rs - length cs"
        unfolding length_append using some True by (intro diff_less_mono2) linarith+
      from less.hyps [OF this new(3) acc1 all less.prems(4) fits] obtain r b' m' w' where
        ih: "reap_round ops (length rs) (cs @ new) b1 m1 w1 = Some (r, b', m', w')" "ok w'" "fds w' = fds w1"
          "frame (bufs_of rs) m1 m'"
        and post: "case r of Inl (e, k) \<Rightarrow> 0 < k
          | Inr cs' \<Rightarrow> binv fd c b' m' w' \<and> pend b' = [] \<and> depth b' = depth b1 \<and>
              (\<exists>ps'. mset ps' = mset rs \<and> list_all2 (completes c m') ps' cs')" by blast
      have "reap_round ops (length rs) cs b m w = Some (r, b', m', w')"
        using True r1(1) Inr ih(1) by (subst reap_round.simps) simp
      moreover have "frame (bufs_of rs) m m'" by (rule frame_trans [OF r1(4) ih(4) sub order_refl])
      ultimately show ?thesis using ih(2,3) r1(3) post unfolding new(2) by simp
    qed
  qed
qed

text \<open>
  A round starts and ends with nothing in flight. Without an error every buffer holds its block of the file.
\<close>

lemma queued_round_correct:
  assumes inv: "binv fd c b m w" and idle: "pend b = []" and n: "n \<le> length m" and pos: "0 < n"
    and len: "\<forall>i < n. len_ok (span_size (m ! i))"
  shows "\<exists>r b' m' w'. queued_round ops block n off b m w = Some (r, b', m', w') \<and> ok w' \<and> fds w' = fds w \<and>
    frame {0..<n} m m' \<and> (settled r \<longrightarrow> binv fd c b' m' w' \<and> pend b' = []) \<and>
    (r = Inr () \<longrightarrow> depth b' = depth b \<and> n \<le> depth b \<and>
       (\<forall>i < n. let k = min (span_size (m ! i)) (length c - unat (off + of_nat i * block)) in
          take k (sp_bytes (m' ! i)) = window (unat (off + of_nat i * block)) k c))"
proof -
  let ?rs = "round_requests block n off m"
  have rs: "map rq_buf ?rs = [0..<n]" "bufs_of ?rs = {0..<n}" "length ?rs = n"
    by (simp_all add: round_requests_def bufs_of_def comp_def image_image)
  have fits: "list_all (request_fits m) ?rs" using n by (auto simp: round_requests_def list_all_iff request_fits_def)
  have lens: "list_all (\<lambda>r. len_ok (rq_len r)) ?rs" using len by (auto simp: round_requests_def list_all_iff)
  have dist: "distinct (map rq_buf ?rs)" by (simp add: rs)
  have apart: "bufs_of ?rs \<inter> bufs_of (pend b) = {}" by (simp add: idle bufs_of_def)
  from submit_law [OF inv dist apart fits lens] obtain r1 b1 m1 w1 where
    s: "bk_submit ops ?rs b m w = Some (r1, b1, m1, w1)" "ok w1" "fds w1 = fds w"
      "frame (bufs_of (pend b) \<union> bufs_of ?rs) m m1"
      "depth b < length (pend b) + length ?rs \<longrightarrow> r1 \<noteq> Inr ()"
    and acc: "r1 = Inr () \<longrightarrow> mset (pend b1) = mset (pend b) + mset ?rs \<and> depth b1 = depth b \<and> binv fd c b1 m1 w1" by blast
  have none: "bufs_of (pend b) = {}" by (simp add: idle bufs_of_def)
  have fr1: "frame {0..<n} m m1" using s(4) unfolding none rs(2) by simp
  show ?thesis
  proof (cases r1)
    case (Inl e)
    with s fr1 pos show ?thesis by (simp add: queued_round_def)
  next
    case (Inr u)
    with acc idle have a: "mset ?rs = mset [] + mset (pend b1)" "depth b1 = depth b" "binv fd c b1 m1 w1" by simp_all
    have fits1: "list_all (request_fits m1) ?rs"
      using fits request_fits_frame [OF _ fr1] by (auto simp: list_all_iff)
    from reap_round_correct [OF a(3) list_all2_Nil [THEN iffD2, OF refl] a(1) dist fits1] obtain r2 b2 m2 w2 where
      r: "reap_round ops n [] b1 m1 w1 = Some (r2, b2, m2, w2)" "ok w2" "fds w2 = fds w1" "frame {0..<n} m1 m2"
      and post: "case r2 of Inl (e, k) \<Rightarrow> 0 < k
        | Inr cs \<Rightarrow> binv fd c b2 m2 w2 \<and> pend b2 = [] \<and> depth b2 = depth b1 \<and>
            (\<exists>ps. mset ps = mset ?rs \<and> list_all2 (completes c m2) ps cs)" unfolding rs by blast
    have fr: "frame {0..<n} m m2" by (rule frame_trans [OF fr1 r(4) order_refl order_refl])
    show ?thesis
    proof (cases r2)
      case (Inl e)
      with s r Inr fr post show ?thesis by (cases e) (simp add: queued_round_def)
    next
      case cs: (Inr cs)
      with post obtain ps where ps: "binv fd c b2 m2 w2" "pend b2 = []" "depth b2 = depth b"
        "mset ps = mset ?rs" "list_all2 (completes c m2) ps cs" using a(2) by auto
      show ?thesis
      proof (cases "find (\<lambda>c. cp_error c \<noteq> 0) cs")
        case (Some e)
        with s r Inr cs fr ps(1,2) show ?thesis by (simp add: queued_round_def)
      next
        case None
        have blocks: "take k (sp_bytes (m2 ! i)) = window (unat (off + of_nat i * block)) k c"
          if i: "i < n" and k: "k = min (span_size (m ! i)) (length c - unat (off + of_nat i * block))" for i k
        proof -
          let ?r = "\<lparr>rq_offset = off + of_nat i * block, rq_buf = i, rq_len = span_size (m ! i), rq_token = of_nat i\<rparr>"
          have "?r \<in> set ?rs" using i by (simp add: round_requests_def)
          then have "?r \<in> set ps" using mset_eq_setD [OF ps(4)] by simp
          then obtain j where j: "j < length ps" "ps ! j = ?r" by (auto simp: in_set_conv_nth)
          have c: "completes c m2 ?r (cs ! j)" "j < length cs"
            using list_all2_nthD [OF ps(5) j(1)] list_all2_lengthD [OF ps(5)] j by simp_all
          then have "cp_error (cs ! j) = 0" using None by (auto simp: find_None_iff)
          with c(1) k show ?thesis by (auto simp: completes_def)
        qed
        have "n \<le> depth b" using s(5) Inr idle rs(3) by (cases "depth b < n") auto
        with s r Inr cs None fr ps(1-3) blocks show ?thesis
          by (simp add: queued_round_def Let_def)
      qed
    qed
  qed
qed

end

section \<open>The loops over rounds\<close>

text \<open>The largest multiple of a step that fits: one step, and what fits after it.\<close>

lemma whole_steps:
  "0 < S \<Longrightarrow> S \<le> (d :: nat) \<Longrightarrow> d div S * S = S + (d - S) div S * S"
  by (simp add: le_div_geq)

text \<open>The offsets of a pass do not wrap.\<close>

definition steps_fit :: "u64 \<Rightarrow> u64 \<Rightarrow> u64 \<Rightarrow> bool" where
  "steps_fit block n size' \<longleftrightarrow> 0 < unat n * unat block \<and> unat size' + unat n * unat block < 2 ^ 64"

lemma steps_fit_step:
  assumes "steps_fit block n size'" and "unat off \<le> unat size'"
  shows "unat (off + n * block) = unat off + unat n * unat block"
proof -
  have "unat (n * block) = unat n * unat block"
    using assms(1) unat_mult_lem [of n block] by (simp add: steps_fit_def)
  then show ?thesis using assms by (simp add: steps_fit_def unat_plus_u64)
qed

context async_backend
begin

lemma queued_pass_correct:
  assumes fit: "steps_fit block n size'"
  shows "binv fd c b m w \<Longrightarrow> pend b = [] \<Longrightarrow> unat n \<le> length m \<Longrightarrow>
    \<forall>i < unat n. len_ok (span_size (m ! i)) \<Longrightarrow> unat off \<le> unat size' \<Longrightarrow>
    \<exists>r b' m' w'. queued_pass ops block n size' off b m w = Some (r, b', m', w') \<and> ok w' \<and> fds w' = fds w \<and>
      frame {0..<unat n} m m' \<and>
      (settled r \<longrightarrow> binv fd c b' m' w' \<and> pend b' = []) \<and>
      (\<forall>off'. r = Inr off' \<longrightarrow>
         unat off' = unat off + (unat size' - unat off) div (unat n * unat block) * (unat n * unat block))"
proof (induction "unat size' - unat off" arbitrary: off b m w rule: less_induct)
  case less
  let ?S = "unat n * unat block"
  have S: "0 < ?S" using fit by (simp add: steps_fit_def)
  note step = steps_fit_step [OF fit less.prems(5)]
  show ?case
  proof (cases "off + n * block \<le> size'")
    case False
    then have "unat size' - unat off < ?S" using step less.prems(5) by (simp add: u64_le_nat)
    then have "(unat size' - unat off) div ?S * ?S = 0" by simp
    moreover have "queued_pass ops block n size' off b m w = Some (Inr off, b, m, w)"
      using False by (subst queued_pass.simps) simp
    ultimately show ?thesis using less.prems binv_ok [OF less.prems(1)] by auto
  next
    case True
    then have le: "unat off + ?S \<le> unat size'" using step by (simp add: u64_le_nat)
    have pos: "0 < unat n" using S by simp
    from queued_round_correct [OF less.prems(1-3) pos less.prems(4), of block off] obtain r1 b1 m1 w1 where
      r1: "queued_round ops block (unat n) off b m w = Some (r1, b1, m1, w1)" "ok w1" "fds w1 = fds w"
        "frame {0..<unat n} m m1"
      and ok1: "settled r1 \<longrightarrow> binv fd c b1 m1 w1 \<and> pend b1 = []" by blast
    show ?thesis
    proof (cases r1)
      case (Inl e)
      then have "queued_pass ops block n size' off b m w = Some (Inl e, b1, m1, w1)"
        using True r1(1) by (subst queued_pass.simps) simp
      then show ?thesis using r1 ok1 Inl by (simp add: settled_def)
    next
      case (Inr u)
      with ok1 have inv1: "binv fd c b1 m1 w1" "pend b1 = []" by simp_all
      have len1: "unat n \<le> length m1" using less.prems(3) frame_length [OF r1(4)] by simp
      have lens1: "\<forall>i < unat n. len_ok (span_size (m1 ! i))"
        using less.prems(3,4) frame_size [OF r1(4)] by simp
      have lt: "unat size' - unat (off + n * block) < unat size' - unat off" unfolding step using S le by linarith
      have le': "unat (off + n * block) \<le> unat size'" unfolding step by (rule le)
      from less.hyps [OF lt inv1 len1 lens1 le'] obtain r b' m' w' where
        ih: "queued_pass ops block n size' (off + n * block) b1 m1 w1 = Some (r, b', m', w')" "ok w'" "fds w' = fds w1"
          "frame {0..<unat n} m1 m'" "settled r \<longrightarrow> binv fd c b' m' w' \<and> pend b' = []"
        and post: "\<forall>off'. r = Inr off' \<longrightarrow>
          unat off' = unat off + ?S + (unat size' - (unat off + ?S)) div ?S * ?S"
        unfolding step by blast
      have "queued_pass ops block n size' off b m w = Some (r, b', m', w')"
        using True r1(1) Inr ih(1) by (subst queued_pass.simps) simp
      moreover have "unat off + ?S + (unat size' - (unat off + ?S)) div ?S * ?S =
          unat off + (unat size' - unat off) div ?S * ?S"
        using whole_steps [OF S, of "unat size' - unat off"] le by simp
      moreover have "frame {0..<unat n} m m'" by (rule frame_trans [OF r1(4) ih(4) order_refl order_refl])
      ultimately show ?thesis using ih(2,3,5) r1(3) post by simp
    qed
  qed
qed

lemma queued_passes_correct:
  assumes fit: "steps_fit block n size'" and each: "each = unat size' div (unat n * unat block) * (unat n * unat block)"
  shows "binv fd c b m w \<Longrightarrow> pend b = [] \<Longrightarrow> unat n \<le> length m \<Longrightarrow> \<forall>i < unat n. len_ok (span_size (m ! i)) \<Longrightarrow>
    \<exists>r b' m' w'. queued_passes ops block n size' k bytes b m w = Some (r, b', m', w') \<and> ok w' \<and> fds w' = fds w \<and>
      (settled r \<longrightarrow> binv fd c b' m' w' \<and> pend b' = []) \<and>
      (\<forall>bytes'. r = Inr bytes' \<longrightarrow> bytes' = bytes + of_nat (k * each))"
proof (induction k arbitrary: bytes b m w)
  case 0
  then show ?case using binv_ok by simp
next
  case (Suc k)
  from queued_pass_correct [OF fit Suc.prems, of 0] obtain r1 b1 m1 w1 where
    r1: "queued_pass ops block n size' 0 b m w = Some (r1, b1, m1, w1)" "ok w1" "fds w1 = fds w" "frame {0..<unat n} m m1"
    and ok1: "settled r1 \<longrightarrow> binv fd c b1 m1 w1 \<and> pend b1 = []" and off1: "\<forall>off. r1 = Inr off \<longrightarrow> unat off = each"
    unfolding each by auto
  show ?case
  proof (cases r1)
    case (Inl e)
    with r1 ok1 show ?thesis by (simp add: settled_def)
  next
    case (Inr off)
    with ok1 off1 have inv1: "binv fd c b1 m1 w1" "pend b1 = []" and off: "unat off = each" by simp_all
    have len1: "unat n \<le> length m1" using Suc.prems(3) frame_length [OF r1(4)] by simp
    have lens1: "\<forall>i < unat n. len_ok (span_size (m1 ! i))" using Suc.prems(3,4) frame_size [OF r1(4)] by simp
    from Suc.IH [OF inv1 len1 lens1, of "bytes + off"] obtain r b' m' w' where
      ih: "queued_passes ops block n size' k (bytes + off) b1 m1 w1 = Some (r, b', m', w')" "ok w'" "fds w' = fds w1"
        "settled r \<longrightarrow> binv fd c b' m' w' \<and> pend b' = []"
      and post: "\<forall>bytes'. r = Inr bytes' \<longrightarrow> bytes' = bytes + off + of_nat (k * each)" by blast
    have "off = of_nat each" using arg_cong [OF off, of "of_nat :: nat \<Rightarrow> u64"] by simp
    then have "bytes + off + of_nat (k * each) = bytes + of_nat (Suc k * each)" by simp
    with post have "\<forall>bytes'. r = Inr bytes' \<longrightarrow> bytes' = bytes + of_nat (Suc k * each)" by (simp only:)
    moreover have "queued_passes ops block n size' (Suc k) bytes b m w = Some (r, b', m', w')"
      using r1(1) Inr ih(1) by simp
    ultimately show ?thesis using r1(3) ih(2-4) by (intro exI conjI) (simp_all only:)
  qed
qed

text \<open>Closing with nothing in flight.\<close>

lemma queued_close_correct:
  assumes "binv fd c b m w" and "pend b = []"
  shows "\<exists>v. queued_close K ops f b w = Some (snd (file_close K f v)) \<and> ok v \<and> fds v = fds w"
proof -
  from destroy_law [OF binv_other [OF assms(1) binv_ok [OF assms(1)] refl disjI2 [OF assms(2)], of "[]"]] obtain m' v where
    v: "bk_destroy ops b [] w = Some (m', v)" "ok v" "fds v = fds w" by blast
  then have "queued_close K ops f b w = Some (snd (file_close K f v))" by (simp add: queued_close_def)
  with v show ?thesis by blast
qed

end


section \<open>The sequential benchmark\<close>

lemma sequential_pass_correct:
  assumes law: "files_law K V" and size': "unat size' = length c"
  shows "reads_from V f c w \<Longrightarrow> 0 < span_size buffer \<Longrightarrow> unat off \<le> length c \<Longrightarrow>
    \<exists>r buffer' w'. sequential_pass K f size' off buffer w = Some (r, buffer', w') \<and> quiet V w w' \<and>
      span_size buffer' = span_size buffer \<and> (\<forall>off'. r = Inr off' \<longrightarrow> unat off' = length c)"
proof (induction "length c - unat off" arbitrary: off buffer w rule: less_induct)
  case less
  note rd = less.prems(1)
  show ?case
  proof (cases "off < size'")
    case False
    then have "sequential_pass K f size' off buffer w = Some (Inr off, buffer, w)"
      by (subst sequential_pass.simps) simp
    moreover have "unat off = length c" using False less.prems(3) size' by (simp add: word_less_nat_alt)
    moreover have "quiet V w w" using rd by (simp add: quiet_def reads_from_def)
    ultimately show ?thesis by simp
  next
    case True
    then have room: "unat off < length c" using size' by (simp add: word_less_nat_alt)
    obtain got buffer1 w1 where p: "file_pread_exact K f off buffer w = Some ((got, buffer1), w1)" "quiet V w w1"
        "span_size buffer1 = span_size buffer"
      and n: "\<forall>n. got = Inr n \<longrightarrow> n = min (span_size buffer) (length c - unat off)"
      using file_pread_exact_correct [OF read_law_files [OF law] rd, of off buffer] by blast
    show ?thesis
    proof (cases got)
      case (Inl e)
      then have "sequential_pass K f size' off buffer w = Some (Inl (BenchFailed e), buffer1, w1)"
        using True p(1) by (subst sequential_pass.simps) simp
      with p show ?thesis by simp
    next
      case (Inr n)
      have n': "0 < n" "unat off + n \<le> length c"
        using n Inr room less.prems(2) by simp_all
      then have next_off: "unat (off + of_nat n) = unat off + n"
        using size' unsigned_less [of size', where ?'a = nat] by (simp add: unat_plus_u64 unat_of_nat take_bit_nat_eq_self_iff)
      have "length c - unat (off + of_nat n) < length c - unat off" unfolding next_off using n' room by linarith
      moreover have "unat (off + of_nat n) \<le> length c" unfolding next_off by (rule n'(2))
      ultimately obtain r buffer2 w2 where
        "sequential_pass K f size' (off + of_nat n) buffer1 w1 = Some (r, buffer2, w2)" "quiet V w1 w2"
          "span_size buffer2 = span_size buffer" "\<forall>off'. r = Inr off' \<longrightarrow> unat off' = length c"
        using less.hyps [OF _ reads_from_quiet [OF rd p(2)], of "off + of_nat n" buffer1] less.prems(2) p(3) by auto
      moreover have "sequential_pass K f size' off buffer w = sequential_pass K f size' (off + of_nat n) buffer1 w1"
        using True p(1) Inr n'(1) by (subst sequential_pass.simps) simp
      ultimately show ?thesis using quiet_trans [OF p(2)] by simp
    qed
  qed
qed

lemma sequential_passes_correct:
  assumes law: "files_law K V" and size': "unat size' = length c"
  shows "reads_from V f c w \<Longrightarrow> 0 < span_size buffer \<Longrightarrow>
    \<exists>r buffer' w'. sequential_passes K f size' k bytes buffer w = Some (r, buffer', w') \<and> quiet V w w' \<and>
      (\<forall>bytes'. r = Inr bytes' \<longrightarrow> bytes' = bytes + of_nat (k * length c))"
proof (induction k arbitrary: bytes buffer w)
  case 0
  then show ?case by (simp add: quiet_def reads_from_def)
next
  case (Suc k)
  from sequential_pass_correct [OF law size' Suc.prems, of 0] obtain r1 buffer1 w1 where
    r1: "sequential_pass K f size' 0 buffer w = Some (r1, buffer1, w1)" "quiet V w w1"
      "span_size buffer1 = span_size buffer"
    and off1: "\<forall>off. r1 = Inr off \<longrightarrow> unat off = length c" by auto
  show ?case
  proof (cases r1)
    case (Inl e)
    with r1 show ?thesis by simp
  next
    case (Inr off)
    then have "unat off = length c" using off1 by simp
    from arg_cong [OF this, of "of_nat :: nat \<Rightarrow> u64"] have "off = of_nat (length c)" by simp
    then have next_bytes: "bytes + off + of_nat (k * length c) = bytes + of_nat (Suc k * length c)" by simp
    have "0 < span_size buffer1" using Suc.prems(2) r1(3) by simp
    from Suc.IH [OF reads_from_quiet [OF Suc.prems(1) r1(2)] this, of "bytes + off", unfolded next_bytes]
    show ?thesis using r1(1,2) Inr quiet_trans [OF r1(2)] by fastforce
  qed
qed

text \<open>
  \<open>BM_Sequential\<close> always returns. It gives its descriptor back, unless it used the value of a \<open>size ()\<close> that failed, and it
  counts the file once for each iteration.
\<close>

lemma bm_sequential_correct:
  assumes law: "files_law K V" and good: "v_good V w" and block: "block \<noteq> 0"
  shows "\<exists>r w'. bm_sequential K path block k w = Some (r, w') \<and>
    (case r of
       Inl (SizeUnchecked e) \<Rightarrow> True
     | Inl e \<Rightarrow> v_fds V w' = v_fds V w
     | Inr bytes \<Rightarrow> v_fds V w' = v_fds V w \<and> (\<exists>c. v_files V path = Some c \<and> bytes = of_nat (k * length c)))"
proof -
  obtain r1 w1 where o: "file_open K path DirectRead w = (r1, w1)" by (metis prod.exhaust)
  from file_open_correct [OF law good disjI2 [OF refl] o] show ?thesis
  proof (elim disjE exE conjE)
    fix e assume "r1 = Inl e" "quiet V w w1"
    with o show ?thesis by (simp add: bm_sequential_def quiet_fds)
  next
    fix f c assume f: "r1 = Inr f" and c: "v_files V path = Some c" and rd1: "reads_from V f c w1"
      and fds: "v_fds V w (file_fd f) = None" "v_fds V w1 = (v_fds V w)(file_fd f \<mapsto> c)"
    have close: "v_fds V (snd (file_close K f v)) = v_fds V w" if "quiet V w1 v" for v
      using file_close_opened [OF law reads_from_quiet [OF rd1 that] fds(1)] fds(2) quiet_fds [OF that] by simp
    obtain a w2 where a: "fp_alloc K block (file_alignment f) w1 = (a, w2)" by (metis prod.exhaust)
    from alloc_lawD [OF files_lawD(6) [OF law] reads_from_good [OF rd1] a]
    have al: "quiet V w1 w2" "\<forall>s. a = Inr s \<longrightarrow> unat block \<le> span_size s" by simp_all
    show ?thesis
    proof (cases a)
      case (Inl what)
      with o f a close [OF al(1)] show ?thesis by (simp add: bm_sequential_def)
    next
      case (Inr buffer)
      have rd2: "reads_from V f c w2" by (rule reads_from_quiet [OF rd1 al(1)])
      obtain sz w3 where sz: "file_size K f w2 = (sz, w3)" by (metis prod.exhaust)
      have q3: "quiet V w2 w3" by (rule file_size_correct(1) [OF law rd2 sz])
      show ?thesis
      proof (cases sz)
        case (Inl e)
        with o f a Inr sz show ?thesis by (simp add: bm_sequential_def)
      next
        case n: (Inr n)
        have size': "unat n = length c" by (rule file_size_correct(2) [OF law rd2 sz n])
        have "0 < unat block" using block by (simp add: unat_gt_0)
        moreover have "unat block \<le> span_size buffer" using al(2) Inr by simp
        ultimately have "0 < span_size buffer" by linarith
        from sequential_passes_correct [OF law size' reads_from_quiet [OF rd2 q3] this, of k 0]
        obtain r buffer' w4 where r: "sequential_passes K f n k 0 buffer w3 = Some (r, buffer', w4)" "quiet V w3 w4"
          "\<forall>bytes'. r = Inr bytes' \<longrightarrow> bytes' = of_nat (k * length c)" by auto
        have cl: "v_fds V (snd (file_close K f w4)) = v_fds V w"
          by (rule close [OF quiet_trans [OF al(1) quiet_trans [OF q3 r(2)]]])
        have call: "bm_sequential K path block k w = Some (r, snd (file_close K f w4))"
          using o f a Inr sz n r(1) by (simp add: bm_sequential_def)
        show ?thesis
          using cl c r(3) unfolding call by (cases r) (auto split: bench_error.splits)
      qed
    qed
  qed
qed

section \<open>The queued benchmark\<close>

lemma queued_buffers_correct:
  assumes law: "files_law K V" and fits: "\<And>v s v'. v_good V v \<Longrightarrow> fp_alloc K block a v = (Inr s, v') \<Longrightarrow> P (span_size s)"
  shows "v_good V w \<Longrightarrow> \<forall>s \<in> set m. P (span_size s) \<Longrightarrow> queued_buffers K block a n m w = (r, w') \<Longrightarrow>
    quiet V w w' \<and> (\<forall>m'. r = Inr m' \<longrightarrow> length m' = length m + n \<and> (\<forall>s \<in> set m'. P (span_size s)))"
proof (induction n arbitrary: m w)
  case 0
  then show ?case by (auto simp: quiet_def)
next
  case (Suc n)
  obtain b w1 where b: "fp_alloc K block a w = (b, w1)" by (metis prod.exhaust)
  have q: "quiet V w w1" using alloc_lawD [OF files_lawD(6) [OF law] Suc.prems(1) b] by simp
  show ?case
  proof (cases b)
    case (Inl what)
    with Suc.prems(3) b q show ?thesis by auto
  next
    case (Inr s)
    have "\<forall>s \<in> set (m @ [s]). P (span_size s)" using Suc.prems(2) fits [OF Suc.prems(1)] b Inr by simp
    from Suc.IH [OF quiet_good [OF q] this] Suc.prems(3) b Inr q show ?thesis
      by (auto intro: quiet_trans)
  qed
qed


context shard_reader
begin

text \<open>
  \<open>BM_QueuedImpl\<close> over any backend. It always returns, it gives its descriptor back unless it runs into one of the two
  kinds of undefined behaviour, and it counts the whole rounds of the file.
\<close>

lemma bm_queued_correct:
  assumes okw: "ok w" and rounds: "0 < unat n * unat block" "unat n * unat block < 2 ^ 63"
    and fits: "\<And>v a s v'. v_good V v \<Longrightarrow> fp_alloc K block a v = (Inr s, v') \<Longrightarrow> len_ok (span_size s)"
  shows "\<exists>r w'. bm_queued K ops block path n k w = Some (r, w') \<and>
    (case r of
       Inl (SizeUnchecked e) \<Rightarrow> True
     | Inl (ReadsInFlight e pending) \<Rightarrow> True
     | Inl e \<Rightarrow> v_fds V w' = v_fds V w
     | Inr bytes \<Rightarrow> v_fds V w' = v_fds V w \<and>
         (\<exists>c. v_files V path = Some c \<and>
            bytes = of_nat (k * (length c div (unat n * unat block) * (unat n * unat block)))))"
proof -
  let ?S = "unat n * unat block"
  have law: "files_law K V" and good: "v_good V w" using ok_world [OF okw] by simp_all
  obtain r1 w1 where o: "file_open K path DirectRead w = (r1, w1)" by (metis prod.exhaust)
  from file_open_correct [OF law good disjI2 [OF refl] o] show ?thesis
  proof (elim disjE exE conjE)
    fix e assume "r1 = Inl e" "quiet V w w1"
    with o show ?thesis by (simp add: bm_queued_def quiet_fds)
  next
    fix f c assume f: "r1 = Inr f" and c: "v_files V path = Some c" and rd1: "reads_from V f c w1"
      and fds1: "v_fds V w (file_fd f) = None" "v_fds V w1 = (v_fds V w)(file_fd f \<mapsto> c)"
    have reads: "reads_from V f c v" if "ok v" "v_fds V v = v_fds V w1" for v
      using rd1 that ok_world [OF that(1)] by (simp add: reads_from_def)
    have close: "v_fds V (snd (file_close K f v)) = v_fds V w" if "ok v" "v_fds V v = v_fds V w1" for v
      using file_close_opened [OF law reads [OF that] fds1(1)] fds1(2) that(2) by simp
    obtain rb w2 where b: "bk_open ops (file_fd f) \<lparr>bo_queue_depth = n, bo_threads = 2\<rparr> w1 = (rb, w2)"
      by (metis prod.exhaust)
    have fd: "0 \<le> file_fd f" "fds w1 (file_fd f) = Some c" using rd1 by (simp_all add: reads_from_def fds_view)
    have ok1: "ok w1" by (rule ok_quiet [OF okw reads_from_good [OF rd1]])
    note bo = open_law [OF ok1 fd b]
    have w2: "ok w2" "v_fds V w2 = v_fds V w1" using bo by (simp_all add: fds_view)
    show ?thesis
    proof (cases rb)
      case (Inl e)
      with o f b close [OF w2] show ?thesis by (simp add: bm_queued_def)
    next
      case (Inr be)
      obtain sz w3 where sz: "file_size K f w2 = (sz, w3)" by (metis prod.exhaust)
      have q3: "quiet V w2 w3" by (rule file_size_correct(1) [OF law reads [OF w2] sz])
      show ?thesis
      proof (cases sz)
        case (Inl e)
        with o f b Inr sz show ?thesis by (simp add: bm_queued_def)
      next
        case n: (Inr size')
        have size': "unat size' = length c" by (rule file_size_correct(2) [OF law reads [OF w2] sz n])
        have "length c < 2 ^ 63" by (rule reads_from_size [OF read_law_files [OF law] rd1])
        then have fit: "steps_fit block n size'" using rounds by (simp add: steps_fit_def size')
        obtain a w4 where a: "queued_buffers K block (file_alignment f) (unat n) [] w3 = (a, w4)"
          by (metis prod.exhaust)
        have qb: "quiet V w3 w4" "\<forall>m. a = Inr m \<longrightarrow> length m = unat n \<and> (\<forall>s \<in> set m. len_ok (span_size s))"
          using queued_buffers_correct [where P = len_ok, OF law fits quiet_good [OF q3] _ a] by simp_all
        have w4: "ok w4" "v_fds V w4 = v_fds V w1"
          using ok_quiet [OF okw quiet_good [OF qb(1)]] quiet_fds [OF q3] quiet_fds [OF qb(1)] w2 by simp_all
        have "binv (file_fd f) c be [] w2" "pend be = []" using open_law [OF ok1 fd b] Inr by simp_all
        then have be: "binv (file_fd f) c be m w4" "pend be = []" for m
          using binv_other [OF _ w4(1)] w4(2) w2(2) by (simp_all add: fds_view)
        show ?thesis
        proof (cases a)
          case (Inl what)
          from queued_close_correct [OF be, of K f] obtain v where
            "queued_close K ops f be w4 = Some (snd (file_close K f v))" "ok v" "fds v = fds w4" by blast
          with o f b Inr sz n a Inl close [of v] w4(2) show ?thesis by (simp add: bm_queued_def fds_view)
        next
          case m: (Inr m)
          have "unat n \<le> length m" "\<forall>i < unat n. len_ok (span_size (m ! i))" using qb(2) m by simp_all
          from queued_passes_correct [OF fit refl be this, of k 0] obtain r b' m' w5 where
            p: "queued_passes ops block n size' k 0 be m w4 = Some (r, b', m', w5)" "ok w5" "fds w5 = fds w4"
              "settled r \<longrightarrow> binv (file_fd f) c b' m' w5 \<and> pend b' = []"
              "\<forall>bytes'. r = Inr bytes' \<longrightarrow> bytes' = of_nat (k * (length c div ?S * ?S))"
            unfolding size' by auto
          show ?thesis
          proof (cases "settled r")
            case False
            then obtain e pending where "r = Inl (e, pending)" "0 < pending" by (auto simp: settled_def split: sum.splits)
            with o f b Inr sz n a m p(1) show ?thesis by (simp add: bm_queued_def)
          next
            case True
            with p(4) have "binv (file_fd f) c b' m' w5" "pend b' = []" by simp_all
            from queued_close_correct [OF this, of K f] obtain v where
              v: "queued_close K ops f b' w5 = Some (snd (file_close K f v))" "ok v" "fds v = fds w5" by blast
            have cl: "v_fds V (snd (file_close K f v)) = v_fds V w"
              by (rule close [OF v(2)]) (use v(3) p(3) w4(2) in \<open>simp add: fds_view\<close>)
            have "bm_queued K ops block path n k w =
                Some ((case r of Inl (e, _) \<Rightarrow> Inl e | Inr bytes \<Rightarrow> Inr bytes), snd (file_close K f v))"
              using o f b Inr sz n a m p(1) v(1) True
              by (cases r) (auto simp: bm_queued_def)
            with cl c p(5) show ?thesis by (cases r) (auto split: bench_error.splits)
          qed
        qed
      qed
    qed
  qed
qed

end


section \<open>Errors\<close>

text \<open>
  When a \<open>reap\<close> fails, the function is left while the reads of the round are in flight: the buffers are destroyed before the backend
  that writes into them.
\<close>

lemma failed_reap_leaves_reads:
  "map_option fst (bm_queued memfs_sys
     ((any_ops memfs_sys memring_ops)\<lparr>bk_reap := \<lambda>n k b m w. Some (Inl (BackendError SubmissionQueueFull), b, m, w)\<rparr>)
     2 ''b'' 2 3 (memfs_world ring_demo_files 2)) =
   Some (Inl (ReadsInFlight (BenchFailed (BackendError SubmissionQueueFull)) 2))"
  by code_simp

text \<open>The value of a \<open>size ()\<close> that failed is used by both benchmarks.\<close>

lemma unchecked_size:
  "map_option fst (bm_sequential (memfs_sys\<lparr>sys_fstat := \<lambda>fd w. (Errno 5, w)\<rparr>) ''b'' 2 3 (memfs_world ring_demo_files 2)) =
   Some (Inl (SizeUnchecked (FileError (FileOp ''size'' ''b'' 5))))"
  by code_simp

section \<open>Properties\<close>

text \<open>
  Property C36 (a round of queued reads). Over whatever backend \<open>open_backend\<close> chose, with nothing in flight, a round of \<open>n\<close>
  reads returns. It writes the first \<open>n\<close> buffers only; without an error nothing is in flight afterwards, the queue was deep enough, and
  buffer number \<open>i\<close> starts with the \<open>i\<close>-th block after the offset, as much of it as the file has: although a ring
  completes its reads in any order and in as many calls as it likes.
\<close>

theorem queued_round_reads_blocks:
  assumes "any_inv K U Y V fd c b m w" and "any_requests Y b = []" and "n \<le> length m" and "0 < n"
    and "\<forall>i < n. span_size (m ! i) < 2 ^ 32"
  shows "\<exists>r b' m' w'. queued_round (any_ops K U) block n off b m w = Some (r, b', m', w') \<and>
    v_fds V w' = v_fds V w \<and> frame {0..<n} m m' \<and>
    (r = Inr () \<longrightarrow> any_inv K U Y V fd c b' m' w' \<and> any_requests Y b' = [] \<and> n \<le> any_depth b \<and>
       (\<forall>i < n. let k = min (span_size (m ! i)) (length c - unat (off + of_nat i * block)) in
          take k (sp_bytes (m' ! i)) = window (unat (off + of_nat i * block)) k c))"
proof -
  have "\<forall>i < n. uring_len (span_size (m ! i))" using assms(5) by (simp add: uring_len_def)
  from any.queued_round_correct [OF assms(1-4) this, of block off] obtain r b' m' w' where
    r: "queued_round (any_ops K U) block n off b m w = Some (r, b', m', w')" "v_fds V w' = v_fds V w" "frame {0..<n} m m'"
      "settled r \<longrightarrow> any_inv K U Y V fd c b' m' w' \<and> any_requests Y b' = []"
    and post: "r = Inr () \<longrightarrow> any_depth b' = any_depth b \<and> n \<le> any_depth b \<and>
       (\<forall>i < n. let k = min (span_size (m ! i)) (length c - unat (off + of_nat i * block)) in
          take k (sp_bytes (m' ! i)) = window (unat (off + of_nat i * block)) k c)" by blast
  then show ?thesis by (intro exI [of _ r] exI [of _ b'] exI [of _ m'] exI [of _ w']) (cases r; simp)
qed

theorem queued_round_reads_blocks_witness:
  "\<exists>b w b' m' w'. open_backend memfs_sys memring_ops 3 \<lparr>bo_queue_depth = 2, bo_threads = 2\<rparr> ring_demo_world =
       (Inr (b :: memring any_backend), w) \<and>
     queued_round (any_ops memfs_sys memring_ops) 2 2 0 b ring_demo_buffers w = Some (Inr (), b', m', w') \<and>
     take 2 (sp_bytes (m' ! 0)) = [1, 2] \<and> take 2 (sp_bytes (m' ! 1)) = [3, 4]"
proof -
  let ?o = "\<lparr>bo_queue_depth = 2, bo_threads = 2\<rparr>" and ?V = "memfs_view True ring_demo_files"
  obtain b w where o: "open_backend memfs_sys memring_ops 3 ?o ring_demo_world = (Inr (b :: memring any_backend), w)"
    by (simp add: open_backend_def open_uring_backend_def uring_init_def memring_ops_def)
  have call: "bk_open (any_ops memfs_sys memring_ops) 3 ?o ring_demo_world = (Inr b, w)" using o by (simp add: any_ops_def)
  have fd: "v_fds ?V ring_demo_world 3 = Some [1, 2, 3, 4]"
    by (simp add: memfs_content_def ring_demo_world_def memfs_world_def ring_demo_files_def)
  from any.open_law [OF ring_demo_world_ok _ fd call, of ring_demo_buffers]
  have b: "any_inv memfs_sys memring_ops memring_view ?V 3 [1, 2, 3, 4] b ring_demo_buffers w"
    "any_requests memring_view b = []" by simp_all
  have pos2: "0 < (2 :: nat)" by simp
  have m: "2 \<le> length ring_demo_buffers" "\<forall>i < 2. span_size (ring_demo_buffers ! i) < 2 ^ 32"
    "span_size (ring_demo_buffers ! 0) = 2" "span_size (ring_demo_buffers ! 1) = 2"
    by (simp_all add: ring_demo_buffers_def span_size_def less_2_cases_iff)
  have "(case open_backend memfs_sys memring_ops 3 ?o ring_demo_world of
       (Inr b, w) \<Rightarrow> map_option fst (queued_round (any_ops memfs_sys memring_ops) 2 2 0 b ring_demo_buffers w)
     | (Inl e, w) \<Rightarrow> None) = Some (Inr ())" by code_simp
  then obtain b' m' w' where
    r: "queued_round (any_ops memfs_sys memring_ops) 2 2 0 b ring_demo_buffers w = Some (Inr (), b', m', w')"
    using o by auto
  have "\<forall>i < 2. let k = min (span_size (ring_demo_buffers ! i)) (length [1, 2, 3, 4 :: byte] - unat (0 + of_nat i * 2 :: u64)) in
      take k (sp_bytes (m' ! i)) = window (unat (0 + of_nat i * 2 :: u64)) k [1, 2, 3, 4]"
    using queued_round_reads_blocks [OF b m(1) pos2 m(2), of 2 0] unfolding r option.inject prod.inject by blast
  from spec [OF this, of 0] spec [OF this, of 1]
  have "take (Suc (Suc 0)) (sp_bytes (m' ! 0)) = [1, 2]" "take (Suc (Suc 0)) (sp_bytes (m' ! 1)) = [3, 4]"
    using m(3,4) by (simp_all add: window_def)
  then have "take 2 (sp_bytes (m' ! 0)) = [1, 2]" "take 2 (sp_bytes (m' ! 1)) = [3, 4]"
    by (simp_all only: numeral_2_eq_2)
  with o r show ?thesis by blast
qed

text \<open>
  Property C37 (the queued benchmark). With a queue of \<open>n\<close> blocks that are not empty, and buffers below 4 GiB, \<open>BM_QueuedImpl\<close>
  over the backend of \<open>open_backend\<close> returns. Unless it used the size of a file that it could not get, or left with reads in flight, every
  descriptor is as before; and without an error the bytes it reports are, for every iteration, those of the whole rounds in the file: a
  tail shorter than a round is never read.
\<close>

theorem bm_queued_counts_rounds:
  assumes "uring_world K U Y V w" and "0 < unat n * unat block" and "unat n * unat block < 2 ^ 63"
    and "\<And>v a s v'. v_good V v \<Longrightarrow> fp_alloc K block a v = (Inr s, v') \<Longrightarrow> span_size s < 2 ^ 32"
  shows "\<exists>r w'. bm_queued K (any_ops K U) block path n k w = Some (r, w') \<and>
    (case r of
       Inl (SizeUnchecked e) \<Rightarrow> True
     | Inl (ReadsInFlight e pending) \<Rightarrow> True
     | Inl e \<Rightarrow> v_fds V w' = v_fds V w
     | Inr bytes \<Rightarrow> v_fds V w' = v_fds V w \<and>
         (\<exists>c. v_files V path = Some c \<and>
            bytes = of_nat (k * (length c div (unat n * unat block) * (unat n * unat block)))))"
  by (rule as.bm_queued_correct [OF assms(1-3)]) (rule assms(4) [folded uring_len_def])

theorem bm_queued_counts_rounds_witness:
  "\<exists>w. bm_queued memfs_sys (any_ops memfs_sys memring_ops) 2 ''b'' 2 3 (memfs_world ring_demo_files 2) = Some (Inr 12, w) \<and>
     v_fds (memfs_view True ring_demo_files) w = v_fds (memfs_view True ring_demo_files) (memfs_world ring_demo_files 2)"
proof -
  let ?V = "memfs_view True ring_demo_files" and ?w = "memfs_world ring_demo_files 2"
  have world: "uring_world memfs_sys memring_ops memring_view ?V ?w"
    by (simp add: uring_world_def thread_world_def memfs_files_law memfs_full_pread_law memring_law ring_demo_files_def)
  have "map_option fst (bm_queued memfs_sys (any_ops memfs_sys memring_ops) 2 ''b'' 2 3 ?w) = Some (Inr 12)"
    by code_simp
  then obtain w where w: "bm_queued memfs_sys (any_ops memfs_sys memring_ops) 2 ''b'' 2 3 ?w = Some (Inr 12, w)" by auto
  have small: "span_size s < 2 ^ 32" if "fp_alloc memfs_sys 2 a v = (Inr s, v')" for a v s v'
    using that by (auto simp: memfs_alloc_def span_size_def)
  have "0 < unat (2 :: u64) * unat (2 :: u64)" "unat (2 :: u64) * unat (2 :: u64) < 2 ^ 63" by simp_all
  from bm_queued_counts_rounds [where path = "''b''" and k = 3, OF world this small] w show ?thesis by auto
qed

end
