(* ===== verification/BenchDataset.thy ===== *)
theory BenchDataset
  imports Dataset Mmap
begin

text \<open>
  \<open>bench/dataset_bench.cpp\<close>: the clients of the dataset pipeline. They walk a shard set once for each iteration of the range loop
  of Google Benchmark and count what the callback is given; one deals the shards out to several workers
  (whose threads are in \<open>BenchConcurrent\<close>), one copies every batch into storage of its own, one walks windows of a large
  file, and one scans a mapping.
\<close>

section \<open>Definitions\<close>

subsection \<open>Walking a shard set\<close>

text \<open>
  \<open>WalkLost\<close>: the stream was destroyed while reads were in flight into its buffers, and nothing is said about what follows.
\<close>

datatype dataset_error =
    NoShards
  | WalkFailed error
  | WalkLost
  | StreamFailed
  | LargeFileMissing

definition default_options :: batch_options where
  "default_options = \<lparr>batch_bytes = 1048576, prefetch = 2, read_depth = 16, segment_bytes = 0, seed = 0\<rparr>"

text \<open>The callback that counts. Its counter has 64 bits.\<close>

definition count_bytes :: "byte list \<Rightarrow> u64 \<Rightarrow> bool option \<times> u64" where
  "count_bytes bytes n = (Some True, n + of_nat (length bytes))"

text \<open>What is left when both threads have ended.\<close>

definition ended_walk :: "('c, 's, 'u, 'w) batches \<Rightarrow> (consumer \<times> 'u \<times> 'w) option" where
  "ended_walk s =
     (if bt_producer s = PDone \<and> consumer_ended (bt_consumer s)
      then Some (bt_consumer s, bt_user s, bt_world s) else None)"

text \<open>
  One call of \<open>for_each_batch\<close>, in which the two threads move as the schedule says: how it ended, or \<open>None\<close> when they
  have not yet.
\<close>

definition dataset_walk ::
  "'w sys \<Rightarrow> ('q, 'w) uring_ops \<Rightarrow> (batch, 'c) channel_ops \<Rightarrow> (u64 \<Rightarrow> nat list \<Rightarrow> nat list) \<Rightarrow>
     (byte list \<Rightarrow> 'u \<Rightarrow> bool option \<times> 'u) \<Rightarrow> shard_set \<Rightarrow> batch_options \<Rightarrow> bool list \<Rightarrow> 'u \<Rightarrow> 'w \<Rightarrow> (consumer \<times> 'u \<times> 'w) option" where
  "dataset_walk K U C shuffle callback shards options schedule user w =
     (case (for_each_batch C shuffle shards options user w ::
         (error + ('c, 'q any_backend stream, 'u, 'w) batches) option) of
        None \<Rightarrow> None
      | Some (Inl e) \<Rightarrow> Some (CReturned (Inl e), user, w)
      | Some (Inr s0) \<Rightarrow>
          ended_walk (run_schedule (stream_read K (any_ops K U)) (stream_destroy K (any_ops K U)) C callback schedule s0))"

text \<open>
  The range loop: one walk for each iteration, over a set that may depend on the number of the iteration. There is a
  schedule for each walk.
\<close>

fun dataset_passes ::
  "'w sys \<Rightarrow> ('q, 'w) uring_ops \<Rightarrow> (batch, 'c) channel_ops \<Rightarrow> (u64 \<Rightarrow> nat list \<Rightarrow> nat list) \<Rightarrow>
     (byte list \<Rightarrow> 'u \<Rightarrow> bool option \<times> 'u) \<Rightarrow> (u64 \<Rightarrow> shard_set) \<Rightarrow> batch_options \<Rightarrow> u64 \<Rightarrow> bool list list \<Rightarrow> 'u \<Rightarrow> 'w \<Rightarrow>
     ((dataset_error + unit) \<times> 'u \<times> 'w) option" where
  "dataset_passes K U C shuffle callback sets options i [] user w = Some (Inr (), user, w)"
| "dataset_passes K U C shuffle callback sets options i (schedule # schedules) user w =
     (case dataset_walk K U C shuffle callback (sets i) options schedule user w of
        None \<Rightarrow> None
      | Some (walked, user', w') \<Rightarrow>
          (case walked of
             CReturned (Inr _) \<Rightarrow> dataset_passes K U C shuffle callback sets options (i + 1) schedules user' w'
           | CReturned (Inl e) \<Rightarrow> Some (Inl (WalkFailed e), user', w')
           | _ \<Rightarrow> Some (Inl WalkLost, user', w')))"

text \<open>What the benchmarks of a shard set share: they differ in their options.\<close>

definition dataset_benchmark ::
  "'w sys \<Rightarrow> ('q, 'w) uring_ops \<Rightarrow> (batch, 'c) channel_ops \<Rightarrow> (u64 \<Rightarrow> nat list \<Rightarrow> nat list) \<Rightarrow>
     shard_set \<Rightarrow> batch_options \<Rightarrow> bool list list \<Rightarrow> 'w \<Rightarrow> ((dataset_error + u64) \<times> 'w) option" where
  "dataset_benchmark K U C shuffle shards options schedules w =
     (if shards = [] then Some (Inl NoShards, w)
      else do {
        (r, bytes, w') \<leftarrow> dataset_passes K U C shuffle count_bytes (\<lambda>_. shards) options 0 schedules 0 w;
        Some (case r of Inl e \<Rightarrow> Inl e | Inr _ \<Rightarrow> Inr bytes, w')
      })"

definition bm_dataset_stream where
  "bm_dataset_stream K U C shuffle shards range0 range1 =
     dataset_benchmark K U C shuffle shards (default_options\<lparr>batch_bytes := range0, prefetch := range1\<rparr>)"

definition bm_dataset_read_depth where
  "bm_dataset_read_depth K U C shuffle shards range0 =
     dataset_benchmark K U C shuffle shards
       (default_options\<lparr>batch_bytes := 1048576, prefetch := 2, read_depth := range0\<rparr>)"

definition bm_dataset_matrix where
  "bm_dataset_matrix K U C shuffle shards range0 range1 =
     dataset_benchmark K U C shuffle shards
       (default_options\<lparr>batch_bytes := range0, prefetch := 2, read_depth := range1\<rparr>)"

definition bm_dataset_segment where
  "bm_dataset_segment K U C shuffle shards range0 range1 =
     dataset_benchmark K U C shuffle shards
       (default_options\<lparr>batch_bytes := 1048576, prefetch := 2, read_depth := range1, segment_bytes := range0\<rparr>)"

subsection \<open>Packing tokens\<close>

text \<open>
  The callback that copies: \<open>tokens\<close> are the bytes of its storage, \<open>None\<close> after a \<open>memcpy\<close> past their end.
\<close>

definition pack_tokens :: "byte list \<Rightarrow> byte list option \<times> u64 \<Rightarrow> bool option \<times> (byte list option \<times> u64)" where
  "pack_tokens bytes user =
     (Some True,
      (case fst user of
         None \<Rightarrow> None
       | Some tokens \<Rightarrow> if length bytes \<le> length tokens then Some (overwrite 0 bytes tokens) else None),
      snd user + of_nat (length bytes))"

text \<open>A vector of \<open>batch_bytes / 2\<close> tokens of two bytes.\<close>

definition token_storage :: "batch_options \<Rightarrow> byte list" where
  "token_storage options = replicate (2 * unat (batch_bytes options div 2)) 0"

definition bm_token_pack ::
  "'w sys \<Rightarrow> ('q, 'w) uring_ops \<Rightarrow> (batch, 'c) channel_ops \<Rightarrow> (u64 \<Rightarrow> nat list \<Rightarrow> nat list) \<Rightarrow>
     shard_set \<Rightarrow> bool list list \<Rightarrow> 'w \<Rightarrow> ((dataset_error + byte list option \<times> u64) \<times> 'w) option" where
  "bm_token_pack K U C shuffle shards schedules w =
     (if shards = [] then Some (Inl NoShards, w)
      else
        let options = default_options\<lparr>batch_bytes := 1048576, prefetch := 2, read_depth := 16\<rparr> in do {
        (r, user, w') \<leftarrow> dataset_passes K U C shuffle pack_tokens (\<lambda>_. shards) options 0 schedules
          (Some (token_storage options), 0) w;
        Some (case r of Inl e \<Rightarrow> Inl e | Inr _ \<Rightarrow> Inr user, w')
      })"

subsection \<open>Windows of a large file\<close>

definition large_window :: u64 where
  "large_window = 4 * 1024 * 1024 * 1024"

text \<open>The set of iteration \<open>i\<close>: one of the windows of the file, in turn.\<close>

definition large_slice :: "string \<Rightarrow> u64 \<Rightarrow> u64 \<Rightarrow> shard_set" where
  "large_slice large_file size' i =
     (let windows = max (size' div large_window) 1 in
      shard_set_add [] \<lparr>sh_path = large_file, sh_offset = i mod windows * large_window, sh_length = large_window\<rparr>)"

text \<open>\<open>size'\<close> is what \<open>std::filesystem::file_size\<close> returned.\<close>

definition bm_large_dataset ::
  "'w sys \<Rightarrow> ('q, 'w) uring_ops \<Rightarrow> (batch, 'c) channel_ops \<Rightarrow> (u64 \<Rightarrow> nat list \<Rightarrow> nat list) \<Rightarrow>
     bool \<Rightarrow> string \<Rightarrow> u64 \<Rightarrow> bool list list \<Rightarrow> 'w \<Rightarrow> ((dataset_error + u64) \<times> 'w) option" where
  "bm_large_dataset K U C shuffle ready large_file size' schedules w =
     (if \<not> ready then Some (Inl LargeFileMissing, w)
      else do {
        (r, bytes, w') \<leftarrow> dataset_passes K U C shuffle count_bytes (large_slice large_file size')
          (default_options\<lparr>batch_bytes := 4 * 1024 * 1024, prefetch := 2, read_depth := 16\<rparr>) 0 schedules 0 w;
        Some (case r of Inl e \<Rightarrow> Inl e | Inr _ \<Rightarrow> Inr bytes, w')
      })"

subsection \<open>Several workers\<close>

text \<open>The loop that deals the shards out; \<open>i\<close> is the number of the next one.\<close>

fun deal_shards :: "nat \<Rightarrow> nat \<Rightarrow> shard_set list \<Rightarrow> shard list \<Rightarrow> shard_set list" where
  "deal_shards workers i sets [] = sets"
| "deal_shards workers i sets (s # ss) =
     deal_shards workers (i + 1) (sets[i mod workers := shard_set_add (sets ! (i mod workers)) s]) ss"

definition worker_sets :: "nat \<Rightarrow> shard_set \<Rightarrow> shard_set list" where
  "worker_sets workers all = deal_shards workers 0 (replicate workers []) all"

subsection \<open>Scanning a mapping\<close>

text \<open>One byte of every 4096, from index \<open>i\<close> on.\<close>

function scan_pages :: "byte list \<Rightarrow> nat \<Rightarrow> byte \<Rightarrow> byte" where
  "scan_pages bytes i acc = (if i < length bytes then scan_pages bytes (i + 4096) (xor acc (bytes ! i)) else acc)"
  by pat_completeness auto

termination
  by (relation "measure (\<lambda>(bytes, i, acc). length bytes - i)") auto

declare scan_pages.simps [simp del]

text \<open>
  \<open>bytes_of\<close> is what the mapping shows. The result is the number of bytes processed, with what the last iteration has computed.
\<close>

fun scan_passes :: "byte list \<Rightarrow> nat \<Rightarrow> u64 \<times> byte \<Rightarrow> u64 \<times> byte" where
  "scan_passes bytes 0 r = r"
| "scan_passes bytes (Suc k) r = scan_passes bytes k (fst r + of_nat (length bytes), scan_pages bytes 0 0)"

definition bm_mmap_scan ::
  "'w sys \<Rightarrow> 'w mm \<Rightarrow> ('w \<Rightarrow> mmap_file \<Rightarrow> byte list) \<Rightarrow> string \<Rightarrow> nat \<Rightarrow> 'w \<Rightarrow> (error + u64 \<times> byte) \<times> 'w" where
  "bm_mmap_scan K M bytes_of path iterations w =
     (case mmap_open K M path 0 0 w of
        (Inl e, w1) \<Rightarrow> (Inl e, w1)
      | (Inr m, w1) \<Rightarrow> (Inr (scan_passes (bytes_of w1 m) iterations (0, 0)), mmap_destroy M m w1))"


section \<open>Walks\<close>

text \<open>
  A walk that has ended: the callback has seen all the chunks, and every descriptor is as before; or a read of the stream failed.
\<close>

lemma dataset_walk_ended:
  fixes U :: "('q, 'w) uring_ops" and C :: "(batch, 'c) channel_ops" and user :: 'a
  assumes set: "dataset_setting K U Y V C Q shuffle block shards options w"
    and go: "\<And>bytes u. callback bytes u = (Some True, f bytes u)"
    and walk: "dataset_walk K U C shuffle callback shards options schedule user w = Some (walked, user', w')"
  shows "walked = CReturned (Inr ()) \<and> uring_world K U Y V w' \<and> v_fds V w' = v_fds V w \<and>
      0 < unat (batch_bytes options) \<and>
      user' = fold f (chunks (unat (batch_bytes options)) (dataset_bytes V shuffle shards options)) user \<or>
    (\<exists>e. walked = CReturned (Inl e) \<or> walked = CLost (Some (Inl e)))"
proof -
  obtain r where fe: "(for_each_batch C shuffle shards options user w ::
      (error + ('c, 'q any_backend stream, 'a, 'w) batches) option) = Some r"
    using walk by (auto simp: dataset_walk_def split: option.splits)
  show ?thesis
  proof (cases r)
    case (Inl e)
    with fe walk show ?thesis by (auto simp: dataset_walk_def)
  next
    case (Inr s0)
    define s where "s = run_schedule (stream_read K (any_ops K U)) (stream_destroy K (any_ops K U)) C callback schedule s0"
    have s: "bt_producer s = PDone" "consumer_ended (bt_consumer s)" "walked = bt_consumer s" "user' = bt_user s"
        "w' = bt_world s"
      using walk fe Inr by (auto simp: dataset_walk_def ended_walk_def s_def split: if_splits)
    have start: "for_each_batch C shuffle shards options user w = Some (Inr s0)" using fe Inr by simp
    obtain k where run: "batches_run K U C callback s0 k s" unfolding s_def using run_schedule_run by blast
    have on: "goes_on callback" by (simp add: goes_on_def go)
    have stop: "\<not> batches_step K U C callback s t" for t
      using s(1,2) by (cases "bt_consumer s") (simp_all add: batch_step_iff producer_step_def consumer_step_def)
    have user0: "bt_user s0 = fold f (bt_given s0) user"
      using start by (auto simp: for_each_batch_def bind_eq_Some_conv split: if_splits)
    have "bt_user s = fold f (bt_given s) user" by (rule batch_run_user [OF go run user0])
    with ended_run [OF set start run on stop] s start_inv(2) [OF set start] show ?thesis by auto
  qed
qed

text \<open>A schedule under which it ends.\<close>

lemma dataset_walk_ends:
  fixes U :: "('q, 'w) uring_ops" and C :: "(batch, 'c) channel_ops" and user :: 'a
  assumes set: "dataset_setting K U Y V C Q shuffle block shards options w" and wrap: "prefetch options + 1 \<noteq> 0"
  shows "\<exists>schedule. dataset_walk K U C shuffle callback shards options schedule user w \<noteq> None"
proof -
  have "channel_law C Q" using set by (simp add: dataset_setting_def)
  then obtain r where fe: "(for_each_batch C shuffle shards options user w ::
      (error + ('c, 'q any_backend stream, 'a, 'w) batches) option) = Some r"
    using for_each_batch_starts [OF _ wrap] by fastforce
  show ?thesis
  proof (cases r)
    case (Inl e)
    with fe show ?thesis by (auto simp: dataset_walk_def)
  next
    case (Inr s0)
    with fe finishing_schedule [OF set, of user s0 callback] show ?thesis
      by (auto simp: dataset_walk_def ended_walk_def Let_def)
  qed
qed

section \<open>Passes\<close>

lemma setting_keeps:
  "dataset_setting K U Y V C Q shuffle block shards options w \<Longrightarrow> uring_world K U Y V w' \<Longrightarrow>
     dataset_setting K U Y V C Q shuffle block shards options w'"
  by (simp add: dataset_setting_def)

text \<open>
  The range loop. Each walk folds the callback over the chunks of its set.
\<close>

lemma dataset_passes_ended:
  fixes U :: "('q, 'w) uring_ops"
  assumes go: "\<And>bytes u. callback bytes u = (Some True, f bytes u)"
  shows "(\<And>j v. uring_world K U Y V v \<Longrightarrow> dataset_setting K U Y V C Q shuffle block (sets j) options v) \<Longrightarrow>
    uring_world K U Y V w \<Longrightarrow>
    dataset_passes K U C shuffle callback sets options i schedules user w = Some (Inr (), user', w') \<Longrightarrow>
    uring_world K U Y V w' \<and> v_fds V w' = v_fds V w \<and> (schedules \<noteq> [] \<longrightarrow> 0 < unat (batch_bytes options)) \<and>
    user' = fold (\<lambda>j. fold f (chunks (unat (batch_bytes options)) (dataset_bytes V shuffle (sets (i + of_nat j)) options)))
      [0..<length schedules] user"
proof (induction schedules arbitrary: i user w)
  case Nil
  then show ?case by simp
next
  case (Cons schedule schedules)
  note set = Cons.prems(1)
  from Cons.prems(3) obtain user1 w1 where
    walk: "dataset_walk K U C shuffle callback (sets i) options schedule user w = Some (CReturned (Inr ()), user1, w1)"
    and rest: "dataset_passes K U C shuffle callback sets options (i + 1) schedules user1 w1 = Some (Inr (), user', w')"
    by (auto split: option.splits prod.splits consumer.splits sum.splits)
  from dataset_walk_ended [OF set [OF Cons.prems(2)] go walk]
  have w1: "uring_world K U Y V w1" "v_fds V w1 = v_fds V w" "0 < unat (batch_bytes options)"
    "user1 = fold f (chunks (unat (batch_bytes options)) (dataset_bytes V shuffle (sets i) options)) user" by simp_all
  have shift: "[0..<length (schedule # schedules)] = 0 # map Suc [0..<length schedules]"
    by (simp add: map_Suc_upt upt_conv_Cons del: upt_Suc)
  with Cons.IH [OF set w1(1) rest] w1(2-4) show ?case
    unfolding shift by (simp add: fold_map comp_def add.assoc [symmetric])
qed

lemma dataset_passes_end:
  fixes U :: "('q, 'w) uring_ops" and C :: "(batch, 'c) channel_ops" and user :: 'a
  assumes go: "\<And>bytes u. callback bytes u = (Some True, f bytes u)" and wrap: "prefetch options + 1 \<noteq> 0"
  shows "(\<And>j v. uring_world K U Y V v \<Longrightarrow> dataset_setting K U Y V C Q shuffle block (sets j) options v) \<Longrightarrow>
    uring_world K U Y V w \<Longrightarrow>
    \<exists>schedules. length schedules = n \<and> dataset_passes K U C shuffle callback sets options i schedules user w \<noteq> None"
proof (induction n arbitrary: i user w)
  case 0
  then show ?case by simp
next
  case (Suc n)
  note set = Suc.prems(1) [OF Suc.prems(2), of i]
  from dataset_walk_ends [OF set wrap, of callback user] obtain schedule walked user1 w1 where
    walk: "dataset_walk K U C shuffle callback (sets i) options schedule user w = Some (walked, user1, w1)" by auto
  show ?case
  proof (cases "walked = CReturned (Inr ())")
    case True
    with dataset_walk_ended [OF set go walk] have "uring_world K U Y V w1" by simp
    from Suc.IH [OF Suc.prems(1) this, of "i + 1" user1] obtain schedules where
      "length schedules = n" "dataset_passes K U C shuffle callback sets options (i + 1) schedules user1 w1 \<noteq> None" by blast
    with walk True show ?thesis by (intro exI [of _ "schedule # schedules"]) simp
  next
    case False
    with dataset_walk_ended [OF set go walk] obtain e where
      "walked = CReturned (Inl e) \<or> walked = CLost (Some (Inl e))" by blast
    with walk show ?thesis by (intro exI [of _ "schedule # replicate n []"]) auto
  qed
qed


section \<open>Counting\<close>

lemma sum_case_Inr: "(case r of Inl e \<Rightarrow> Inl e | Inr u \<Rightarrow> Inr x) = Inr y \<longleftrightarrow> r = Inr () \<and> x = y"
  by (cases r) auto

lemma fold_count:
  "fold (\<lambda>bytes n. n + of_nat (length bytes)) cs (u :: u64) = u + of_nat (length (concat cs))"
  by (induction cs arbitrary: u) (simp_all add: add.assoc)

lemma length_dataset_bytes:
  assumes "\<forall>seed' xs. mset (shuffle seed' xs) = mset xs"
  shows "length (dataset_bytes V shuffle shards options) = sum_list (map (length \<circ> shard_content V) shards)"
proof -
  have "mset (stream_order shuffle options shards) = mset [0..<length shards]"
    using assms by (simp add: stream_order_def)
  then have "mset (map (\<lambda>i. length (shard_content V (shards ! i))) (stream_order shuffle options shards)) =
      mset (map (\<lambda>i. length (shard_content V (shards ! i))) [0..<length shards])"
    by (simp only: mset_map)
  from arg_cong [OF this, of sum_mset] have
    "sum_list (map (\<lambda>i. length (shard_content V (shards ! i))) (stream_order shuffle options shards)) =
      sum_list (map (\<lambda>i. length (shard_content V (shards ! i))) [0..<length shards])"
    unfolding sum_mset_sum_list .
  also have "map (\<lambda>i. length (shard_content V (shards ! i))) [0..<length shards] = map (length \<circ> shard_content V) shards"
    by (rule nth_equalityI) simp_all
  finally show ?thesis by (simp add: dataset_bytes_def length_concat comp_def)
qed

text \<open>A callback that counts, over passes of sets that all have \<open>each\<close> bytes.\<close>

lemma fold_count_passes:
  assumes "0 < n \<or> k = 0" and "\<And>j. length (dataset_bytes V shuffle (sets j) options) = each"
  shows "fold (\<lambda>j. fold (\<lambda>bytes m. m + of_nat (length bytes)) (chunks n (dataset_bytes V shuffle (sets (i + of_nat j)) options)))
    [0..<k] (u :: u64) = u + of_nat (k * each)"
  using assms(1)
proof (induction k)
  case (Suc k)
  then have "0 < n" by simp
  with Suc.IH assms(2) show ?case by (simp add: fold_count concat_chunks algebra_simps)
qed simp

lemma dataset_benchmark_correct:
  fixes U :: "('q, 'w) uring_ops"
  assumes set: "dataset_setting K U Y V C Q shuffle block shards options w"
    and call: "dataset_benchmark K U C shuffle shards options schedules w = Some (Inr bytes, w')"
  shows "v_fds V w' = v_fds V w \<and>
    bytes = of_nat (length schedules * sum_list (map (length \<circ> shard_content V) shards))"
proof -
  have perm: "\<forall>seed' xs. mset (shuffle seed' xs) = mset xs" and world: "uring_world K U Y V w"
    using set by (simp_all add: dataset_setting_def)
  from call have p: "dataset_passes K U C shuffle count_bytes (\<lambda>_. shards) options 0 schedules 0 w = Some (Inr (), bytes, w')"
    by (auto simp: dataset_benchmark_def bind_eq_Some_conv sum_case_Inr split: if_splits)
  have go: "count_bytes bytes n = (Some True, n + of_nat (length bytes))" for bytes n by (simp add: count_bytes_def)
  from dataset_passes_ended [OF go setting_keeps [OF set] world p]
  have after: "v_fds V w' = v_fds V w" "0 < unat (batch_bytes options) \<or> length schedules = 0"
    and bytes: "bytes = fold (\<lambda>j. fold (\<lambda>bytes n. n + of_nat (length bytes))
      (chunks (unat (batch_bytes options)) (dataset_bytes V shuffle shards options))) [0..<length schedules] 0" by auto
  have "bytes = 0 + of_nat (length schedules * sum_list (map (length \<circ> shard_content V) shards))"
    unfolding bytes
    by (rule fold_count_passes [where sets = "\<lambda>_. shards" and i = 0, OF after(2)]) (rule length_dataset_bytes [OF perm])
  with after(1) show ?thesis by simp
qed

section \<open>Packing\<close>

text \<open>Batches never run over storage that holds a full one.\<close>

lemma pack_tokens_fold:
  assumes "\<forall>c \<in> set cs. length c \<le> length t"
  shows "\<exists>t'. length t' = length t \<and>
    fold (\<lambda>bytes user. snd (pack_tokens bytes user)) cs (Some t, n) = (Some t', n + of_nat (length (concat cs)))"
  using assms
proof (induction cs arbitrary: t n)
  case (Cons c cs)
  have "length (overwrite 0 c t) = length t" using Cons.prems by (simp add: length_overwrite)
  with Cons.IH [of "overwrite 0 c t" "n + of_nat (length c)"] Cons.prems show ?case
    by (auto simp: pack_tokens_def add.assoc)
qed simp

lemma pack_tokens_passes:
  assumes "0 < n \<or> k = 0" and "n \<le> length t"
  shows "\<exists>t'. length t' = length t \<and>
    fold (\<lambda>j. fold (\<lambda>bytes user. snd (pack_tokens bytes user)) (chunks n bytes)) [0..<k] (Some t, m) =
      (Some t', m + of_nat (k * length bytes))"
  using assms(1)
proof (induction k)
  case (Suc k)
  then have n: "0 < n" by simp
  with Suc.IH obtain t1 where t1: "length t1 = length t"
    "fold (\<lambda>j. fold (\<lambda>bytes user. snd (pack_tokens bytes user)) (chunks n bytes)) [0..<k] (Some t, m) =
      (Some t1, m + of_nat (k * length bytes))" by blast
  have "\<forall>c \<in> set (chunks n bytes). length c \<le> length t1"
  proof
    fix c assume "c \<in> set (chunks n bytes)"
    then obtain ys zs where "ys @ c # zs = chunks n bytes" by (metis in_set_conv_decomp)
    from chunks_append_sizes [OF this] assms(2) t1(1) show "length c \<le> length t1" by linarith
  qed
  from pack_tokens_fold [OF this, of "m + of_nat (k * length bytes)"] t1 n show ?case
    by (auto simp: concat_chunks algebra_simps)
qed simp

lemma bm_token_pack_correct:
  fixes U :: "('q, 'w) uring_ops"
  assumes set: "dataset_setting K U Y V C Q shuffle block shards default_options w"
    and call: "bm_token_pack K U C shuffle shards schedules w = Some (Inr (tokens, bytes), w')"
  shows "(\<exists>t. tokens = Some t \<and> length t = 1048576) \<and> v_fds V w' = v_fds V w \<and>
    bytes = of_nat (length schedules * sum_list (map (length \<circ> shard_content V) shards))"
proof -
  let ?t = "token_storage default_options"
  have perm: "\<forall>seed' xs. mset (shuffle seed' xs) = mset xs" and world: "uring_world K U Y V w"
    using set by (simp_all add: dataset_setting_def)
  have opts: "default_options\<lparr>batch_bytes := 1048576, prefetch := 2, read_depth := 16\<rparr> = default_options"
    by (simp add: default_options_def)
  from call have p: "dataset_passes K U C shuffle pack_tokens (\<lambda>_. shards) default_options 0 schedules (Some ?t, 0) w =
      Some (Inr (), (tokens, bytes), w')"
    by (auto simp: bm_token_pack_def opts Let_def bind_eq_Some_conv sum_case_Inr split: if_splits)
  have go: "pack_tokens bytes u = (Some True, snd (pack_tokens bytes u))" for bytes u by (simp add: pack_tokens_def)
  from dataset_passes_ended [OF go setting_keeps [OF set] world p]
  have after: "v_fds V w' = v_fds V w"
    and user: "(tokens, bytes) = fold (\<lambda>j. fold (\<lambda>bytes user. snd (pack_tokens bytes user))
      (chunks 1048576 (dataset_bytes V shuffle shards default_options))) [0..<length schedules] (Some ?t, 0)"
    by (auto simp: default_options_def)
  have size': "length ?t = 1048576"
    unfolding token_storage_def length_replicate by (simp add: default_options_def)
  from pack_tokens_passes [of 1048576 "length schedules" ?t "dataset_bytes V shuffle shards default_options" 0] user size'
  show ?thesis using after by (auto simp: length_dataset_bytes [OF perm])
qed


section \<open>Dealing shards out\<close>

lemma deal_shards_snoc:
  "deal_shards workers i sets (ss @ [s]) =
     (let sets' = deal_shards workers i sets ss; j = (i + length ss) mod workers in
      sets'[j := shard_set_add (sets' ! j) s])"
  by (induction ss arbitrary: i sets) (simp_all add: Let_def)

lemma length_deal_shards [simp]: "length (deal_shards workers i sets ss) = length sets"
  by (induction ss arbitrary: i sets) simp_all

lemma worker_sets_snoc:
  "worker_sets workers (ss @ [s]) =
     (worker_sets workers ss)[length ss mod workers := worker_sets workers ss ! (length ss mod workers) @ [s]]"
  by (simp add: worker_sets_def deal_shards_snoc shard_set_add_def Let_def)

lemma length_worker_sets [simp]: "length (worker_sets workers ss) = workers"
  by (simp add: worker_sets_def)

lemma mset_concat_update:
  "j < length xss \<Longrightarrow> mset (concat (xss[j := xss ! j @ [x]])) = add_mset x (mset (concat xss))"
proof (induction xss arbitrary: j)
  case (Cons xs xss)
  then show ?case by (cases j) simp_all
qed simp

lemma mset_worker_sets:
  assumes "0 < workers"
  shows "mset (concat (worker_sets workers ss)) = mset ss"
proof (induction ss rule: rev_induct)
  case Nil
  then show ?case by (simp add: worker_sets_def concat_eq_Nil_conv)
next
  case (snoc s ss)
  then show ?case using assms by (simp add: worker_sets_snoc mset_concat_update)
qed

lemma sum_worker_sets:
  fixes f :: "shard \<Rightarrow> nat"
  assumes "0 < workers"
  shows "(\<Sum>shards \<leftarrow> worker_sets workers ss. sum_list (map f shards)) = sum_list (map f ss)"
proof -
  have "mset (map f (concat (worker_sets workers ss))) = mset (map f ss)"
    using mset_worker_sets [OF assms, of ss] by (simp only: mset_map)
  from arg_cong [OF this, of sum_mset] have "sum_list (map f (concat (worker_sets workers ss))) = sum_list (map f ss)"
    unfolding sum_mset_sum_list .
  moreover have "sum_list (map f (concat sets)) = (\<Sum>shards \<leftarrow> sets. sum_list (map f shards))" for sets :: "shard_set list"
    by (induction sets) simp_all
  ultimately show ?thesis by metis
qed

text \<open>How many of the first \<open>n\<close> numbers are \<open>j\<close> modulo \<open>w\<close>.\<close>

lemma share_step:
  assumes "j < (w :: nat)"
  shows "(Suc n + (w - 1 - j)) div w = (n + (w - 1 - j)) div w + (if n mod w = j then 1 else 0)"
proof -
  have "Suc (n + (w - 1 - j)) mod w = 0 \<longleftrightarrow> n mod w = j"
  proof -
    have a: "Suc (n + (w - 1 - j)) = n + (w - j)" using assms by simp
    have b: "(n + (w - j)) mod w = (n mod w + (w - j)) mod w" by (simp add: mod_add_left_eq)
    have c: "(n mod w + (w - j)) mod w = 0 \<longleftrightarrow> n mod w = j"
    proof (cases "n mod w < j")
      case True
      then have "(n mod w + (w - j)) mod w = n mod w + (w - j)" using assms by (intro mod_less) linarith
      then show ?thesis using True assms by simp
    next
      case False
      then have "n mod w + (w - j) = (n mod w - j) + w" using assms by simp
      moreover have "n mod w - j < w" using assms mod_less_divisor [of w n] by linarith
      ultimately have "(n mod w + (w - j)) mod w = n mod w - j" by (simp only: mod_add_self2 mod_less)
      then show ?thesis using False by simp
    qed
    show ?thesis unfolding a b by (rule c)
  qed
  then show ?thesis using div_Suc [of "n + (w - 1 - j)" w] by simp
qed

lemma nth_worker_sets:
  assumes "j < workers"
  shows "worker_sets workers ss ! j =
    map (\<lambda>k. ss ! (k * workers + j)) [0..<(length ss + (workers - 1 - j)) div workers]"
proof (induction ss rule: rev_induct)
  case Nil
  from assms have "(workers - 1 - j) div workers = 0" by simp
  with assms show ?case by (simp add: worker_sets_def)
next
  case (snoc s ss)
  let ?n = "length ss" and ?m = "(length ss + (workers - 1 - j)) div workers"
  have inside: "k * workers + j < ?n" if "k < ?m" for k
  proof -
    have "(k + 1) * workers \<le> ?m * workers" using that by (intro mult_right_mono) simp_all
    also have "\<dots> \<le> ?n + (workers - 1 - j)" by simp
    finally show ?thesis using assms by simp
  qed
  have same: "map (\<lambda>k. (ss @ [s]) ! (k * workers + j)) [0..<?m] = map (\<lambda>k. ss ! (k * workers + j)) [0..<?m]"
    using inside by (simp add: nth_append)
  show ?case
  proof (cases "?n mod workers = j")
    case False
    then show ?thesis using snoc.IH same share_step [OF assms, of ?n] by (simp add: worker_sets_snoc)
  next
    case True
    then have n: "?n = ?n div workers * workers + j" by (metis div_mult_mod_eq)
    have "?m = ?n div workers"
    proof -
      have "?n + (workers - 1 - j) = ?n div workers * workers + (workers - 1)" using n assms by linarith
      then show ?thesis using assms by (simp only: div_mult_self3) simp
    qed
    then have "(ss @ [s]) ! (?m * workers + j) = s" using n by (metis nth_append_length)
    then show ?thesis
      using snoc.IH same share_step [OF assms, of ?n] True assms by (simp add: worker_sets_snoc)
  qed
qed

section \<open>Windows of a large file\<close>

text \<open>From 4 GiB on, every window lies in the file.\<close>

lemma large_slice_inside:
  assumes "large_window \<le> size'"
  shows "\<exists>s. large_slice large_file size' i = [s] \<and> sh_path s = large_file \<and>
    unat (sh_offset s) + unat (sh_length s) \<le> unat size'"
proof -
  let ?n = "size' div large_window" and ?W = "unat large_window"
  have W: "?W = 4294967296" by (simp add: large_window_def)
  have le: "?W \<le> unat size'" using assms by (simp add: u64_le_nat)
  have n: "unat ?n = unat size' div ?W" by (simp add: unat_div)
  then have pos: "1 \<le> unat ?n" using le W by (simp add: div_greater_zero_iff Suc_le_eq)
  then have "1 \<le> ?n" by (simp add: u64_le_nat)
  then have "max ?n 1 = ?n" by (rule max_absorb1)
  then have slice: "large_slice large_file size' i =
      [\<lparr>sh_path = large_file, sh_offset = i mod ?n * large_window, sh_length = large_window\<rparr>]"
    by (simp add: large_slice_def Let_def shard_set_add_def)
  have lt: "unat (i mod ?n) < unat ?n" using pos by (simp add: unat_mod)
  then have "unat (i mod ?n) + 1 \<le> unat size' div ?W" using n by simp
  then have "(unat (i mod ?n) + 1) * ?W \<le> unat size' div ?W * ?W" by (rule mult_right_mono) simp
  also have "\<dots> \<le> unat size'" by simp
  finally have fit: "unat (i mod ?n) * ?W + ?W \<le> unat size'" by simp
  then have "unat (i mod ?n) * ?W < 2 ^ LENGTH(64)" using unsigned_less [of size', where ?'a = nat] W by linarith
  then have "unat (i mod ?n * large_window) = unat (i mod ?n) * ?W" by (rule unat_mult_lem [THEN iffD1])
  with slice fit show ?thesis by simp
qed

section \<open>Scanning\<close>

text \<open>The scan is the exclusive or of the first bytes of the pages.\<close>

lemma scan_pages_from:
  "scan_pages bytes i acc = fold (\<lambda>k acc. xor acc (bytes ! (i + 4096 * k))) [0..<(length bytes - i + 4095) div 4096] acc"
proof (induction bytes i acc rule: scan_pages.induct)
  case (1 bytes i acc)
  show ?case
  proof (cases "i < length bytes")
    case False
    then show ?thesis by (subst scan_pages.simps) simp
  next
    case True
    let ?m = "(length bytes - (i + 4096) + 4095) div 4096"
    have "(length bytes - i + 4095) div 4096 = Suc ?m"
      using True by (cases "i + 4096 \<le> length bytes") (simp_all add: div_nat_eqI)
    then have pages: "[0..<(length bytes - i + 4095) div 4096] = 0 # map Suc [0..<?m]"
      by (simp only: map_Suc_upt upt_conv_Cons zero_less_Suc)
    have "(\<lambda>k acc. xor acc (bytes ! (i + 4096 * k))) \<circ> Suc = (\<lambda>k acc. xor acc (bytes ! (i + 4096 + 4096 * k)))"
      by (simp add: comp_def add.assoc)
    then show ?thesis
      unfolding pages fold_simps fold_map by (subst scan_pages.simps) (simp add: True 1 [OF True])
  qed
qed

lemma scan_passes_result:
  "scan_passes bytes k (n, a) = (n + of_nat (k * length bytes), if k = 0 then a else scan_pages bytes 0 0)"
  by (induction k arbitrary: n a) (simp_all add: algebra_simps)

text \<open>
  The benchmark leaves no descriptor and no mapping behind, and counts the whole file once for each iteration; it fails only when
  the file cannot be mapped.
\<close>

lemma bm_mmap_scan_correct:
  assumes law: "mapping_law K M V maps" and good: "v_good V w"
    and call: "bm_mmap_scan K M (\<lambda>w m. mmap_bytes maps m w) path k w = (r, w')"
  shows "maps w' = maps w \<and> v_fds V w' = v_fds V w \<and>
    (\<forall>n a. r = Inr (n, a) \<longrightarrow> (\<exists>c. v_files V path = Some c \<and> n = of_nat (k * length c) \<and>
       (0 < k \<longrightarrow> a = fold (\<lambda>i acc. xor acc (c ! (4096 * i))) [0..<(length c + 4095) div 4096] 0)))"
proof -
  obtain r1 w1 where o: "mmap_open K M path 0 0 w = (r1, w1)" by (metis prod.exhaust)
  note opened = mmap_open_correct [OF law good o]
  show ?thesis
  proof (cases r1)
    case (Inl e)
    with call o opened show ?thesis by (auto simp: bm_mmap_scan_def)
  next
    case (Inr m)
    note valid = mmap_open_valid [OF law good o [unfolded Inr]]
    then obtain c where c: "v_files V path = Some c" "mmap_bytes maps m w1 = c" by (auto simp: window_def)
    obtain m2 w2 where u: "unmap M m w1 = (m2, w2)" by (metis prod.exhaust)
    have good1: "v_good V w1" using opened by simp
    from unmap_correct [OF law good1 _ u] valid
    have w2: "quiet V w1 w2" "maps w2 = (if mm_map m = 0 then maps w1 else (maps w1)(mm_map m := None))" by simp_all
    have "maps w2 = maps w"
    proof (cases "mm_map m = 0")
      case True
      with opened Inr have "maps w1 = maps w" by (auto split: if_splits)
      with w2(2) True show ?thesis by simp
    next
      case False
      with valid have "maps w = (maps w1)(mm_map m := None)" by metis
      with w2(2) False show ?thesis by simp
    qed
    moreover have "v_fds V w2 = v_fds V w" using w2(1) opened by (simp add: quiet_fds)
    moreover have "r = Inr (scan_passes c k (0, 0))" "w' = w2"
      using call o Inr u c(2) by (simp_all add: bm_mmap_scan_def mmap_destroy_def)
    ultimately show ?thesis using c(1) by (auto simp: scan_passes_result scan_pages_from)
  qed
qed

section \<open>Properties\<close>

text \<open>
  Property C38 (the shares). The shards are dealt out in turn: worker \<open>j\<close> gets the shards \<open>j\<close>, \<open>j + workers\<close>, \<open>j + 2 * workers\<close> and so
  on, in order, so that every shard goes to exactly one worker and the shares differ by one shard at most. The bytes of the
  shares add up to those of the data set.
\<close>

theorem workers_partition_shards:
  assumes "0 < workers"
  shows "length (worker_sets workers all) = workers \<and> mset (concat (worker_sets workers all)) = mset all \<and>
    (\<forall>j < workers. worker_sets workers all ! j =
       map (\<lambda>k. all ! (k * workers + j)) [0..<(length all + (workers - 1 - j)) div workers]) \<and>
    (\<Sum>shards \<leftarrow> worker_sets workers all. sum_list (map (length \<circ> shard_content V) shards)) =
      sum_list (map (length \<circ> shard_content V) all)"
  using mset_worker_sets [OF assms, of all] nth_worker_sets [of _ workers all] sum_worker_sets [OF assms, of _ all] by simp

theorem workers_partition_shards_witness:
  "worker_sets 2 (demo_set @ demo_set @ [hd demo_set]) = [[hd demo_set, hd demo_set, hd demo_set], [last demo_set, last demo_set]] \<and>
   mset (concat (worker_sets 2 (demo_set @ demo_set @ [hd demo_set]))) = mset (demo_set @ demo_set @ [hd demo_set])"
proof -
  let ?all = "demo_set @ demo_set @ [hd demo_set]" and ?V = "memfs_view True demo_files"
  have "worker_sets 2 ?all = [[hd demo_set, hd demo_set, hd demo_set], [last demo_set, last demo_set]]"
    by code_simp
  with workers_partition_shards [of 2 ?all ?V] show ?thesis by simp
qed

text \<open>
  Property C39 (the benchmarks of a shard set). Whatever the interleaving in each walk and whatever the shuffle, a benchmark that
  succeeds reports the bytes of all shards once for each iteration, and leaves every descriptor as it was; and the two threads
  can always be scheduled so that it ends.
\<close>

theorem dataset_benchmark_counts:
  assumes "dataset_setting K U Y V C Q shuffle block shards options w" and "prefetch options + 1 \<noteq> 0"
  shows "(\<forall>schedules bytes w'. dataset_benchmark K U C shuffle shards options schedules w = Some (Inr bytes, w') \<longrightarrow>
       v_fds V w' = v_fds V w \<and>
       bytes = of_nat (length schedules * sum_list (map (length \<circ> shard_content V) shards))) \<and>
     (\<exists>schedules. length schedules = n \<and> dataset_benchmark K U C shuffle shards options schedules w \<noteq> None)"
proof (intro conjI allI impI)
  fix schedules bytes w'
  assume "dataset_benchmark K U C shuffle shards options schedules w = Some (Inr bytes, w')"
  from dataset_benchmark_correct [OF assms(1) this] show "v_fds V w' = v_fds V w"
    "bytes = of_nat (length schedules * sum_list (map (length \<circ> shard_content V) shards))" by simp_all
next
  have go: "count_bytes bytes n = (Some True, n + of_nat (length bytes))" for bytes n by (simp add: count_bytes_def)
  have world: "uring_world K U Y V w" using assms(1) by (simp add: dataset_setting_def)
  from dataset_passes_end [where callback = count_bytes, OF go assms(2) setting_keeps [OF assms(1)] world, where n = n and i = 0 and user = 0] obtain schedules where
    "length schedules = n" "dataset_passes K U C shuffle count_bytes (\<lambda>_. shards) options 0 schedules 0 w \<noteq> None" by blast
  then show "\<exists>schedules. length schedules = n \<and> dataset_benchmark K U C shuffle shards options schedules w \<noteq> None"
    by (intro exI [of _ schedules]) (auto simp: dataset_benchmark_def)
qed

theorem dataset_benchmark_counts_witness:
  "\<exists>w. dataset_benchmark memfs_sys memring_ops list_channel_ops (\<lambda>_. rev) demo_set demo_options
       [demo_schedule] (memfs_world demo_files 2) = Some (Inr 7, w) \<and>
     v_fds (memfs_view True demo_files) w = v_fds (memfs_view True demo_files) (memfs_world demo_files 2)"
proof -
  have "map_option fst (dataset_benchmark memfs_sys memring_ops list_channel_ops (\<lambda>_. rev) demo_set demo_options
       [demo_schedule] (memfs_world demo_files 2)) = Some (Inr 7)" by code_simp
  then obtain w where w: "dataset_benchmark memfs_sys memring_ops list_channel_ops (\<lambda>_. rev) demo_set demo_options
       [demo_schedule] (memfs_world demo_files 2) = Some (Inr 7, w)" by auto
  have "prefetch demo_options + 1 \<noteq> 0" by (simp add: demo_options_def)
  from dataset_benchmark_counts [OF demo_setting this, THEN conjunct1] w show ?thesis by blast
qed

end
