(* ===== verification/BenchConcurrent.thy ===== *)
theory BenchConcurrent
  imports BenchDataset
begin

text \<open>
  \<open>bench/dataset_bench.cpp\<close>, \<open>BM_DatasetConcurrent\<close>: several workers walk disjoint shard sets at the same time. Each walk has its
  own stream, channels and pair of threads; all of them share the descriptors of the process, the counter of bytes
  and the counter of failures. The steps of all threads interleave in any order. A call of \<open>read\<close> is one step: what the streams
  share is the table of descriptors, and every system call finds it in a state that whole steps of the others have left.
\<close>

section \<open>Definitions\<close>

text \<open>
  Where a worker is: at the call of \<open>for_each_batch\<close>, in it, at the check of its result, at the end. \<open>Terminated\<close>: the walk
  was lost, or an exception has left the thread.
\<close>

datatype ('c, 'q, 'w) bench_worker =
    Starting
  | Walking "('c, 'q any_backend stream, u64, 'w) batches"
  | Checking "unit outcome"
  | Finished
  | Terminated

text \<open>One iteration: \<open>bytes\<close> and \<open>failures\<close> are the two atomic variables.\<close>

record ('c, 'q, 'w) bench_round =
  br_world :: 'w
  br_bytes :: u64
  br_failures :: "32 word"
  br_workers :: "('c, 'q, 'w) bench_worker list"

definition round_start :: "nat \<Rightarrow> 'w \<Rightarrow> ('c, 'q, 'w) bench_round" where
  "round_start workers w = \<lparr>br_world = w, br_bytes = 0, br_failures = 0, br_workers = replicate workers Starting\<rparr>"

text \<open>
  The body of a worker's thread, one step of it: the worker, the counter, what is added to \<open>failures\<close>, and the world
  afterwards. In the call, one of the two threads of \<open>for_each_batch\<close> moves as \<open>turn\<close> says (the worker of the pool when it is
  true), in the world and with the counter as they are by now.
\<close>

definition worker_step ::
  "'w sys \<Rightarrow> ('q, 'w) uring_ops \<Rightarrow> (batch, 'c) channel_ops \<Rightarrow> (u64 \<Rightarrow> nat list \<Rightarrow> nat list) \<Rightarrow> shard_set \<Rightarrow> batch_options \<Rightarrow>
     bool \<Rightarrow> ('c, 'q, 'w) bench_worker \<Rightarrow> u64 \<Rightarrow> 'w \<Rightarrow> ('c, 'q, 'w) bench_worker \<times> u64 \<times> 32 word \<times> 'w" where
  "worker_step K U C shuffle shards options turn x bytes w =
     (case x of
        Starting \<Rightarrow>
          (case for_each_batch C shuffle shards options bytes w of
             None \<Rightarrow> (Starting, bytes, 0, w)
           | Some (Inl e) \<Rightarrow> (Checking (Inl e), bytes, 0, w)
           | Some (Inr s) \<Rightarrow> (Walking s, bytes, 0, w))
      | Walking s \<Rightarrow>
          (case bt_consumer s of
             CReturned walked \<Rightarrow> (Checking walked, bytes, 0, w)
           | CThrew \<Rightarrow> (Terminated, bytes, 0, w)
           | CLost _ \<Rightarrow> (Terminated, bytes, 0, w)
           | _ \<Rightarrow>
             let s1 = s\<lparr>bt_world := w, bt_user := bytes\<rparr> in
             (case (if turn then producer_step (stream_read K (any_ops K U)) C s1
                    else consumer_step (stream_destroy K (any_ops K U)) C count_bytes s1) of
                None \<Rightarrow> (x, bytes, 0, w)
              | Some t \<Rightarrow> (Walking t, bt_user t, 0, bt_world t)))
      | Checking walked \<Rightarrow> (Finished, bytes, (case walked of Inl _ \<Rightarrow> 1 | Inr _ \<Rightarrow> 0), w)
      | Finished \<Rightarrow> (x, bytes, 0, w)
      | Terminated \<Rightarrow> (x, bytes, 0, w))"

text \<open>Worker \<open>i\<close> makes a step; \<open>sets\<close> are the shards of each.\<close>

definition round_step ::
  "'w sys \<Rightarrow> ('q, 'w) uring_ops \<Rightarrow> (batch, 'c) channel_ops \<Rightarrow> (u64 \<Rightarrow> nat list \<Rightarrow> nat list) \<Rightarrow> shard_set list \<Rightarrow> batch_options \<Rightarrow>
     nat \<times> bool \<Rightarrow> ('c, 'q, 'w) bench_round \<Rightarrow> ('c, 'q, 'w) bench_round" where
  "round_step K U C shuffle sets options it R =
     (case it of (i, turn) \<Rightarrow>
       if i < length (br_workers R) then
         (case worker_step K U C shuffle (sets ! i) options turn (br_workers R ! i) (br_bytes R) (br_world R) of
            (x, bytes, failed, w) \<Rightarrow>
              \<lparr>br_world = w, br_bytes = bytes, br_failures = br_failures R + failed, br_workers = (br_workers R)[i := x]\<rparr>)
       else R)"

definition run_round where
  "run_round K U C shuffle sets options schedule R = fold (round_step K U C shuffle sets options) schedule R"

definition worker_finished :: "('c, 'q, 'w) bench_worker \<Rightarrow> bool" where
  "worker_finished x = (case x of Finished \<Rightarrow> True | _ \<Rightarrow> False)"

definition worker_terminated :: "('c, 'q, 'w) bench_worker \<Rightarrow> bool" where
  "worker_terminated x = (case x of Terminated \<Rightarrow> True | _ \<Rightarrow> False)"

text \<open>What the main thread does after it has joined the workers: \<open>None\<close> while one still runs.\<close>

definition round_result :: "('c, 'q, 'w) bench_round \<Rightarrow> (dataset_error + u64) option" where
  "round_result R =
     (if list_ex worker_terminated (br_workers R) then Some (Inl WalkLost)
      else if list_all worker_finished (br_workers R)
      then Some (if sint (br_failures R) > 0 then Inl StreamFailed else Inr (br_bytes R))
      else None)"

text \<open>The range loop, with a schedule for each iteration.\<close>

fun concurrent_passes ::
  "'w sys \<Rightarrow> ('q, 'w) uring_ops \<Rightarrow> (batch, 'c) channel_ops \<Rightarrow> (u64 \<Rightarrow> nat list \<Rightarrow> nat list) \<Rightarrow> shard_set list \<Rightarrow> batch_options \<Rightarrow>
     (nat \<times> bool) list list \<Rightarrow> u64 \<Rightarrow> 'w \<Rightarrow> ((dataset_error + u64) \<times> 'w) option" where
  "concurrent_passes K U C shuffle sets options [] total' w = Some (Inr total', w)"
| "concurrent_passes K U C shuffle sets options (schedule # schedules) total' w =
     (let R = run_round K U C shuffle sets options schedule (round_start (length sets) w) in
      (case round_result R of
         None \<Rightarrow> None
       | Some (Inl e) \<Rightarrow> Some (Inl e, br_world R)
       | Some (Inr bytes) \<Rightarrow> concurrent_passes K U C shuffle sets options schedules (total' + bytes) (br_world R)))"

definition concurrent_benchmark ::
  "'w sys \<Rightarrow> ('q, 'w) uring_ops \<Rightarrow> (batch, 'c) channel_ops \<Rightarrow> (u64 \<Rightarrow> nat list \<Rightarrow> nat list) \<Rightarrow> shard_set \<Rightarrow> nat \<Rightarrow> batch_options \<Rightarrow>
     (nat \<times> bool) list list \<Rightarrow> 'w \<Rightarrow> ((dataset_error + u64) \<times> 'w) option" where
  "concurrent_benchmark K U C shuffle all workers options schedules w =
     (if all = [] \<or> workers = 0 then Some (Inl NoShards, w)
      else concurrent_passes K U C shuffle (worker_sets workers all) options schedules 0 w)"

definition bm_dataset_concurrent where
  "bm_dataset_concurrent K U C shuffle all range0 =
     concurrent_benchmark K U C shuffle all (unat (range0 :: u64))
       (default_options\<lparr>batch_bytes := 1 * 1024 * 1024, prefetch := 2, read_depth := 16\<rparr>)"

section \<open>Streams that share the descriptors\<close>

text \<open>The descriptors of a stream; what it needs is that nobody else touches them.\<close>

definition stream_fds :: "'b stream \<Rightarrow> int set" where
  "stream_fds s = (if is_open (ss_file s) then {file_fd (ss_file s)} else {})"

definition shared_intact ::
  "'w sys \<Rightarrow> ('q, 'w) uring_ops \<Rightarrow> 'q uring_view \<Rightarrow> 'w view \<Rightarrow> u64 \<Rightarrow> 'q any_backend stream \<Rightarrow> 'w \<Rightarrow> bool" where
  "shared_intact K U Y V n s w \<longleftrightarrow> (\<exists>D. stream_intact K U Y V D n s w)"

definition shared_finished ::
  "'w sys \<Rightarrow> ('q, 'w) uring_ops \<Rightarrow> 'q uring_view \<Rightarrow> 'w view \<Rightarrow> 'q any_backend stream \<Rightarrow> 'w \<Rightarrow> bool" where
  "shared_finished K U Y V s w \<longleftrightarrow> ss_backend s = None \<and> \<not> is_open (ss_file s) \<and> uring_world K U Y V w"

definition shared_spent ::
  "'w sys \<Rightarrow> ('q, 'w) uring_ops \<Rightarrow> 'q uring_view \<Rightarrow> 'w view \<Rightarrow> 'q any_backend stream \<Rightarrow> 'w \<Rightarrow> bool" where
  "shared_spent K U Y V s w \<longleftrightarrow> (\<exists>D. stream_spent K U Y V D s w)"

interpretation sh: byte_source "stream_read K (any_ops K U)" "stream_destroy K (any_ops K U)"
    "shared_intact K U Y V n" "stream_rest V" "shared_finished K U Y V" "uring_world K U Y V"
    "shared_spent K U Y V" stream_busy for K U Y V n
proof unfold_locales
  fix s w out
  assume "shared_intact K U Y V n s w"
  then obtain D where D: "stream_intact K U Y V D n s w" by (auto simp: shared_intact_def)
  from bs.read_law [OF D, of out] show "\<exists>r out' s' w'. stream_read K (any_ops K U) out s w = Some (r, out', s', w') \<and>
      (\<forall>m. r = Inr m \<longrightarrow> shared_intact K U Y V n s' w' \<and> m = min (length out) (length (stream_rest V s)) \<and>
         out' = take m (stream_rest V s) @ drop m out \<and> stream_rest V s' = drop m (stream_rest V s)) \<and>
      (\<forall>e. r = Inl e \<longrightarrow> shared_spent K U Y V s' w')"
    unfolding shared_intact_def shared_spent_def by blast
  fix m out' s' w'
  assume "stream_read K (any_ops K U) out s w = Some (Inr m, out', s', w')" and "m < length out"
  from bs.end_law [OF D this] show "shared_finished K U Y V s' w'"
    by (simp add: shared_finished_def stream_finished_def stream_gone_def)
next
  fix s w
  show "shared_intact K U Y V n s w \<Longrightarrow> shared_spent K U Y V s w"
    unfolding shared_intact_def shared_spent_def by (elim exE, rule exI) (erule bs.intact_spent)
  show "shared_spent K U Y V s w \<and> \<not> stream_busy s" if "shared_finished K U Y V s w"
  proof -
    from that have "stream_finished K U Y V (v_fds V w) s w"
      by (simp add: shared_finished_def stream_finished_def stream_gone_def)
    from bs.finished_spent [OF this] show ?thesis by (auto simp: shared_spent_def)
  qed
  show "case stream_destroy K (any_ops K U) s w of None \<Rightarrow> stream_busy s
      | Some w' \<Rightarrow> \<not> stream_busy s \<and> uring_world K U Y V w'" if "shared_spent K U Y V s w"
    using that bs.destroy_law by (fastforce simp: shared_spent_def stream_gone_def split: option.splits)
qed

text \<open>An intact stream stays intact while its own descriptor does.\<close>

lemma shared_intact_stable:
  assumes "shared_intact K U Y V n s w" and "uring_world K U Y V w'"
    and "\<forall>fd \<in> stream_fds s. v_fds V w' fd = v_fds V w fd"
  shows "shared_intact K U Y V n s w'"
proof -
  let ?inv = "stream_inv V (uring_world K U Y V) (any_requests Y) (any_inv K U Y V)"
  let ?fd = "file_fd (ss_file s)"
  from assms(1) obtain D where inv: "?inv s w" and own: "owns_file V D s w"
    and fit: "block_law K V n" "options_fit uring_len (ss_options s) n"
    by (auto simp: shared_intact_def stream_intact_def)
  have "?inv s w' \<and> owns_file V (if ss_open s then (v_fds V w')(?fd := None) else v_fds V w') s w'"
  proof (cases "ss_open s")
    case False
    with inv assms(2) show ?thesis by (simp add: stream_inv_def owns_file_def)
  next
    case True
    with inv obtain c b where c: "open_inv V (any_requests Y) (any_inv K U Y V) c s w" "stream_static s"
      and b: "ss_backend s = Some b" "any_inv K U Y V ?fd c b (ss_buffers s) w"
      by (auto simp: stream_inv_def open_inv_def)
    from c(1) have fd: "0 \<le> ?fd" "v_fds V w ?fd = Some c" by (simp_all add: open_inv_def)
    then have same: "v_fds V w' ?fd = v_fds V w ?fd" using assms(3) by (simp add: stream_fds_def is_open_def)
    have "any_inv K U Y V ?fd c b (ss_buffers s) w'"
      by (rule any.binv_other [OF b(2) assms(2) same]) simp
    then have "open_inv V (any_requests Y) (any_inv K U Y V) c s w'"
      using c(1) b(1) same by (simp add: open_inv_def)
    with True c(2) assms(2) have "?inv s w'" by (auto simp: stream_inv_def)
    moreover have "owns_file V ((v_fds V w')(?fd := None)) s w'"
      using fd(1) same [unfolded fd(2)] by (simp add: owns_file_def is_open_def) (metis fun_upd_triv)
    ultimately show ?thesis using True by simp
  qed
  with fit show ?thesis unfolding shared_intact_def stream_intact_def by blast
qed

text \<open>
  Ownership in terms of the descriptors: those in \<open>F\<close> are open, and the others are those of \<open>D\<close>. It fixes those of the others.
\<close>

definition owns_fds :: "'w view \<Rightarrow> (int \<Rightarrow> byte list option) \<Rightarrow> int set \<Rightarrow> 'w \<Rightarrow> bool" where
  "owns_fds V D F w \<longleftrightarrow> (\<forall>fd. if fd \<in> F then D fd = None \<and> v_fds V w fd \<noteq> None else v_fds V w fd = D fd)"

lemma owns_fds_empty [simp]: "owns_fds V D {} w \<longleftrightarrow> v_fds V w = D"
  by (auto simp: owns_fds_def)

lemma owns_file_fds: "owns_file V D s w \<longleftrightarrow> owns_fds V D (stream_fds s) w"
proof (cases "is_open (ss_file s)")
  case True
  let ?fd = "file_fd (ss_file s)"
  have "(\<exists>c. v_fds V w = D(?fd \<mapsto> c)) \<longleftrightarrow> v_fds V w ?fd \<noteq> None \<and> (\<forall>fd. fd \<noteq> ?fd \<longrightarrow> v_fds V w fd = D fd)"
    by (auto simp: fun_eq_iff)
  with True show ?thesis by (auto simp: owns_file_def stream_fds_def owns_fds_def)
qed (auto simp: owns_file_def stream_fds_def)

lemma owns_fds_unique: "owns_fds V D F w \<Longrightarrow> owns_fds V D' F w \<Longrightarrow> D' = D"
  by (rule ext) (simp add: owns_fds_def split: if_splits, metis)

lemma owns_fds_stable:
  assumes "owns_fds V D F w" and "\<forall>fd \<in> F. v_fds V w' fd = v_fds V w fd"
  shows "owns_fds V (\<lambda>fd. if fd \<in> F then None else v_fds V w' fd) F w'"
  using assms by (simp add: owns_fds_def split: if_splits)

section \<open>Walks that share the descriptors\<close>

abbreviation walk_inv where
  "walk_inv K U Y V Q block n p bytes s \<equiv>
     pool_inv Q n p s \<and> close_inv Q s \<and> error_inv s \<and>
     data_inv Q n (shared_intact K U Y V block) (stream_rest V) (shared_finished K U Y V) (uring_world K U Y V)
       (source_error (stream_read K (any_ops K U)) (shared_intact K U Y V block)) bytes s"

abbreviation walk_leaves where
  "walk_leaves K U Y V \<equiv> leave_inv (shared_spent K U Y V) stream_busy (uring_world K U Y V)"

text \<open>The descriptors of a walk: when the call has returned, its stream has been destroyed.\<close>

definition walk_fds :: "('c, 'b stream, 'u, 'w) batches \<Rightarrow> int set" where
  "walk_fds s = (if consumer_ended (bt_consumer s) then {} else stream_fds (bt_stream s))"

definition walk_lost :: "('c, 's, 'u, 'w) batches \<Rightarrow> bool" where
  "walk_lost s \<longleftrightarrow> (\<exists>r. bt_consumer s = CLost r)"

text \<open>A read has failed.\<close>

definition failing :: "('c, 's, 'u, 'w) batches \<Rightarrow> bool" where
  "failing s \<longleftrightarrow> bt_error s \<noteq> None \<or> (\<exists>e. bt_producer s = PSetError e)"

text \<open>A step touches no descriptor but the stream's own, also after a read has failed, unless it loses the walk.\<close>

lemma walk_step_owns:
  assumes law: "channel_law C Q" and inv: "walk_inv K U Y V Q block n p bytes s" and leave: "walk_leaves K U Y V s"
    and step: "batches_step K U C callback s t" and ok: "uring_world K U Y V (bt_world s)"
    and own: "owns_fds V D (walk_fds s) (bt_world s)"
  shows "walk_lost t \<or> uring_world K U Y V (bt_world t) \<and> owns_fds V D (walk_fds t) (bt_world t)"
proof -
  have now: "\<not> consumer_ended (bt_consumer s)"
  proof
    assume "consumer_ended (bt_consumer s)"
    moreover from this leave have "bt_producer s = PDone" by (simp add: leave_inv_def)
    ultimately show False
      using step by (auto simp: batch_step_iff producer_step_def consumer_step_def elim: consumer_ended.elims)
  qed
  with own have own': "owns_file V D (bt_stream s) (bt_world s)" by (simp add: walk_fds_def owns_file_fds)
  have same: "D' = D" if "owns_file V D' (bt_stream s) (bt_world s)" for D'
    using owns_fds_unique [of V D "stream_fds (bt_stream s)" "bt_world s" D'] own' that by (simp add: owns_file_fds)
  have reads: "uring_world K U Y V w' \<and> owns_fds V D (stream_fds s') w'"
    if "bt_producer s = PRead b" "stream_read K (any_ops K U) out (bt_stream s) (bt_world s) = Some (r, out', s', w')"
    for b out r out' s' w'
  proof -
    from that(1) inv have "shared_intact K U Y V block (bt_stream s) (bt_world s)" by (simp add: data_inv_def)
    then obtain D' where D': "stream_intact K U Y V D' block (bt_stream s) (bt_world s)"
      by (auto simp: shared_intact_def)
    have "D' = D" by (rule same) (use D' in \<open>simp add: stream_intact_def\<close>)
    moreover have "stream_spent K U Y V D' s' w'"
      using bs.read_law [OF D', of out] that(2) bs.intact_spent by (cases r) auto
    ultimately show ?thesis by (simp add: stream_spent_def owns_file_fds)
  qed
  from step show ?thesis
  proof (cases rule: batch_step.cases)
    case produce
    from law this show ?thesis
      by (cases rule: producer_step_cases) (use now ok own reads in \<open>auto simp: walk_fds_def\<close>)
  next
    case consume
    from law this show ?thesis
    proof (cases rule: consumer_step_cases)
      case (join r world')
      from leave now obtain D' where D': "stream_spent K U Y V D' (bt_stream s) (bt_world s)"
        by (auto simp: leave_inv_def shared_spent_def)
      then have "D' = D" by (intro same) (simp add: stream_spent_def)
      with bs.destroy_law [OF D'] join have "stream_gone K U Y V D world'" by simp
      with join show ?thesis by (auto simp: walk_fds_def stream_gone_def split: option.splits)
    qed (use now ok own in \<open>auto simp: walk_fds_def walk_lost_def\<close>)
  qed
qed

text \<open>The other walks do not notice.\<close>

lemma walk_inv_stable:
  assumes inv: "walk_inv K U Y V Q block n p bytes (s\<lparr>bt_world := w\<rparr>)" and ok: "uring_world K U Y V w'"
    and fds: "producer_live (bt_producer s) \<Longrightarrow> \<forall>fd \<in> stream_fds (bt_stream s). v_fds V w' fd = v_fds V w fd"
  shows "walk_inv K U Y V Q block n p bytes (s\<lparr>bt_world := w'\<rparr>)"
  using inv shared_intact_stable [OF _ ok fds] ok
  by (auto simp: pool_inv_def close_inv_def error_inv_def data_inv_def sent_def shared_finished_def)

lemma walk_leaves_stable:
  assumes leave: "walk_leaves K U Y V (s\<lparr>bt_world := w\<rparr>)" and ok: "uring_world K U Y V w'"
    and fds: "\<forall>fd \<in> walk_fds s. v_fds V w' fd = v_fds V w fd"
  shows "walk_leaves K U Y V (s\<lparr>bt_world := w'\<rparr>)"
proof (cases "consumer_ended (bt_consumer s)")
  case True
  with leave ok show ?thesis by (auto simp: leave_inv_def)
next
  case False
  with leave obtain D where D: "stream_spent K U Y V D (bt_stream s) w" by (auto simp: leave_inv_def shared_spent_def)
  from D have "owns_fds V D (stream_fds (bt_stream s)) w" by (simp add: stream_spent_def owns_file_fds)
  from owns_fds_stable [OF this] fds False
  have "owns_fds V (\<lambda>fd. if fd \<in> stream_fds (bt_stream s) then None else v_fds V w' fd) (stream_fds (bt_stream s)) w'"
    by (simp add: walk_fds_def)
  with D ok have "\<exists>D. stream_spent K U Y V D (bt_stream s) w'" unfolding stream_spent_def owns_file_fds by blast
  with False show ?thesis by (simp add: leave_inv_def shared_spent_def)
qed

text \<open>A walk in the world \<open>w\<close>; and one in which a read has failed.\<close>

definition sound_walk ::
  "'w sys \<Rightarrow> ('q, 'w) uring_ops \<Rightarrow> 'q uring_view \<Rightarrow> 'w view \<Rightarrow> (batch, 'c) channel_view \<Rightarrow> u64 \<Rightarrow> nat \<Rightarrow> nat \<Rightarrow>
     byte list \<Rightarrow> ('c, 'q any_backend stream, 'u, 'w) batches \<Rightarrow> 'w \<Rightarrow> bool" where
  "sound_walk K U Y V Q block n p bytes s w \<longleftrightarrow> walk_inv K U Y V Q block n p bytes (s\<lparr>bt_world := w\<rparr>) \<and>
     walk_leaves K U Y V (s\<lparr>bt_world := w\<rparr>) \<and> going s \<and> \<not> walk_lost s \<and> uring_world K U Y V w \<and>
     (\<exists>D. owns_fds V D (walk_fds s) w)"

definition doomed_walk :: "(batch, 'c) channel_view \<Rightarrow> nat \<Rightarrow> nat \<Rightarrow> ('c, 's, 'u, 'w) batches \<Rightarrow> bool" where
  "doomed_walk Q n p s \<longleftrightarrow> pool_inv Q n p s \<and> close_inv Q s \<and> error_inv s \<and> going s \<and> failing s \<and>
     \<not> producer_live (bt_producer s)"

lemma walk_inv_user [simp]:
  "pool_inv Q n p (s\<lparr>bt_user := u\<rparr>) = pool_inv Q n p s"
  "close_inv Q (s\<lparr>bt_user := u\<rparr>) = close_inv Q s"
  "error_inv (s\<lparr>bt_user := u\<rparr>) = error_inv s"
  "data_inv Q n i r f l e bytes (s\<lparr>bt_user := u\<rparr>) = data_inv Q n i r f l e bytes s"
  "going (s\<lparr>bt_user := u\<rparr>) = going s"
  "failing (s\<lparr>bt_user := u\<rparr>) = failing s"
  "leave_inv sp bu lb (s\<lparr>bt_user := u\<rparr>) = leave_inv sp bu lb s"
  "walk_fds (s\<lparr>bt_user := u\<rparr>) = walk_fds s"
  by (simp_all add: pool_inv_def close_inv_def error_inv_def data_inv_def sent_def going_def failing_def leave_inv_def walk_fds_def)

lemma walk_inv_world [simp]:
  "pool_inv Q n p (s\<lparr>bt_world := w\<rparr>) = pool_inv Q n p s"
  "close_inv Q (s\<lparr>bt_world := w\<rparr>) = close_inv Q s"
  "error_inv (s\<lparr>bt_world := w\<rparr>) = error_inv s"
  "going (s\<lparr>bt_world := w\<rparr>) = going s"
  "failing (s\<lparr>bt_world := w\<rparr>) = failing s"
  "walk_fds (s\<lparr>bt_world := w\<rparr>) = walk_fds s"
  by (simp_all add: pool_inv_def close_inv_def error_inv_def going_def failing_def walk_fds_def)

lemma sound_walk_keeps:
  assumes law: "channel_law C Q" and n: "0 < n" and go: "goes_on callback"
    and sound: "sound_walk K U Y V Q block n p bytes s w"
    and step: "batches_step K U C callback (s\<lparr>bt_world := w, bt_user := u\<rparr>) t"
  shows "walk_inv K U Y V Q block n p bytes t" and "walk_leaves K U Y V t" and "going t"
proof -
  let ?s = "s\<lparr>bt_world := w, bt_user := u\<rparr>"
  from sound have inv: "walk_inv K U Y V Q block n p bytes ?s" and leave: "walk_leaves K U Y V ?s"
    and going: "going ?s" by (simp_all add: sound_walk_def)
  show "walk_inv K U Y V Q block n p bytes t" by (rule sh.batch_step_inv [OF law n step inv])
  show "walk_leaves K U Y V t" by (rule sh.batch_step_leaves [OF law step inv leave])
  show "going t" using batch_step_going [OF law step go] inv going by blast
qed

lemma sound_walk_step:
  assumes law: "channel_law C Q" and n: "0 < n" and go: "goes_on callback"
    and sound: "sound_walk K U Y V Q block n p bytes s w"
    and step: "batches_step K U C callback (s\<lparr>bt_world := w, bt_user := u\<rparr>) t"
  shows "if walk_lost t then bt_error t \<noteq> None \<and> stream_busy (bt_stream t)
    else sound_walk K U Y V Q block n p bytes t (bt_world t) \<and>
      (\<exists>D. owns_fds V D (walk_fds s) w \<and> owns_fds V D (walk_fds t) (bt_world t))"
proof -
  let ?s = "s\<lparr>bt_world := w, bt_user := u\<rparr>"
  from sound have inv: "walk_inv K U Y V Q block n p bytes ?s" and leave: "walk_leaves K U Y V ?s"
    and ok: "uring_world K U Y V w" by (simp_all add: sound_walk_def)
  from sound obtain D where D: "owns_fds V D (walk_fds s) w" by (auto simp: sound_walk_def)
  note keeps = sound_walk_keeps [OF law n go sound step]
  show ?thesis
  proof (cases "walk_lost t")
    case True
    then obtain l where l: "bt_consumer t = CLost l" by (auto simp: walk_lost_def)
    with keeps(3) obtain r where r: "l = Some r" by (cases l) (auto simp: going_def)
    have "bt_producer t = PDone" "bt_keep_going t" using keeps l r by (auto simp: close_inv_def going_def)
    with keeps(1) l r have "bt_error t \<noteq> None" by (auto simp: data_inv_def)
    with True keeps(2) l show ?thesis by (simp add: leave_inv_def)
  next
    case False
    from walk_step_owns [OF law inv leave step, of D] ok D False
    have "uring_world K U Y V (bt_world t) \<and> owns_fds V D (walk_fds t) (bt_world t)" by simp
    with False keeps D show ?thesis by (auto simp: sound_walk_def)
  qed
qed

lemma failing_doomed:
  assumes "pool_inv Q n p s" "close_inv Q s" "error_inv s" and "going s" and "failing s"
  shows "doomed_walk Q n p s"
  using assms by (auto simp: doomed_walk_def failing_def error_inv_def)

lemma doomed_walk_step:
  assumes law: "channel_law C Q" and go: "goes_on callback" and doomed: "doomed_walk Q n p s"
    and step: "batches_step K U C callback (s\<lparr>bt_world := w, bt_user := u\<rparr>) t"
  shows "doomed_walk Q n p t"
proof -
  let ?s = "s\<lparr>bt_world := w, bt_user := u\<rparr>"
  from doomed have inv: "pool_inv Q n p ?s" "close_inv Q ?s" "error_inv ?s" "going ?s" "failing ?s"
    and live: "\<not> producer_live (bt_producer ?s)" by (simp_all add: doomed_walk_def)
  have "going t" by (rule batch_step_going [OF law step go inv(1,2,4)])
  moreover from step have "pool_inv Q n p t \<and> close_inv Q t \<and> error_inv t \<and> failing t \<and> \<not> producer_live (bt_producer t)"
  proof (cases rule: batch_step.cases)
    case produce
    have "failing t \<and> \<not> producer_live (bt_producer t)"
      using law produce by (cases rule: producer_step_cases)
        (use inv(5) live in \<open>auto simp: failing_def shared_error_set_def split: option.splits\<close>)
    with sh.producer_pool_inv [OF law produce inv(1)] sh.producer_close_inv [OF law produce inv(2)]
      sh.producer_error_inv [OF law produce inv(2,3)] live show ?thesis by simp
  next
    case consume
    have "failing t \<and> \<not> producer_live (bt_producer t)"
      using law consume by (cases rule: consumer_step_cases) (use inv(5) live in \<open>auto simp: failing_def\<close>)
    with sh.consumer_pool_inv [OF law consume inv(1)] sh.consumer_close_inv [OF law consume inv(2,1)]
      sh.consumer_error_inv [OF law consume inv(3)] show ?thesis by simp
  qed
  ultimately show ?thesis by (simp add: doomed_walk_def)
qed

text \<open>How they end.\<close>

lemma sound_walk_end:
  assumes "sound_walk K U Y V Q block n p bytes s w"
  shows "bt_consumer s = CReturned r \<Longrightarrow> \<not> failing s \<Longrightarrow> r = Inr () \<and> bt_given s = chunks n bytes"
    and "bt_consumer s \<noteq> CThrew" and "bt_consumer s \<noteq> CLost l"
proof -
  let ?s = "s\<lparr>bt_world := w\<rparr>"
  from assms have inv: "walk_inv K U Y V Q block n p bytes ?s" and going: "going s" by (simp_all add: sound_walk_def)
  show "bt_consumer s \<noteq> CThrew" using going by (auto simp: going_def)
  show "bt_consumer s \<noteq> CLost l" using assms by (auto simp: sound_walk_def walk_lost_def)
  assume ret: "bt_consumer s = CReturned r" and "\<not> failing s"
  then have no: "bt_error s = None" by (simp add: failing_def)
  from inv ret going have more: "bt_producer s = PDone" "q_items Q (bt_ready s) = []" "bt_keep_going s"
    by (auto simp: close_inv_def going_def)
  have "r = Inr ()" using inv ret more(3) no by (simp add: error_inv_def result_of_def)
  moreover have "sent Q ?s = chunks n bytes" using inv no ret more by (simp add: data_inv_def)
  ultimately show "r = Inr () \<and> bt_given s = chunks n bytes" using ret more by (simp add: sent_def)
qed

lemma doomed_walk_end:
  assumes "doomed_walk Q n p s" and "bt_consumer s = CReturned r"
  shows "\<exists>e. r = Inl e"
proof -
  from assms have more: "bt_producer s = PDone" "bt_keep_going s"
    by (auto simp: doomed_walk_def close_inv_def going_def)
  with assms have "r = result_of (bt_error s)" "bt_error s \<noteq> None"
    by (auto simp: doomed_walk_def error_inv_def failing_def)
  then show ?thesis by (auto simp: result_of_def)
qed

text \<open>The counter is raised by what the callback is given.\<close>

lemma batch_step_counts:
  assumes "batch_step rd destroy C count_bytes s t"
  shows "\<exists>new. bt_given t = bt_given s @ new \<and> bt_user t = bt_user s + of_nat (length (concat new))"
  using assms unfolding batch_step_iff
proof
  assume "producer_step rd C s = Some t"
  then have "bt_given t = bt_given s \<and> bt_user t = bt_user s"
    by (auto simp: producer_step_def split: producer.splits channel_result.splits option.splits prod.splits)
  then show ?thesis by (intro exI [of _ "[]"]) simp
next
  assume step: "consumer_step destroy C count_bytes s = Some t"
  show ?thesis
  proof (cases "\<exists>b. bt_consumer s = CCall b")
    case True
    with step show ?thesis
      by (auto simp: consumer_step_def count_bytes_def split: option.splits)
  next
    case False
    with step have "bt_given t = bt_given s \<and> bt_user t = bt_user s"
      by (auto simp: consumer_step_def split: consumer.splits channel_result.splits option.splits prod.splits if_splits)
    then show ?thesis by (intro exI [of _ "[]"]) simp
  qed
qed

section \<open>Workers\<close>

definition worker_fds :: "('c, 'q, 'w) bench_worker \<Rightarrow> int set" where
  "worker_fds x = (case x of Walking s \<Rightarrow> walk_fds s | _ \<Rightarrow> {})"

text \<open>What the worker has added to the counter; \<open>bytes\<close> are those of its shards.\<close>

definition worker_counted :: "byte list \<Rightarrow> ('c, 'q, 'w) bench_worker \<Rightarrow> nat" where
  "worker_counted bytes x =
     (case x of Starting \<Rightarrow> 0 | Walking s \<Rightarrow> length (concat (bt_given s)) | Terminated \<Rightarrow> 0 | _ \<Rightarrow> length bytes)"

definition worker_sound ::
  "'w sys \<Rightarrow> ('q, 'w) uring_ops \<Rightarrow> 'q uring_view \<Rightarrow> 'w view \<Rightarrow> (batch, 'c) channel_view \<Rightarrow> u64 \<Rightarrow> nat \<Rightarrow> nat \<Rightarrow>
     byte list \<Rightarrow> ('c, 'q, 'w) bench_worker \<Rightarrow> 'w \<Rightarrow> bool" where
  "worker_sound K U Y V Q block n p bytes x w =
     (case x of Walking s \<Rightarrow> sound_walk K U Y V Q block n p bytes s w | Terminated \<Rightarrow> False | _ \<Rightarrow> True)"

text \<open>A worker without a failed read; one that is going to count a failure, or will not end; one whose walk was lost.\<close>

definition worker_clean :: "('c, 'q, 'w) bench_worker \<Rightarrow> bool" where
  "worker_clean x = (case x of Walking s \<Rightarrow> \<not> failing s | Checking r \<Rightarrow> r = Inr () | Terminated \<Rightarrow> False | _ \<Rightarrow> True)"

definition worker_doomed :: "(batch, 'c) channel_view \<Rightarrow> nat \<Rightarrow> nat \<Rightarrow> ('c, 'q, 'w) bench_worker \<Rightarrow> bool" where
  "worker_doomed Q n p x =
     (case x of Walking s \<Rightarrow> doomed_walk Q n p s | Checking r \<Rightarrow> r \<noteq> Inr () | Terminated \<Rightarrow> True | _ \<Rightarrow> False)"

definition worker_lost :: "('c, 'q, 'w) bench_worker \<Rightarrow> bool" where
  "worker_lost x = (case x of Walking s \<Rightarrow> walk_lost s | Terminated \<Rightarrow> True | _ \<Rightarrow> False)"

text \<open>The moment at which a walk is lost: after a failed read, the stream is destroyed with reads in flight.\<close>

definition worker_loses :: "('c, 'q, 'w) bench_worker \<Rightarrow> bool" where
  "worker_loses x =
     (case x of Walking s \<Rightarrow> walk_lost s \<and> bt_error s \<noteq> None \<and> stream_busy (bt_stream s) | _ \<Rightarrow> False)"

lemmas worker_simps = worker_fds_def worker_counted_def worker_sound_def worker_clean_def worker_doomed_def

lemma data_inv_mono:
  assumes "data_inv Q n i r f l e bytes s"
    and "\<And>s w. i s w \<Longrightarrow> i' s w" and "\<And>s w. f s w \<Longrightarrow> f' s w" and "\<And>w. l w \<Longrightarrow> l' w" and "\<And>x. e x \<Longrightarrow> e' x"
  shows "data_inv Q n i' r f' l' e' bytes s"
  using assms unfolding data_inv_def by blast

lemma source_error_mono: "source_error rd i e \<Longrightarrow> (\<And>s w. i s w \<Longrightarrow> i' s w) \<Longrightarrow> source_error rd i' e"
  unfolding source_error_def by blast

lemma count_goes_on: "goes_on count_bytes"
  by (simp add: goes_on_def count_bytes_def)

text \<open>The call starts a sound walk.\<close>

lemma starting_walk:
  assumes set: "dataset_setting K U Y V C Q shuffle block shards options w"
    and start: "for_each_batch C shuffle shards options user w = Some (Inr s)"
  shows "sound_walk K U Y V Q block (unat (batch_bytes options)) (unat (prefetch options))
      (dataset_bytes V shuffle shards options) s w"
    and "bt_given s = []" and "walk_fds s = {}" and "\<not> failing s"
proof -
  from start have s: "bt_world s = w" "bt_given s = []" "going s" "\<not> failing s" "\<not> walk_lost s" "\<not> is_open (ss_file (bt_stream s))"
    by (auto simp: for_each_batch_def bind_eq_Some_conv going_def failing_def walk_lost_def stream_init_def file_none_def
      is_open_def split: if_splits)
  then show "bt_given s = []" "\<not> failing s" and fds: "walk_fds s = {}" by (simp_all add: walk_fds_def stream_fds_def)
  have world: "uring_world K U Y V w" using set by (simp add: dataset_setting_def)
  note inv = start_inv(1) [OF set start]
  then have "data_inv Q (unat (batch_bytes options)) (shared_intact K U Y V block) (stream_rest V) (shared_finished K U Y V)
      (uring_world K U Y V) (source_error (stream_read K (any_ops K U)) (shared_intact K U Y V block))
      (dataset_bytes V shuffle shards options) s"
    by (elim conjE, elim data_inv_mono)
      (auto simp: shared_intact_def [abs_def] shared_finished_def stream_finished_def stream_gone_def elim!: source_error_mono)
  moreover have "walk_leaves K U Y V s"
    using start_leaves [OF set start] by (auto simp: leave_inv_def shared_spent_def stream_gone_def split: if_splits)
  moreover have "s\<lparr>bt_world := w\<rparr> = s" using s(1) by simp
  ultimately show "sound_walk K U Y V Q block (unat (batch_bytes options)) (unat (prefetch options))
      (dataset_bytes V shuffle shards options) s w"
    using inv s(3,5) world fds unfolding sound_walk_def by auto
qed

text \<open>In the call, a step of the worker is one of the walk.\<close>

lemma worker_step_walking:
  assumes "worker_step K U C shuffle shards options turn (Walking s) u w = (x', u', failed, w')"
    and "\<not> consumer_ended (bt_consumer s)"
  obtains "x' = Walking s" "u' = u" "failed = 0" "w' = w"
  | t where "batches_step K U C count_bytes (s\<lparr>bt_world := w, bt_user := u\<rparr>) t"
      "x' = Walking t" "u' = bt_user t" "failed = 0" "w' = bt_world t"
proof -
  have "worker_step K U C shuffle shards options turn (Walking s) u w =
      (case (if turn then producer_step (stream_read K (any_ops K U)) C (s\<lparr>bt_world := w, bt_user := u\<rparr>)
             else consumer_step (stream_destroy K (any_ops K U)) C count_bytes (s\<lparr>bt_world := w, bt_user := u\<rparr>)) of
         None \<Rightarrow> (Walking s, u, 0, w) | Some t \<Rightarrow> (Walking t, bt_user t, 0, bt_world t))"
    using assms(2) by (cases "bt_consumer s") (auto simp: worker_step_def Let_def)
  with assms(1) that show thesis by (auto simp: batch_step_iff split: option.splits if_splits)
qed

lemma sound_worker_fds: "worker_sound K U Y V Q block n p bytes x w \<Longrightarrow> \<exists>D. owns_fds V D (worker_fds x) w"
  by (cases x) (auto simp: worker_simps sound_walk_def)

text \<open>One step of a sound worker.\<close>

lemma worker_step_sound:
  assumes set: "dataset_setting K U Y V C Q shuffle block shards options w" and n: "0 < unat (batch_bytes options)"
    and sound: "worker_sound K U Y V Q block (unat (batch_bytes options)) (unat (prefetch options))
      (dataset_bytes V shuffle shards options) x w"
    and step: "worker_step K U C shuffle shards options turn x u w = (x', u', failed, w')"
  shows "worker_loses x' \<or> uring_world K U Y V w' \<and>
    worker_sound K U Y V Q block (unat (batch_bytes options)) (unat (prefetch options))
      (dataset_bytes V shuffle shards options) x' w' \<and>
    (\<exists>D. owns_fds V D (worker_fds x) w \<and> owns_fds V D (worker_fds x') w')"
proof -
  let ?n = "unat (batch_bytes options)" and ?p = "unat (prefetch options)"
  let ?bytes = "dataset_bytes V shuffle shards options"
  have law: "channel_law C Q" and world: "uring_world K U Y V w" using set by (simp_all add: dataset_setting_def)
  show ?thesis
  proof (cases x)
    case Starting
    then show ?thesis
      using step world starting_walk [OF set, of u]
      by (auto simp: worker_step_def worker_simps split: option.splits sum.splits)
  next
    case (Walking s)
    with sound have s: "sound_walk K U Y V Q block ?n ?p ?bytes s w" by (simp add: worker_sound_def)
    show ?thesis
    proof (cases "consumer_ended (bt_consumer s)")
      case True
      with sound_walk_end(2,3) [OF s] obtain r where r: "bt_consumer s = CReturned r" by (cases "bt_consumer s") auto
      then have "x' = Checking r" "w' = w" using step Walking by (simp_all add: worker_step_def)
      with Walking True world show ?thesis by (simp add: worker_simps walk_fds_def)
    next
      case False
      from step [unfolded Walking] False show ?thesis
      proof (cases rule: worker_step_walking)
        case 1
        with sound world sound_worker_fds [OF sound] Walking show ?thesis by auto
      next
        case (2 t)
        from sound_walk_step [OF law n count_goes_on s 2(1)] 2 Walking show ?thesis
          by (auto simp: worker_simps worker_loses_def sound_walk_def split: if_splits)
      qed
    qed
  qed (use step sound world in \<open>auto simp: worker_step_def worker_simps\<close>)
qed

text \<open>As long as no read fails, it counts what it is given.\<close>

lemma worker_step_clean:
  assumes set: "dataset_setting K U Y V C Q shuffle block shards options w" and n: "0 < unat (batch_bytes options)"
    and sound: "worker_sound K U Y V Q block (unat (batch_bytes options)) (unat (prefetch options))
      (dataset_bytes V shuffle shards options) x w" and clean: "worker_clean x"
    and step: "worker_step K U C shuffle shards options turn x u w = (x', u', failed, w')"
  shows "failed = 0 \<and> (worker_doomed Q (unat (batch_bytes options)) (unat (prefetch options)) x' \<or>
    worker_clean x' \<and> (\<exists>d. worker_counted (dataset_bytes V shuffle shards options) x' =
        worker_counted (dataset_bytes V shuffle shards options) x + d \<and> u' = u + of_nat d))"
proof -
  let ?n = "unat (batch_bytes options)" and ?p = "unat (prefetch options)"
  let ?bytes = "dataset_bytes V shuffle shards options"
  have law: "channel_law C Q" using set by (simp add: dataset_setting_def)
  show ?thesis
  proof (cases x)
    case Starting
    then show ?thesis
      using step starting_walk [OF set, of u]
      by (auto simp: worker_step_def worker_simps split: option.splits sum.splits)
  next
    case (Walking s)
    with sound have s: "sound_walk K U Y V Q block ?n ?p ?bytes s w" by (simp add: worker_sound_def)
    from Walking clean have no: "\<not> failing s" by (simp add: worker_clean_def)
    show ?thesis
    proof (cases "consumer_ended (bt_consumer s)")
      case True
      with sound_walk_end(2,3) [OF s] obtain r where r: "bt_consumer s = CReturned r" by (cases "bt_consumer s") auto
      from sound_walk_end(1) [OF s r no] have res: "r = Inr ()" "bt_given s = chunks ?n ?bytes" by blast+
      have "x' = Checking (Inr ())" "u' = u" "failed = 0" using step Walking r res(1) by (simp_all add: worker_step_def)
      with Walking res n show ?thesis by (simp add: worker_simps concat_chunks)
    next
      case False
      from step [unfolded Walking] False show ?thesis
      proof (cases rule: worker_step_walking)
        case 1
        with clean Walking show ?thesis by (auto intro: exI [of _ 0])
      next
        case (2 t)
        from batch_step_counts [OF 2(1)] obtain new where
          new: "bt_given t = bt_given s @ new" "bt_user t = u + of_nat (length (concat new))" by auto
        note keeps = sound_walk_keeps [OF law n count_goes_on s 2(1)]
        show ?thesis
        proof (cases "failing t")
          case True
          with keeps have "doomed_walk Q ?n ?p t" by (intro failing_doomed) simp_all
          with 2 show ?thesis by (simp add: worker_simps)
        qed (use 2 new Walking in \<open>auto simp: worker_simps\<close>)
      qed
    qed
  qed (use step clean in \<open>auto simp: worker_step_def worker_simps intro: exI [of _ 0]\<close>)
qed

text \<open>One step of a doomed worker: in the end it counts its failure.\<close>

lemma worker_step_doomed:
  assumes law: "channel_law C Q" and doomed: "worker_doomed Q n p x"
    and step: "worker_step K U C shuffle shards options turn x u w = (x', u', failed, w')"
  shows "worker_doomed Q n p x' \<and> failed = 0 \<or> x' = Finished \<and> failed = 1"
proof (cases x)
  case (Walking s)
  with doomed have s: "doomed_walk Q n p s" by (simp add: worker_doomed_def)
  show ?thesis
  proof (cases "consumer_ended (bt_consumer s)")
    case True
    then show ?thesis
      using step Walking doomed_walk_end [OF s]
      by (cases "bt_consumer s") (auto simp: worker_step_def worker_doomed_def)
  next
    case False
    from step [unfolded Walking] False show ?thesis
    proof (cases rule: worker_step_walking)
      case 1
      with doomed Walking show ?thesis by simp
    next
      case (2 t)
      from doomed_walk_step [OF law count_goes_on s 2(1)] 2 show ?thesis by (simp add: worker_doomed_def)
    qed
  qed
next
  case (Checking r)
  with doomed step show ?thesis by (cases r) (auto simp: worker_step_def worker_doomed_def)
qed (use doomed step in \<open>auto simp: worker_step_def worker_doomed_def\<close>)

text \<open>A lost walk is not found again.\<close>

lemma worker_step_lost:
  assumes "worker_lost x" and "worker_step K U C shuffle shards options turn x u w = (x', u', failed, w')"
  shows "x' = Terminated"
  using assms by (cases x) (auto simp: worker_lost_def walk_lost_def worker_step_def)

text \<open>A sound worker does not notice the steps of the others.\<close>

lemma worker_sound_stable:
  assumes sound: "worker_sound K U Y V Q block n p bytes x w" and ok: "uring_world K U Y V w'"
    and fds: "\<forall>fd \<in> worker_fds x. v_fds V w' fd = v_fds V w fd"
  shows "worker_sound K U Y V Q block n p bytes x w'"
proof (cases x)
  case (Walking s)
  with sound have s: "sound_walk K U Y V Q block n p bytes s w" by (simp add: worker_sound_def)
  from fds Walking have own: "\<forall>fd \<in> walk_fds s. v_fds V w' fd = v_fds V w fd" by (simp add: worker_fds_def)
  from s obtain D where D: "owns_fds V D (walk_fds s) w" by (auto simp: sound_walk_def)
  have live: "\<forall>fd \<in> stream_fds (bt_stream s). v_fds V w' fd = v_fds V w fd" if "producer_live (bt_producer s)"
  proof -
    from that s have "\<not> consumer_ended (bt_consumer s)" by (auto simp: sound_walk_def leave_inv_def)
    with own show ?thesis by (simp add: walk_fds_def)
  qed
  from s have inv: "walk_inv K U Y V Q block n p bytes (s\<lparr>bt_world := w\<rparr>)"
    and leave: "walk_leaves K U Y V (s\<lparr>bt_world := w\<rparr>)" by (simp_all add: sound_walk_def)
  from s walk_inv_stable [OF inv ok live] walk_leaves_stable [OF leave ok own] owns_fds_stable [OF D own] ok Walking show ?thesis
    unfolding worker_sound_def sound_walk_def by auto
qed (use sound in \<open>simp_all add: worker_sound_def\<close>)

section \<open>Rounds\<close>

text \<open>
  The descriptors during a round: those of the workers are disjoint and were closed before, and all others are as they were.
\<close>

definition fds_shared ::
  "(int \<Rightarrow> byte list option) \<Rightarrow> 'w view \<Rightarrow> ('c, 'q, 'w) bench_worker list \<Rightarrow> 'w \<Rightarrow> bool" where
  "fds_shared base V xs w \<longleftrightarrow>
     (\<forall>i < length xs. \<forall>fd \<in> worker_fds (xs ! i). base fd = None \<and> v_fds V w fd \<noteq> None \<and>
        (\<forall>j < length xs. j \<noteq> i \<longrightarrow> fd \<notin> worker_fds (xs ! j))) \<and>
     (\<forall>fd. (\<forall>i < length xs. fd \<notin> worker_fds (xs ! i)) \<longrightarrow> v_fds V w fd = base fd)"

lemma fds_shared_step:
  assumes shared: "fds_shared base V xs w" and i: "i < length xs"
    and D: "owns_fds V D (worker_fds (xs ! i)) w" "owns_fds V D (worker_fds x') w'"
  shows "fds_shared base V (xs[i := x']) w'"
    and "\<And>j fd. j < length xs \<Longrightarrow> j \<noteq> i \<Longrightarrow> fd \<in> worker_fds (xs ! j) \<Longrightarrow> v_fds V w' fd = v_fds V w fd"
proof -
  from D(1) have d1: "D fd = (if fd \<in> worker_fds (xs ! i) then None else v_fds V w fd)" for fd
    unfolding owns_fds_def by (metis (full_types))
  from D(2) have d2: "if fd \<in> worker_fds x' then D fd = None \<and> v_fds V w' fd \<noteq> None else v_fds V w' fd = D fd" for fd
    unfolding owns_fds_def by blast
  have mine: "base fd = None \<and> v_fds V w fd \<noteq> None \<and> (\<forall>k < length xs. k \<noteq> j \<longrightarrow> fd \<notin> worker_fds (xs ! k))"
    if "j < length xs" "fd \<in> worker_fds (xs ! j)" for j fd
    using shared that unfolding fds_shared_def by blast
  have rest: "v_fds V w fd = base fd" if "\<forall>j < length xs. fd \<notin> worker_fds (xs ! j)" for fd
    using shared that unfolding fds_shared_def by blast
  have other: "D fd = v_fds V w fd \<and> v_fds V w fd \<noteq> None \<and> fd \<notin> worker_fds x' \<and> v_fds V w' fd = v_fds V w fd"
    if j: "j < length xs" "j \<noteq> i" "fd \<in> worker_fds (xs ! j)" for j fd
  proof -
    have out: "v_fds V w fd \<noteq> None" "fd \<notin> worker_fds (xs ! i)" using mine [OF j(1,3)] i j(2) by auto
    then have "D fd = v_fds V w fd" using d1 by simp
    with out d2 [of fd] show ?thesis by (auto split: if_splits)
  qed
  show "v_fds V w' fd = v_fds V w fd" if "j < length xs" "j \<noteq> i" "fd \<in> worker_fds (xs ! j)" for j fd
    using other [OF that] by blast
  have new: "base fd = None \<and> v_fds V w' fd \<noteq> None \<and> (\<forall>j < length xs. j \<noteq> i \<longrightarrow> fd \<notin> worker_fds (xs ! j))"
    if "fd \<in> worker_fds x'" for fd
  proof -
    have none: "D fd = None" "v_fds V w' fd \<noteq> None" using d2 [of fd] that by auto
    have away: "\<forall>j < length xs. j \<noteq> i \<longrightarrow> fd \<notin> worker_fds (xs ! j)" using other that by blast
    have "base fd = None"
    proof (cases "fd \<in> worker_fds (xs ! i)")
      case True
      with mine [OF i] show ?thesis by blast
    next
      case False
      with away have "\<forall>j < length xs. fd \<notin> worker_fds (xs ! j)" by metis
      from rest [OF this] none(1) d1 [of fd] False show ?thesis by simp
    qed
    with none away show ?thesis by blast
  qed
  show "fds_shared base V (xs[i := x']) w'"
    unfolding fds_shared_def length_list_update
  proof (intro conjI allI ballI impI)
    fix j fd assume j: "j < length xs" and fd: "fd \<in> worker_fds (xs[i := x'] ! j)"
    have *: "base fd = None \<and> v_fds V w' fd \<noteq> None \<and> (\<forall>k < length xs. k \<noteq> j \<longrightarrow> fd \<notin> worker_fds (xs[i := x'] ! k))"
    proof (cases "j = i")
      case True
      with new [of fd] fd i show ?thesis by simp
    next
      case False
      with fd have fd': "fd \<in> worker_fds (xs ! j)" by simp
      from other [OF j False fd'] mine [OF j fd'] show ?thesis
        by (metis nth_list_update_eq nth_list_update_neq list_update_beyond linorder_not_less)
    qed
    then show "base fd = None" "v_fds V w' fd \<noteq> None" by blast+
    fix k assume "k < length xs" "k \<noteq> j"
    with * show "fd \<notin> worker_fds (xs[i := x'] ! k)" by blast
  next
    fix fd assume none: "\<forall>k < length xs. fd \<notin> worker_fds (xs[i := x'] ! k)"
    then have out: "fd \<notin> worker_fds x'" using i by (metis nth_list_update_eq)
    have others: "\<forall>k < length xs. k \<noteq> i \<longrightarrow> fd \<notin> worker_fds (xs ! k)" using none by (metis nth_list_update_neq)
    show "v_fds V w' fd = base fd"
    proof (cases "fd \<in> worker_fds (xs ! i)")
      case True
      with d1 [of fd] d2 [of fd] out mine [OF i True] show ?thesis by simp
    next
      case False
      with others have "\<forall>k < length xs. fd \<notin> worker_fds (xs ! k)" by metis
      from rest [OF this] False d1 [of fd] d2 [of fd] out show ?thesis by simp
    qed
  qed
qed

lemma length_filter_update:
  assumes "i < length xs" and "P (xs ! i) \<longrightarrow> P x"
  shows "length (filter P (xs[i := x])) = length (filter P xs) + (if P x \<and> \<not> P (xs ! i) then 1 else 0)"
proof -
  have "filter P xs = filter P (take i xs @ xs ! i # drop (Suc i) xs)" by (simp only: id_take_nth_drop [OF assms(1), symmetric])
  with assms show ?thesis by (simp add: upd_conv_take_nth_drop)
qed

lemma sum_update:
  assumes "i < length xs" and "g i x = g i (xs ! i) + (d :: nat)"
  shows "(\<Sum>j < length xs. g j (xs[i := x] ! j)) = (\<Sum>j < length xs. g j (xs ! j)) + d"
proof -
  have "(\<Sum>j \<in> {..< length xs} - {i}. g j (xs[i := x] ! j)) = (\<Sum>j \<in> {..< length xs} - {i}. g j (xs ! j))"
    by (rule sum.cong) auto
  with assms show ?thesis by (simp add: sum.remove [of "{..< length xs}" i])
qed

lemma sum_update_less:
  assumes "i < length xs" and "g i x < (g i (xs ! i) :: nat)"
  shows "(\<Sum>j < length xs. g j (xs[i := x] ! j)) < (\<Sum>j < length xs. g j (xs ! j))"
  using sum_update [of i "xs[i := x]" g "xs ! i" "g i (xs ! i) - g i x"] assms by simp

lemma worker_step_finishes:
  assumes "worker_step K U C shuffle shards options turn x u w = (x', u', failed, w')"
  shows "(worker_finished x \<longrightarrow> x' = x \<and> failed = 0) \<and>
    (failed = 0 \<or> failed = 1 \<and> \<not> worker_finished x \<and> worker_finished x')"
proof (cases x)
  case (Walking s)
  with assms show ?thesis
    by (cases "bt_consumer s")
      (auto simp: worker_step_def worker_finished_def Let_def split: option.splits if_splits)
qed (use assms in \<open>auto simp: worker_step_def worker_finished_def split: option.splits sum.splits\<close>)

text \<open>
  A round in which no walk has been lost; one in which no read has failed either; and one that has counted a failure or will.
\<close>

definition round_sound ::
  "'w sys \<Rightarrow> ('q, 'w) uring_ops \<Rightarrow> 'q uring_view \<Rightarrow> 'w view \<Rightarrow> (batch, 'c) channel_view \<Rightarrow> (u64 \<Rightarrow> nat list \<Rightarrow> nat list) \<Rightarrow> u64 \<Rightarrow>
     shard_set list \<Rightarrow> batch_options \<Rightarrow> (int \<Rightarrow> byte list option) \<Rightarrow> ('c, 'q, 'w) bench_round \<Rightarrow> bool" where
  "round_sound K U Y V Q shuffle block sets options base R \<longleftrightarrow>
     length (br_workers R) = length sets \<and> uring_world K U Y V (br_world R) \<and>
     (\<forall>i < length (br_workers R).
       worker_sound K U Y V Q block (unat (batch_bytes options)) (unat (prefetch options))
         (dataset_bytes V shuffle (sets ! i) options) (br_workers R ! i) (br_world R)) \<and>
     fds_shared base V (br_workers R) (br_world R)"

definition round_clean ::
  "'w view \<Rightarrow> (u64 \<Rightarrow> nat list \<Rightarrow> nat list) \<Rightarrow> shard_set list \<Rightarrow> batch_options \<Rightarrow> ('c, 'q, 'w) bench_round \<Rightarrow> bool" where
  "round_clean V shuffle sets options R \<longleftrightarrow> br_failures R = 0 \<and> list_all worker_clean (br_workers R) \<and>
     br_bytes R = of_nat (\<Sum>i < length (br_workers R).
       worker_counted (dataset_bytes V shuffle (sets ! i) options) (br_workers R ! i))"

definition round_doomed :: "(batch, 'c) channel_view \<Rightarrow> nat \<Rightarrow> nat \<Rightarrow> ('c, 'q, 'w) bench_round \<Rightarrow> bool" where
  "round_doomed Q n p R \<longleftrightarrow>
     (\<exists>k \<le> length (filter worker_finished (br_workers R)). br_failures R = of_nat k \<and>
        (0 < k \<or> list_ex (worker_doomed Q n p) (br_workers R)))"

text \<open>The workers walk sets that \<open>for_each_batch\<close> can walk, whatever has happened before.\<close>

definition round_setting ::
  "'w sys \<Rightarrow> ('q, 'w) uring_ops \<Rightarrow> 'q uring_view \<Rightarrow> 'w view \<Rightarrow> (batch, 'c) channel_ops \<Rightarrow> (batch, 'c) channel_view \<Rightarrow>
     (u64 \<Rightarrow> nat list \<Rightarrow> nat list) \<Rightarrow> u64 \<Rightarrow> shard_set list \<Rightarrow> batch_options \<Rightarrow> bool" where
  "round_setting K U Y V C Q shuffle block sets options \<longleftrightarrow> 0 < unat (batch_bytes options) \<and> channel_law C Q \<and>
     (\<forall>shards \<in> set sets. \<forall>w. uring_world K U Y V w \<longrightarrow> dataset_setting K U Y V C Q shuffle block shards options w)"

lemma round_step_doomed:
  assumes law: "channel_law C Q" and doomed: "round_doomed Q n p R"
  shows "round_doomed Q n p (round_step K U C shuffle sets options it R)"
proof -
  obtain i turn where it: "it = (i, turn)" by (cases it)
  show ?thesis
  proof (cases "i < length (br_workers R)")
    case False
    with doomed it show ?thesis by (simp add: round_step_def)
  next
    case True
    let ?x = "br_workers R ! i"
    obtain x' u' failed w' where step:
      "worker_step K U C shuffle (sets ! i) options turn ?x (br_bytes R) (br_world R) = (x', u', failed, w')"
      by (metis prod.exhaust)
    from doomed obtain k where k: "k \<le> length (filter worker_finished (br_workers R))" "br_failures R = of_nat k"
      "0 < k \<or> list_ex (worker_doomed Q n p) (br_workers R)" by (auto simp: round_doomed_def)
    note fin = worker_step_finishes [OF step]
    then have len: "length (filter worker_finished ((br_workers R)[i := x'])) =
        length (filter worker_finished (br_workers R)) + (if worker_finished x' \<and> \<not> worker_finished ?x then 1 else 0)"
      by (intro length_filter_update [OF True]) auto
    have go: "round_step K U C shuffle sets options it R =
        \<lparr>br_world = w', br_bytes = u', br_failures = br_failures R + failed, br_workers = (br_workers R)[i := x']\<rparr>"
      using it True step by (simp add: round_step_def)
    show ?thesis
    proof (cases "failed = 0")
      case False
      with fin have "failed = of_nat 1" "\<not> worker_finished ?x" "worker_finished x'" by auto
      with k(1,2) len show ?thesis unfolding go round_doomed_def by (intro exI [of _ "k + 1"]) simp
    next
      case zero: True
      have "0 < k \<or> list_ex (worker_doomed Q n p) ((br_workers R)[i := x'])"
      proof (cases "worker_doomed Q n p ?x")
        case True
        with worker_step_doomed [OF law True step] zero \<open>i < length (br_workers R)\<close> show ?thesis
          by (auto simp: list_ex_iff intro: set_update_memI)
      next
        case False
        show ?thesis
        proof (cases "k = 0")
          case True
          with k(3) obtain j where j: "j < length (br_workers R)" "worker_doomed Q n p (br_workers R ! j)"
            by (auto simp: list_ex_length)
          with False have "j \<noteq> i" by blast
          with j show ?thesis unfolding list_ex_length by (intro disjI2 exI [of _ j]) simp
        qed simp
      qed
      with k(1,2) len zero show ?thesis unfolding go round_doomed_def by (intro exI [of _ k]) simp
    qed
  qed
qed

lemma round_step_sound:
  assumes set: "round_setting K U Y V C Q shuffle block sets options"
    and sound: "round_sound K U Y V Q shuffle block sets options base R"
    and R': "R' = round_step K U C shuffle sets options it R"
  shows "round_sound K U Y V Q shuffle block sets options base R' \<or> list_ex worker_loses (br_workers R')"
proof -
  let ?n = "unat (batch_bytes options)" and ?p = "unat (prefetch options)"
  obtain i turn where it: "it = (i, turn)" by (cases it)
  show ?thesis
  proof (cases "i < length (br_workers R)")
    case False
    with sound it show ?thesis by (simp add: R' round_step_def)
  next
    case True
    let ?x = "br_workers R ! i" and ?bytes = "\<lambda>j. dataset_bytes V shuffle (sets ! j) options"
    obtain x' u' failed w' where step:
      "worker_step K U C shuffle (sets ! i) options turn ?x (br_bytes R) (br_world R) = (x', u', failed, w')"
      by (metis prod.exhaust)
    have go: "R' = \<lparr>br_world = w', br_bytes = u', br_failures = br_failures R + failed, br_workers = (br_workers R)[i := x']\<rparr>"
      using it True step by (simp add: R' round_step_def)
    from sound have h: "length (br_workers R) = length sets" "uring_world K U Y V (br_world R)"
      and each: "\<And>j. j < length (br_workers R) \<Longrightarrow>
        worker_sound K U Y V Q block ?n ?p (?bytes j) (br_workers R ! j) (br_world R)"
      and fds: "fds_shared base V (br_workers R) (br_world R)"
      by (simp_all add: round_sound_def)
    have "dataset_setting K U Y V C Q shuffle block (sets ! i) options (br_world R)" "0 < ?n"
      using set h True by (simp_all add: round_setting_def)
    note s = worker_step_sound [OF this each [OF True] step]
    show ?thesis
    proof (cases "worker_loses x'")
      case lost: True
      with True have "list_ex worker_loses ((br_workers R)[i := x'])" by (auto simp: list_ex_iff intro: set_update_memI)
      then show ?thesis by (simp add: go)
    next
      case False
      with s obtain D where w': "uring_world K U Y V w'" and x': "worker_sound K U Y V Q block ?n ?p (?bytes i) x' w'"
        and D: "owns_fds V D (worker_fds ?x) (br_world R)" "owns_fds V D (worker_fds x') w'" by blast
      note step_fds = fds_shared_step [OF fds True D]
      have "worker_sound K U Y V Q block ?n ?p (?bytes j) ((br_workers R)[i := x'] ! j) w'"
        if j: "j < length (br_workers R)" for j
      proof (cases "j = i")
        case True
        with x' j show ?thesis by simp
      next
        case False
        with worker_sound_stable [OF each [OF j] w'] step_fds(2) [OF j False] show ?thesis by simp
      qed
      with h w' step_fds(1) show ?thesis unfolding go by (simp add: round_sound_def)
    qed
  qed
qed

lemma round_step_clean:
  assumes set: "round_setting K U Y V C Q shuffle block sets options"
    and sound: "round_sound K U Y V Q shuffle block sets options base R" and clean: "round_clean V shuffle sets options R"
    and R': "R' = round_step K U C shuffle sets options it R"
  shows "round_clean V shuffle sets options R' \<or> round_doomed Q (unat (batch_bytes options)) (unat (prefetch options)) R'"
proof -
  let ?n = "unat (batch_bytes options)" and ?p = "unat (prefetch options)"
  obtain i turn where it: "it = (i, turn)" by (cases it)
  show ?thesis
  proof (cases "i < length (br_workers R)")
    case False
    with clean it show ?thesis by (simp add: R' round_step_def)
  next
    case True
    let ?x = "br_workers R ! i" and ?bytes = "\<lambda>j. dataset_bytes V shuffle (sets ! j) options"
    obtain x' u' failed w' where step:
      "worker_step K U C shuffle (sets ! i) options turn ?x (br_bytes R) (br_world R) = (x', u', failed, w')"
      by (metis prod.exhaust)
    have go: "R' = \<lparr>br_world = w', br_bytes = u', br_failures = br_failures R + failed, br_workers = (br_workers R)[i := x']\<rparr>"
      using it True step by (simp add: R' round_step_def)
    have x: "worker_sound K U Y V Q block ?n ?p (?bytes i) ?x (br_world R)" "worker_clean ?x"
      using sound clean True by (simp_all add: round_sound_def round_clean_def list_all_length)
    have "dataset_setting K U Y V C Q shuffle block (sets ! i) options (br_world R)" "0 < ?n"
      using set sound True by (simp_all add: round_setting_def round_sound_def)
    note s = worker_step_clean [OF this x step]
    show ?thesis
    proof (cases "worker_doomed Q ?n ?p x'")
      case doomed: True
      with True have "list_ex (worker_doomed Q ?n ?p) ((br_workers R)[i := x'])"
        by (auto simp: list_ex_iff intro: set_update_memI)
      with s clean have "round_doomed Q ?n ?p R'"
        unfolding go round_doomed_def round_clean_def by (intro exI [of _ 0]) simp
      then show ?thesis ..
    next
      case False
      with s obtain d where d: "worker_counted (?bytes i) x' = worker_counted (?bytes i) ?x + d" "u' = br_bytes R + of_nat d"
        and x': "worker_clean x'" "failed = 0" by blast
      have "u' = of_nat (\<Sum>j < length (br_workers R). worker_counted (?bytes j) ((br_workers R)[i := x'] ! j))"
        using d(2) clean sum_update [where g = "\<lambda>j. worker_counted (?bytes j)", OF True d(1)]
        by (simp add: round_clean_def)
      moreover have "list_all worker_clean ((br_workers R)[i := x'])"
        using clean x'(1) True by (auto simp: round_clean_def list_all_length nth_list_update)
      ultimately show ?thesis using clean x'(2) unfolding go by (simp add: round_clean_def)
    qed
  qed
qed

text \<open>A lost walk stays lost, and ends the round.\<close>

lemma loses_lost: "list_ex worker_loses xs \<Longrightarrow> list_ex worker_lost xs"
  by (auto simp: list_ex_iff worker_loses_def worker_lost_def split: bench_worker.splits)

lemma round_step_lost:
  assumes "i < length (br_workers R)" and "worker_lost (br_workers R ! i)"
  shows "i < length (br_workers (round_step K U C shuffle sets options it R)) \<and>
    worker_lost (br_workers (round_step K U C shuffle sets options it R) ! i)"
    and "br_workers (round_step K U C shuffle sets options (i, turn) R) ! i = Terminated"
proof -
  have "x' = Terminated" if "worker_step K U C shuffle (sets ! i) options turn (br_workers R ! i) u w = (x', u', failed, w')"
    for turn u w x' u' failed w' by (rule worker_step_lost [OF assms(2) that])
  with assms(1) show mine: "br_workers (round_step K U C shuffle sets options (i, turn) R) ! i = Terminated" for turn
    by (auto simp: round_step_def split: prod.splits)
  obtain j turn where it: "it = (j, turn)" by (cases it)
  show "i < length (br_workers (round_step K U C shuffle sets options it R)) \<and>
      worker_lost (br_workers (round_step K U C shuffle sets options it R) ! i)"
  proof (cases "j = i")
    case True
    with assms(1) it mine [of turn] show ?thesis by (simp add: worker_lost_def) (simp add: round_step_def split: prod.splits)
  next
    case False
    with assms it show ?thesis by (simp add: round_step_def split: prod.splits)
  qed
qed

lemma run_round_lost:
  assumes "list_ex worker_lost (br_workers R)"
  shows "list_ex worker_lost (br_workers (run_round K U C shuffle sets options schedule R))"
  using assms
proof (induction schedule arbitrary: R)
  case (Cons it schedule)
  then obtain i where "i < length (br_workers R)" "worker_lost (br_workers R ! i)" by (auto simp: list_ex_length)
  from round_step_lost(1) [OF this] have "list_ex worker_lost (br_workers (round_step K U C shuffle sets options it R))"
    unfolding list_ex_length by blast
  from Cons.IH [OF this] show ?case by (simp add: run_round_def)
qed (simp add: run_round_def)

lemma lost_round_ends:
  assumes "list_ex worker_lost (br_workers R)"
  shows "\<exists>schedule. round_result (run_round K U C shuffle sets options schedule R) \<noteq> None"
proof -
  from assms obtain i where i: "i < length (br_workers R)" "worker_lost (br_workers R ! i)" by (auto simp: list_ex_length)
  let ?R = "round_step K U C shuffle sets options (i, True) R"
  from round_step_lost [OF i] have "i < length (br_workers ?R)" "br_workers ?R ! i = Terminated" by blast+
  then have "list_ex worker_terminated (br_workers ?R)" by (auto simp: list_ex_length worker_terminated_def intro!: exI [of _ i])
  then have "round_result (run_round K U C shuffle sets options [(i, True)] R) \<noteq> None"
    by (simp add: run_round_def round_result_def)
  then show ?thesis by blast
qed

lemma worker_terminated_iff: "worker_terminated x \<longleftrightarrow> x = Terminated"
  by (cases x) (simp_all add: worker_terminated_def)

lemma lost_not_finished: "worker_lost x \<Longrightarrow> \<not> worker_finished x"
  by (cases x) (auto simp: worker_lost_def worker_finished_def)

lemma lost_round_result:
  assumes "list_ex worker_lost (br_workers R)"
  shows "round_result R = None \<or> round_result R = Some (Inl WalkLost)"
proof -
  from assms have "\<not> list_all worker_finished (br_workers R)" using lost_not_finished by (auto simp: list_all_iff list_ex_iff)
  then show ?thesis by (simp add: round_result_def)
qed

lemma length_run_round [simp]: "length (br_workers (run_round K U C shuffle sets options schedule R)) = length (br_workers R)"
proof (induction schedule arbitrary: R)
  case (Cons it schedule)
  have "length (br_workers (round_step K U C shuffle sets options it R)) = length (br_workers R)"
    by (simp add: round_step_def split: prod.splits)
  with Cons show ?case by (simp add: run_round_def)
qed (simp add: run_round_def)

lemma run_round_append:
  "run_round K U C shuffle sets options (ps @ qs) R =
     run_round K U C shuffle sets options qs (run_round K U C shuffle sets options ps R)"
  by (simp add: run_round_def)

lemma round_start_sound:
  assumes "uring_world K U Y V w"
  shows "round_sound K U Y V Q shuffle block sets options (v_fds V w) (round_start (length sets) w)"
    and "round_clean V shuffle sets options (round_start (length sets) w)"
  using assms
  by (simp_all add: round_sound_def round_clean_def round_start_def worker_simps fds_shared_def list_all_length)

text \<open>Either the round is sound, or a walk was lost on the way.\<close>

lemma run_round_sound:
  assumes set: "round_setting K U Y V C Q shuffle block sets options" and world: "uring_world K U Y V w"
  shows "round_sound K U Y V Q shuffle block sets options (v_fds V w)
      (run_round K U C shuffle sets options schedule (round_start (length sets) w)) \<or>
    (\<exists>before after. schedule = before @ after \<and>
      list_ex worker_loses (br_workers (run_round K U C shuffle sets options before (round_start (length sets) w))))"
proof (induction schedule rule: rev_induct)
  case Nil
  show ?case by (simp add: run_round_def round_start_sound(1) [OF world])
next
  case (snoc it schedule)
  let ?run = "\<lambda>ps. run_round K U C shuffle sets options ps (round_start (length sets) w)"
  have next_round: "?run (schedule @ [it]) = round_step K U C shuffle sets options it (?run schedule)"
    by (simp add: run_round_def)
  from snoc.IH show ?case
  proof
    assume "round_sound K U Y V Q shuffle block sets options (v_fds V w) (?run schedule)"
    from round_step_sound [OF set this next_round] show ?case by (metis append_Nil2)
  next
    assume "\<exists>before after. schedule = before @ after \<and> list_ex worker_loses (br_workers (?run before))"
    then show ?case by (metis append_assoc)
  qed
qed

lemma run_round_lost_or_sound:
  assumes "round_setting K U Y V C Q shuffle block sets options" and "uring_world K U Y V w"
    and R: "R = run_round K U C shuffle sets options schedule (round_start (length sets) w)"
  shows "round_sound K U Y V Q shuffle block sets options (v_fds V w) R \<or> list_ex worker_lost (br_workers R)"
  using run_round_sound [OF assms(1,2), of schedule] R loses_lost run_round_lost
  unfolding run_round_append [of K U C shuffle sets options] by (metis run_round_append)

lemma run_round_clean:
  assumes set: "round_setting K U Y V C Q shuffle block sets options"
    and "round_sound K U Y V Q shuffle block sets options base R \<and> round_clean V shuffle sets options R \<or>
      round_doomed Q (unat (batch_bytes options)) (unat (prefetch options)) R"
  shows "round_sound K U Y V Q shuffle block sets options base (run_round K U C shuffle sets options schedule R) \<and>
      round_clean V shuffle sets options (run_round K U C shuffle sets options schedule R) \<or>
    round_doomed Q (unat (batch_bytes options)) (unat (prefetch options)) (run_round K U C shuffle sets options schedule R)"
  using assms(2)
proof (induction schedule arbitrary: R)
  case (Cons it schedule)
  let ?R = "round_step K U C shuffle sets options it R"
  have law: "channel_law C Q" using set by (simp add: round_setting_def)
  have "round_sound K U Y V Q shuffle block sets options base ?R \<and> round_clean V shuffle sets options ?R \<or>
    round_doomed Q (unat (batch_bytes options)) (unat (prefetch options)) ?R"
    using Cons.prems
  proof
    assume R: "round_sound K U Y V Q shuffle block sets options base R \<and> round_clean V shuffle sets options R"
    have "\<not> list_ex worker_loses (br_workers ?R)" if "round_clean V shuffle sets options ?R"
    proof -
      have "\<not> worker_loses x" if "worker_clean x" for x :: "('c, 'q, 'w) bench_worker"
        using that by (cases x) (auto simp: worker_loses_def worker_clean_def failing_def)
      with that show ?thesis by (auto simp: round_clean_def list_all_iff list_ex_iff)
    qed
    with R round_step_sound [OF set _ refl, of base R it] round_step_clean [OF set _ _ refl, of base R it] show ?thesis by blast
  qed (simp add: round_step_doomed [OF law])
  from Cons.IH [OF this] show ?case by (simp add: run_round_def)
qed (simp add: run_round_def)

text \<open>A round that succeeds has been clean to the end.\<close>

lemma doomed_not_counted:
  assumes "round_doomed Q n p R" and "length (br_workers R) < 2 ^ 31"
  shows "round_result R \<noteq> Some (Inr bytes)"
proof
  assume "round_result R = Some (Inr bytes)"
  then have all: "list_all worker_finished (br_workers R)" and no: "\<not> 0 < sint (br_failures R)"
    by (auto simp: round_result_def split: if_splits)
  from assms(1) obtain k where k: "k \<le> length (filter worker_finished (br_workers R))" "br_failures R = of_nat k"
      "0 < k \<or> list_ex (worker_doomed Q n p) (br_workers R)" by (auto simp: round_doomed_def)
  have "k < 2 ^ 31" using k(1) assms(2) length_filter_le [of worker_finished "br_workers R"] by linarith
  then have "sint (br_failures R) = int k"
    unfolding k(2) by (simp add: signed_of_nat signed_take_bit_int_eq_self)
  with no k(3) obtain x where "x \<in> set (br_workers R)" "worker_doomed Q n p x" by (auto simp: list_ex_iff)
  with all show False
    by (cases x) (auto simp: list_all_iff worker_finished_def worker_doomed_def)
qed

text \<open>When all workers have finished, the descriptors are as before; and if no read has failed, all bytes are counted.\<close>

lemma round_result_fds:
  assumes sound: "round_sound K U Y V Q shuffle block sets options base R"
    and all: "list_all worker_finished (br_workers R)"
  shows "uring_world K U Y V (br_world R) \<and> v_fds V (br_world R) = base"
proof -
  have "br_workers R ! i = Finished" if "i < length (br_workers R)" for i
    using all that by (cases "br_workers R ! i") (auto simp: list_all_length worker_finished_def)
  with sound show ?thesis by (auto simp: round_sound_def fds_shared_def worker_fds_def fun_eq_iff)
qed

lemma round_result_counts:
  assumes sound: "round_sound K U Y V Q shuffle block sets options base R" and clean: "round_clean V shuffle sets options R"
    and all: "list_all worker_finished (br_workers R)"
  shows "br_bytes R = of_nat (\<Sum>shards \<leftarrow> sets. length (dataset_bytes V shuffle shards options))"
proof -
  have fin: "br_workers R ! i = Finished" if "i < length (br_workers R)" for i
    using all that by (cases "br_workers R ! i") (auto simp: list_all_length worker_finished_def)
  from sound have len: "length (br_workers R) = length sets" by (simp add: round_sound_def)
  have "(\<Sum>i < length (br_workers R). worker_counted (dataset_bytes V shuffle (sets ! i) options) (br_workers R ! i)) =
      (\<Sum>i < length sets. length (dataset_bytes V shuffle (sets ! i) options))"
    unfolding len [symmetric] by (rule sum.cong) (simp_all add: fin worker_counted_def)
  also have "\<dots> = (\<Sum>shards \<leftarrow> sets. length (dataset_bytes V shuffle shards options))"
    by (simp add: sum_list_sum_nth atLeast0LessThan)
  finally show ?thesis using clean by (simp add: round_clean_def)
qed

lemma round_ended:
  assumes set: "round_setting K U Y V C Q shuffle block sets options" and few: "length sets < 2 ^ 31"
    and world: "uring_world K U Y V w"
    and R: "R = run_round K U C shuffle sets options schedule (round_start (length sets) w)"
    and result: "round_result R = Some r" and kept: "r \<noteq> Inl WalkLost"
  shows "uring_world K U Y V (br_world R) \<and> v_fds V (br_world R) = v_fds V w \<and>
    (\<forall>bytes. r = Inr bytes \<longrightarrow> bytes = of_nat (\<Sum>shards \<leftarrow> sets. length (dataset_bytes V shuffle shards options)))"
proof -
  from result kept have all: "list_all worker_finished (br_workers R)" by (auto simp: round_result_def split: if_splits)
  from result kept lost_round_result [of R] have "\<not> list_ex worker_lost (br_workers R)" by auto
  with run_round_lost_or_sound [OF set world R] have "round_sound K U Y V Q shuffle block sets options (v_fds V w) R" by blast
  note fds = round_result_fds [OF this all]
  have len: "length (br_workers R) < 2 ^ 31" using few R by (simp add: round_start_def)
  have "bytes = of_nat (\<Sum>shards \<leftarrow> sets. length (dataset_bytes V shuffle shards options))" if "r = Inr bytes" for bytes
  proof -
    from that result have "round_result R = Some (Inr bytes)" by simp
    with doomed_not_counted [OF _ len] have "\<not> round_doomed Q (unat (batch_bytes options)) (unat (prefetch options)) R" by blast
    with run_round_clean [OF set, of "v_fds V w" "round_start (length sets) w" schedule] round_start_sound [OF world] R
    have "round_sound K U Y V Q shuffle block sets options (v_fds V w) R" "round_clean V shuffle sets options R" by blast+
    from round_result_counts [OF this all] result all that show ?thesis by (auto simp: round_result_def split: if_splits)
  qed
  with fds show ?thesis by blast
qed

lemma concurrent_passes_counts:
  fixes U :: "('q, 'w) uring_ops" and C :: "(batch, 'c) channel_ops"
  assumes set: "round_setting K U Y V C Q shuffle block sets options" and few: "length sets < 2 ^ 31"
  shows "uring_world K U Y V w \<Longrightarrow>
    concurrent_passes K U C shuffle sets options schedules total' w = Some (r, w') \<Longrightarrow> r \<noteq> Inl WalkLost \<Longrightarrow>
    v_fds V w' = v_fds V w \<and> (\<forall>bytes. r = Inr bytes \<longrightarrow>
      bytes = total' + of_nat (length schedules * (\<Sum>shards \<leftarrow> sets. length (dataset_bytes V shuffle shards options))))"
proof (induction schedules arbitrary: total' w)
  case (Cons schedule schedules)
  let ?start = "round_start (length sets) w :: ('c, 'q, 'w) bench_round"
  let ?R = "run_round K U C shuffle sets options schedule ?start"
  from Cons.prems(2) obtain x where x: "round_result ?R = Some x" by (auto simp: Let_def split: option.splits)
  show ?case
  proof (cases x)
    case (Inl e)
    with Cons.prems x have r: "r = Inl e" "w' = br_world ?R" "x \<noteq> Inl WalkLost" by (auto simp: Let_def)
    from round_ended [OF set few Cons.prems(1) refl x r(3)] r show ?thesis by simp
  next
    case (Inr n)
    with Cons.prems(2) x
    have rest: "concurrent_passes K U C shuffle sets options schedules (total' + n) (br_world ?R) = Some (r, w')"
      by (simp add: Let_def)
    from round_ended [OF set few Cons.prems(1) refl x] Inr have
      R: "uring_world K U Y V (br_world ?R)" "v_fds V (br_world ?R) = v_fds V w"
        "n = of_nat (\<Sum>shards \<leftarrow> sets. length (dataset_bytes V shuffle shards options))" by simp_all
    from Cons.IH [OF R(1) rest Cons.prems(3)] R(2,3) show ?thesis by (simp add: algebra_simps)
  qed
qed auto

section \<open>No round gets stuck\<close>

text \<open>What a worker still has to do: each chunk is read once and delivered once.\<close>

definition worker_work ::
  "'w view \<Rightarrow> (batch, 'c) channel_view \<Rightarrow> nat \<Rightarrow> byte list \<Rightarrow> ('c, 'q, 'w) bench_worker \<Rightarrow> nat" where
  "worker_work V Q n bytes x =
     (case x of
        Starting \<Rightarrow> 12 + 8 * length (chunks n bytes)
      | Walking s \<Rightarrow> 2 + work_left (stream_rest V) Q n s
      | Checking r \<Rightarrow> 1
      | _ \<Rightarrow> 0)"

text \<open>A sound worker can always move, and then has less to do.\<close>

lemma worker_moves:
  fixes x :: "('c, 'q, 'w) bench_worker"
  assumes set: "dataset_setting K U Y V C Q shuffle block shards options w"
    and opts: "0 < unat (batch_bytes options)" "0 < unat (prefetch options)" "prefetch options + 1 \<noteq> 0"
    and sound: "worker_sound K U Y V Q block (unat (batch_bytes options)) (unat (prefetch options))
      (dataset_bytes V shuffle shards options) x w"
    and more: "\<not> worker_finished x"
  shows "\<exists>turn. (case worker_step K U C shuffle shards options turn x u w of
      (x', u', failed, w') \<Rightarrow>
        worker_work V Q (unat (batch_bytes options)) (dataset_bytes V shuffle shards options) x' <
          worker_work V Q (unat (batch_bytes options)) (dataset_bytes V shuffle shards options) x)"
proof -
  let ?n = "unat (batch_bytes options)" and ?p = "unat (prefetch options)"
  let ?bytes = "dataset_bytes V shuffle shards options"
  have law: "channel_law C Q" using set by (simp add: dataset_setting_def)
  show ?thesis
  proof (cases x)
    case Starting
    obtain r where fe: "(for_each_batch C shuffle shards options u w ::
        (error + ('c, 'q any_backend stream, u64, 'w) batches) option) = Some r"
      using for_each_batch_starts [OF law opts(3)] by fastforce
    show ?thesis
    proof (cases r)
      case (Inl e)
      with fe Starting show ?thesis by (simp add: worker_step_def worker_work_def)
    next
      case (Inr s)
      with fe have start: "for_each_batch C shuffle shards options u w = Some (Inr s)" by simp
      then have at: "bt_producer s = PRecv" "bt_consumer s = CRecv" "bt_given s = []"
        by (auto simp: for_each_batch_def bind_eq_Some_conv split: if_splits)
      from start_inv(1) [OF set start] have "chunks ?n ?bytes = sent Q s @ chunks ?n (stream_rest V (bt_stream s))"
        by (simp add: data_inv_def at(1))
      from arg_cong [OF this, of length]
      have "length (chunks ?n ?bytes) = length (q_items Q (bt_ready s)) + length (chunks ?n (stream_rest V (bt_stream s)))"
        by (simp add: sent_def at)
      then show ?thesis using fe Inr Starting at by (simp add: worker_step_def worker_work_def work_left_def)
    qed
  next
    case (Walking s)
    with sound have s: "sound_walk K U Y V Q block ?n ?p ?bytes s w" by (simp add: worker_sound_def)
    let ?s = "s\<lparr>bt_world := w, bt_user := u\<rparr>"
    from s have inv: "walk_inv K U Y V Q block ?n ?p ?bytes ?s" by (simp add: sound_walk_def)
    show ?thesis
    proof (cases "consumer_ended (bt_consumer s)")
      case True
      with sound_walk_end(2,3) [OF s] Walking show ?thesis
        by (cases "bt_consumer s") (auto simp: worker_step_def worker_work_def)
    next
      case False
      then have "\<not> (bt_producer ?s = PDone \<and> consumer_ended (bt_consumer ?s))" by simp
      from sh.batch_progress [OF law opts(2) inv this] obtain t where t: "batches_step K U C count_bytes ?s t" by blast
      have less: "work_left (stream_rest V) Q ?n t < work_left (stream_rest V) Q ?n s"
        using sh.batch_step_work [OF law opts(1) t inv] by (simp add: work_left_def)
      from t obtain turn where "(if turn then producer_step (stream_read K (any_ops K U)) C ?s
          else consumer_step (stream_destroy K (any_ops K U)) C count_bytes ?s) = Some t"
        unfolding batch_step_iff by (metis (full_types))
      then have "worker_step K U C shuffle shards options turn x u w = (Walking t, bt_user t, 0, bt_world t)"
        using False Walking by (cases "bt_consumer s") (auto simp: worker_step_def Let_def)
      with less Walking show ?thesis by (intro exI [of _ turn]) (simp add: worker_work_def)
    qed
  next
    case (Checking r)
    then show ?thesis by (simp add: worker_step_def worker_work_def)
  qed (use more sound in \<open>simp_all add: worker_finished_def worker_sound_def\<close>)
qed

text \<open>So every round has a schedule that ends it.\<close>

lemma sound_round_ends:
  fixes U :: "('q, 'w) uring_ops" and C :: "(batch, 'c) channel_ops"
  assumes set: "round_setting K U Y V C Q shuffle block sets options"
    and opts: "0 < unat (prefetch options)" "prefetch options + 1 \<noteq> 0"
    and sound: "round_sound K U Y V Q shuffle block sets options base R"
  shows "\<exists>schedule. round_result (run_round K U C shuffle sets options schedule R) \<noteq> None"
  using sound
proof (induction "\<Sum>i < length (br_workers R). worker_work V Q (unat (batch_bytes options))
    (dataset_bytes V shuffle (sets ! i) options) (br_workers R ! i)" arbitrary: R rule: less_induct)
  case less
  let ?n = "unat (batch_bytes options)" and ?p = "unat (prefetch options)"
  let ?work = "\<lambda>i. worker_work V Q ?n (dataset_bytes V shuffle (sets ! i) options)"
  note sound = less.prems
  show ?case
  proof (cases "list_all worker_finished (br_workers R)")
    case True
    then have "round_result (run_round K U C shuffle sets options [] R) \<noteq> None"
      by (auto simp: run_round_def round_result_def)
    then show ?thesis by blast
  next
    case False
    then obtain i where i: "i < length (br_workers R)" "\<not> worker_finished (br_workers R ! i)"
      by (auto simp: list_all_length)
    from sound have h: "length (br_workers R) = length sets" "uring_world K U Y V (br_world R)"
      and x: "worker_sound K U Y V Q block ?n ?p (dataset_bytes V shuffle (sets ! i) options) (br_workers R ! i) (br_world R)"
      using i(1) by (simp_all add: round_sound_def)
    have s: "dataset_setting K U Y V C Q shuffle block (sets ! i) options (br_world R)" "0 < ?n"
      using set h i(1) by (simp_all add: round_setting_def)
    from worker_moves [OF s opts x i(2), of "br_bytes R"] obtain turn where
      turn: "case worker_step K U C shuffle (sets ! i) options turn (br_workers R ! i) (br_bytes R) (br_world R) of
        (x', u', failed, w') \<Rightarrow> ?work i x' < ?work i (br_workers R ! i)" by (rule exE)
    let ?R = "round_step K U C shuffle sets options (i, turn) R"
    have run: "run_round K U C shuffle sets options ((i, turn) # ps) R = run_round K U C shuffle sets options ps ?R" for ps
      by (simp add: run_round_def)
    obtain x' where R: "br_workers ?R = (br_workers R)[i := x']" and less_work: "?work i x' < ?work i (br_workers R ! i)"
      using turn i(1) by (auto simp: round_step_def split: prod.splits)
    from round_step_sound [OF set sound refl, of "(i, turn)"] have "\<exists>ps. round_result (run_round K U C shuffle sets options ps ?R) \<noteq> None"
    proof
      assume "list_ex worker_loses (br_workers ?R)"
      from lost_round_ends [OF loses_lost [OF this]] show ?thesis .
    next
      assume sound': "round_sound K U Y V Q shuffle block sets options base ?R"
      have "(\<Sum>j < length (br_workers ?R). ?work j (br_workers ?R ! j)) < (\<Sum>j < length (br_workers R). ?work j (br_workers R ! j))"
        unfolding R length_list_update using less_work by (rule sum_update_less [OF i(1)])
      from less.hyps [OF this sound'] show ?thesis .
    qed
    with run show ?thesis by metis
  qed
qed

section \<open>Properties\<close>

lemma worker_sets_setting:
  assumes set: "dataset_setting K U Y V C Q shuffle block all options w" and "0 < workers" and "batch_bytes options \<noteq> 0"
  shows "round_setting K U Y V C Q shuffle block (worker_sets workers all) options"
proof -
  have "set shards \<subseteq> set all" if "shards \<in> set (worker_sets workers all)" for shards
    using that mset_eq_setD [OF mset_worker_sets [OF assms(2), of all]] by auto
  with set assms(3) show ?thesis
    by (fastforce simp: round_setting_def dataset_setting_def unat_gt_0)
qed

text \<open>A round in which a walk is lost: it was destroyed with reads in flight, after a read had failed.\<close>

lemma lost_round_history:
  assumes set: "round_setting K U Y V C Q shuffle block sets options" and world: "uring_world K U Y V w"
    and lost: "round_result (run_round K U C shuffle sets options schedule (round_start (length sets) w)) = Some (Inl WalkLost)"
  shows "\<exists>before after i s. schedule = before @ after \<and> i < length sets \<and>
    br_workers (run_round K U C shuffle sets options before (round_start (length sets) w)) ! i = Walking s \<and>
    bt_error s \<noteq> None \<and> stream_busy (bt_stream s)"
proof -
  let ?run = "\<lambda>ps. run_round K U C shuffle sets options ps (round_start (length sets) w)"
  from lost have "list_ex worker_terminated (br_workers (?run schedule))" by (auto simp: round_result_def split: if_splits)
  then obtain i where "i < length (br_workers (?run schedule))" "br_workers (?run schedule) ! i = Terminated"
    by (auto simp: list_ex_length worker_terminated_iff)
  then have "\<not> round_sound K U Y V Q shuffle block sets options (v_fds V w) (?run schedule)"
    by (auto simp: round_sound_def worker_sound_def)
  with run_round_sound [OF set world, of schedule] obtain before after where
    at: "schedule = before @ after" "list_ex worker_loses (br_workers (?run before))" by blast
  from at(2) obtain j where "j < length sets" "worker_loses (br_workers (?run before) ! j)"
    by (auto simp: list_ex_length round_start_def)
  with at(1) show ?thesis by (cases "br_workers (?run before) ! j") (auto simp: worker_loses_def)
qed

text \<open>
  Property C7 (streams side by side). Whatever the interleaving of all threads, the descriptors that the kernel gives and the
  shuffle: when all workers end, with an error or not, every descriptor is as it was before, and when the benchmark
  succeeds, the shared counter has counted the bytes of all shards once for each iteration. No worker waits for
  another, also after a read has failed: from every state that a round can reach, there is a schedule that ends it. And
  a round ends by losing a walk (\<open>WalkLost\<close>) only if a read of that walk has failed while others of its backend were
  in flight.
\<close>

theorem concurrent_benchmark_counts:
  fixes U :: "('q, 'w) uring_ops" and C :: "(batch, 'c) channel_ops"
  assumes "dataset_setting K U Y V C Q shuffle block all options w" and "0 < workers" and "workers < 2 ^ 31"
    and "batch_bytes options \<noteq> 0" and "prefetch options \<noteq> 0" and "prefetch options + 1 \<noteq> 0"
  shows "(\<forall>schedules r w'. concurrent_benchmark K U C shuffle all workers options schedules w = Some (r, w') \<longrightarrow>
       r \<noteq> Inl WalkLost \<longrightarrow> v_fds V w' = v_fds V w \<and>
       (\<forall>bytes. r = Inr bytes \<longrightarrow> bytes = of_nat (length schedules * sum_list (map (length \<circ> shard_content V) all)))) \<and>
     (\<forall>schedule. \<exists>more.
       round_result (run_round K U C shuffle (worker_sets workers all) options (schedule @ more) (round_start workers w)) \<noteq> None) \<and>
     (\<forall>schedule.
       round_result (run_round K U C shuffle (worker_sets workers all) options schedule (round_start workers w)) =
         Some (Inl WalkLost) \<longrightarrow>
       (\<exists>before after i s. schedule = before @ after \<and> i < workers \<and>
          br_workers (run_round K U C shuffle (worker_sets workers all) options before (round_start workers w)) ! i = Walking s \<and>
          bt_error s \<noteq> None \<and> stream_busy (bt_stream s)))"
proof (intro conjI)
  have perm: "\<forall>seed' xs. mset (shuffle seed' xs) = mset xs" and world: "uring_world K U Y V w"
    using assms(1) by (simp_all add: dataset_setting_def)
  note set = worker_sets_setting [OF assms(1,2,4)]
  have len: "length (worker_sets workers all) = workers" by simp
  have bytes_all: "(\<Sum>shards \<leftarrow> worker_sets workers all. length (dataset_bytes V shuffle shards options)) =
      sum_list (map (length \<circ> shard_content V) all)"
    unfolding length_dataset_bytes [OF perm] by (rule sum_worker_sets [OF assms(2)])
  show "\<forall>schedules r w'. concurrent_benchmark K U C shuffle all workers options schedules w = Some (r, w') \<longrightarrow>
      r \<noteq> Inl WalkLost \<longrightarrow> v_fds V w' = v_fds V w \<and>
      (\<forall>bytes. r = Inr bytes \<longrightarrow> bytes = of_nat (length schedules * sum_list (map (length \<circ> shard_content V) all)))"
    using concurrent_passes_counts [OF set _ world, unfolded len, OF assms(3)] bytes_all
    by (fastforce simp: concurrent_benchmark_def split: if_splits)
  have opts: "0 < unat (prefetch options)" using assms(5) by (simp add: unat_gt_0)
  show "\<forall>schedule. \<exists>more.
      round_result (run_round K U C shuffle (worker_sets workers all) options (schedule @ more) (round_start workers w)) \<noteq> None"
    unfolding run_round_append
    using run_round_lost_or_sound [OF set world refl, unfolded len] sound_round_ends [OF set opts assms(6)] lost_round_ends by metis
  show "\<forall>schedule.
      round_result (run_round K U C shuffle (worker_sets workers all) options schedule (round_start workers w)) =
        Some (Inl WalkLost) \<longrightarrow>
      (\<exists>before after i s. schedule = before @ after \<and> i < workers \<and>
         br_workers (run_round K U C shuffle (worker_sets workers all) options before (round_start workers w)) ! i = Walking s \<and>
         bt_error s \<noteq> None \<and> stream_busy (bt_stream s))"
    using lost_round_history [OF set world, unfolded len] by blast
qed

definition concurrent_schedule :: "(nat \<times> bool) list" where
  "concurrent_schedule = concat (replicate 14 [(0, True), (1, True), (0, False), (1, False), (1, True), (0, True)])"

theorem concurrent_benchmark_counts_witness:
  "\<exists>w. concurrent_benchmark memfs_sys memring_ops list_channel_ops (\<lambda>_. rev) demo_set 2 demo_options
       [concurrent_schedule] (memfs_world demo_files 2) = Some (Inr 7, w) \<and>
     v_fds (memfs_view True demo_files) w = v_fds (memfs_view True demo_files) (memfs_world demo_files 2)"
proof -
  have "map_option fst (concurrent_benchmark memfs_sys memring_ops list_channel_ops (\<lambda>_. rev) demo_set 2 demo_options
       [concurrent_schedule] (memfs_world demo_files 2)) = Some (Inr 7)" by code_simp
  then obtain w where w: "concurrent_benchmark memfs_sys memring_ops list_channel_ops (\<lambda>_. rev) demo_set 2 demo_options
       [concurrent_schedule] (memfs_world demo_files 2) = Some (Inr 7, w)" by auto
  have opts: "batch_bytes demo_options \<noteq> 0" "prefetch demo_options \<noteq> 0" "prefetch demo_options + 1 \<noteq> 0"
    by (simp_all add: demo_options_def)
  from concurrent_benchmark_counts [OF demo_setting _ _ opts, of 2, THEN conjunct1] w show ?thesis by fastforce
qed

end
