(* ===== verification/BenchFixture.thy ===== *)
theory BenchFixture
  imports File Shard
begin

text \<open>
  \<open>bench/bench_fixture.hpp\<close>: the files that the benchmarks read, a pattern written through \<open>File\<close> with direct I/O, or through
  a stream where the file system has none.
\<close>

section \<open>Definitions\<close>

text \<open>
  What the fixture calls beside \<open>File\<close>: \<open>std::filesystem::exists\<close> and \<open>file_size\<close> (\<open>2 ^ 64 - 1\<close> on an error),
  \<open>ftruncate(2)\<close>, \<open>fp::ensure_directory\<close>, whose result is ignored, and a truncating \<open>std::ofstream\<close>, which may refuse
  to be opened, goes on or fails with each \<open>write\<close>, and is closed by its destructor.
\<close>

record 'w fixture_fs =
  fx_exists :: "string \<Rightarrow> 'w \<Rightarrow> bool"
  fx_file_size :: "string \<Rightarrow> 'w \<Rightarrow> u64"
  fx_ftruncate :: "int \<Rightarrow> int \<Rightarrow> 'w \<Rightarrow> unit sysret \<times> 'w"
  fx_ensure_directory :: "string \<Rightarrow> 'w \<Rightarrow> 'w"
  fx_out_open :: "string \<Rightarrow> 'w \<Rightarrow> bool \<times> 'w"
  fx_out_write :: "string \<Rightarrow> byte list \<Rightarrow> 'w \<Rightarrow> bool \<times> 'w"
  fx_out_close :: "string \<Rightarrow> 'w \<Rightarrow> 'w"

definition pattern_byte :: "nat \<Rightarrow> byte" where
  "pattern_byte i = of_nat ((i * 31 + 7) mod 256)"

text \<open>The loop that fills a buffer, from index \<open>i\<close> on.\<close>

fun fill_pattern :: "nat \<Rightarrow> nat \<Rightarrow> byte list \<Rightarrow> byte list" where
  "fill_pattern i 0 bytes = bytes"
| "fill_pattern i (Suc n) bytes = fill_pattern (i + 1) n (bytes[i := pattern_byte i])"

text \<open>The loop that writes; the file's destructor is left to the caller.\<close>

partial_function (option) write_loop ::
  "'w sys \<Rightarrow> file_t \<Rightarrow> u64 \<Rightarrow> u64 \<Rightarrow> span \<Rightarrow> u64 \<Rightarrow> 'w \<Rightarrow> (bool \<times> 'w) option" where
  "write_loop K f chunk padded buffer offset w =
     (if offset < padded then
        let n = min chunk (padded - offset) in do {
        (put, w') \<leftarrow> file_pwrite_exact K f offset (span_first (unat n) buffer) w;
        (case put of
           Inl e \<Rightarrow> Some (False, w')
         | Inr _ \<Rightarrow> write_loop K f chunk padded buffer (offset + n) w')
      } else Some (True, w))"

declare write_loop.simps [code]

text \<open>
  \<open>write_direct\<close>. The least size of a chunk is an argument, 1 MiB in the program. \<open>None\<close> is the division by an alignment of
  zero. What \<open>ftruncate\<close> returns is not looked at.
\<close>

definition write_direct ::
  "'w sys \<Rightarrow> 'w fixture_fs \<Rightarrow> u64 \<Rightarrow> string \<Rightarrow> u64 \<Rightarrow> 'w \<Rightarrow> (bool \<times> 'w) option" where
  "write_direct K X least path size' w =
     (case file_open K path DirectWrite w of
        (Inl e, w1) \<Rightarrow> Some (False, w1)
      | (Inr f, w1) \<Rightarrow>
          let block = file_alignment f;
              chunk = max block least in
          (case fp_alloc K chunk block w1 of
             (Inl what, w2) \<Rightarrow> Some (False, snd (file_close K f w2))
           | (Inr raw, w2) \<Rightarrow>
               let buffer = raw\<lparr>sp_bytes := fill_pattern 0 (unat chunk) (sp_bytes raw)\<rparr> in
               if block = 0 then None
               else
                 let padded = (size' + block - 1) div block * block in do {
                 (ok, w3) \<leftarrow> write_loop K f chunk padded buffer 0 w2;
                 Some (if ok
                   then (True, snd (file_close K f
                     (if padded \<noteq> size' then snd (fx_ftruncate X (file_fd f) (sint size') w3) else w3)))
                   else (False, snd (file_close K f w3)))
               }))"

text \<open>The loop over a stream; \<open>good\<close> is its state. The buffer is never empty.\<close>

function stream_loop ::
  "'w fixture_fs \<Rightarrow> string \<Rightarrow> byte list \<Rightarrow> nat \<Rightarrow> bool \<Rightarrow> nat \<Rightarrow> 'w \<Rightarrow> 'w" where
  "stream_loop X path chunk size' good written w =
     (if good \<and> written < size' \<and> chunk \<noteq> [] then
        let n = min (length chunk) (size' - written) in
        (case fx_out_write X path (take n chunk) w of (good', w') \<Rightarrow>
           stream_loop X path chunk size' good' (written + n) w')
      else w)"
  by pat_completeness auto

termination
  by (relation "measure (\<lambda>(X, path, chunk, size', good, written, w). size' - written)")
    (auto simp: min_def neq_Nil_conv split: if_splits)

declare stream_loop.simps [simp del]

definition ensure_file ::
  "'w sys \<Rightarrow> 'w fixture_fs \<Rightarrow> u64 \<Rightarrow> string \<Rightarrow> u64 \<Rightarrow> 'w \<Rightarrow> (string \<times> 'w) option" where
  "ensure_file K X least path size' w =
     (if fx_exists X path w \<and> fx_file_size X path w = size' then Some (path, w)
      else do {
        (ok, w1) \<leftarrow> write_direct K X least path size' w;
        if ok then Some (path, w1)
        else (case fx_out_open X path w1 of (good, w2) \<Rightarrow>
          Some (path, fx_out_close X path
            (stream_loop X path (fill_pattern 0 (unat least) (replicate (unat least) 0)) (unat size') good 0 w2)))
      })"

text \<open>The loop over the shards, from number \<open>i\<close> on.\<close>

fun ensure_shard_files ::
  "'w sys \<Rightarrow> 'w fixture_fs \<Rightarrow> u64 \<Rightarrow> string \<Rightarrow> nat \<Rightarrow> nat \<Rightarrow> u64 \<Rightarrow> 'w \<Rightarrow> 'w option" where
  "ensure_shard_files K X least dir i 0 size' w = Some w"
| "ensure_shard_files K X least dir i (Suc n) size' w = do {
     (path, w') \<leftarrow> ensure_file K X least (dir @ ''/shard-'' @ decimal i @ ''.bin'') size' w;
     ensure_shard_files K X least dir (i + 1) n size' w'
   }"

definition ensure_shards ::
  "'w sys \<Rightarrow> 'w fixture_fs \<Rightarrow> u64 \<Rightarrow> string \<Rightarrow> string \<Rightarrow> nat \<Rightarrow> u64 \<Rightarrow> 'w \<Rightarrow> (string \<times> 'w) option" where
  "ensure_shards K X least data_dir name n size' w =
     (let dir = data_dir @ ''/'' @ name in do {
        w' \<leftarrow> ensure_shard_files K X least dir 0 n size' (fx_ensure_directory X dir w);
        Some (dir, w')
      })"

definition large_file :: "string \<Rightarrow> string" where
  "large_file data_dir = data_dir @ ''/large.bin''"

definition large_file_ready :: "'w fixture_fs \<Rightarrow> string \<Rightarrow> 'w \<Rightarrow> bool" where
  "large_file_ready X data_dir w \<longleftrightarrow>
     fx_exists X (large_file data_dir) w \<and> fx_file_size X (large_file data_dir) w \<ge> 20 * 1024 * 1024 * 1024"

text \<open>
  The directory of the data, beside the source file \<open>source\<close>; \<open>parent\<close> is \<open>std::filesystem::path::parent_path\<close>. The other
  definitions take the directory as an argument.
\<close>

definition path_join :: "string \<Rightarrow> string \<Rightarrow> string" where
  "path_join p q = (if p = [] \<or> last p = CHR ''/'' then p @ q else p @ ''/'' @ q)"

definition bench_data_dir :: "'w fixture_fs \<Rightarrow> (string \<Rightarrow> string) \<Rightarrow> string \<Rightarrow> 'w \<Rightarrow> string \<times> 'w" where
  "bench_data_dir X parent source w =
     (let path = path_join (path_join (parent (parent source)) ''build'') ''bench-data'' in
      (path, fx_ensure_directory X path w))"

text \<open>\<open>bench_file\<close> of \<open>bench/read_bench.cpp\<close>: a file of 256 MiB.\<close>

definition bench_file :: "'w sys \<Rightarrow> 'w fixture_fs \<Rightarrow> u64 \<Rightarrow> string \<Rightarrow> 'w \<Rightarrow> (string \<times> 'w) option" where
  "bench_file K X least data_dir w = ensure_file K X least (data_dir @ ''/bench.bin'') (256 * 1024 * 1024) w"

text \<open>
  \<open>bench_shards\<close> of \<open>bench/dataset_bench.cpp\<close>: the set discovered in the directory that the environment names, or in that of the
  fixture; an empty set when that fails.
\<close>

definition bench_shards ::
  "'w sys \<Rightarrow> 'w fixture_fs \<Rightarrow> 'w fs \<Rightarrow> u64 \<Rightarrow> string option \<Rightarrow> string \<Rightarrow> 'w \<Rightarrow> (shard_set \<times> 'w) option" where
  "bench_shards K X F least custom data_dir w = do {
     (dir, w') \<leftarrow> (if custom \<noteq> None \<and> custom \<noteq> Some [] then Some (the custom, w)
       else ensure_shards K X least data_dir ''shards'' 8 (32 * 1024 * 1024) w);
     Some (case shard_set_discover F dir w' of Inr shards \<Rightarrow> shards | Inl e \<Rightarrow> [], w')
   }"


section \<open>What the calls promise\<close>

definition resized :: "nat \<Rightarrow> byte list \<Rightarrow> byte list" where
  "resized n c = take n c @ replicate (n - length c) 0"

text \<open>A buffer has the alignment that it was asked for.\<close>

definition disk_alloc_law :: "'w sys \<Rightarrow> 'w disk_view \<Rightarrow> bool" where
  "disk_alloc_law K W \<longleftrightarrow> (\<forall>m al w r w'. dv_good W w \<longrightarrow> fp_alloc K m al w = (r, w') \<longrightarrow>
     still W w w' \<and> (\<forall>s. r = Inr s \<longrightarrow> unat m \<le> span_size s \<and> unat al dvd unat (sp_addr s)))"

text \<open>
  Writing through a descriptor that can be written. Through one that bypasses the cache, a write has to be aligned to \<open>a\<close>:
  of others nothing is said, not even that the world stays good.
\<close>

definition disk_write_law :: "'w sys \<Rightarrow> 'w fixture_fs \<Rightarrow> 'w disk_view \<Rightarrow> nat \<Rightarrow> bool" where
  "disk_write_law K X W a \<longleftrightarrow>
     (\<forall>fd p F c s off w r w'. dv_good W w \<longrightarrow> dv_open W w fd = Some (p, F) \<longrightarrow> O_RDWR \<in> F \<longrightarrow> dv_disk W w p = Some c \<longrightarrow>
        aligned_io (if O_DIRECT \<in> F then a else 1) off s \<longrightarrow> sys_pwrite K fd s off w = (r, w') \<longrightarrow>
        (case r of
           Ret n \<Rightarrow> 0 \<le> off \<and> n \<le> span_size s \<and> (if O_DIRECT \<in> F then a else 1) dvd n \<and>
             dv_good W w' \<and> dv_open W w' = dv_open W w \<and>
             dv_disk W w' = (dv_disk W w)(p \<mapsto> file_store (nat off) (take n (sp_bytes s)) c)
         | Errno e \<Rightarrow> still W w w' \<and> (e = EINTR \<longrightarrow> dv_signals W w' < dv_signals W w))) \<and>
     (\<forall>fd p F c n w r w'. dv_good W w \<longrightarrow> dv_open W w fd = Some (p, F) \<longrightarrow> O_RDWR \<in> F \<longrightarrow> dv_disk W w p = Some c \<longrightarrow>
        fx_ftruncate X fd n w = (r, w') \<longrightarrow>
        (case r of
           Ret _ \<Rightarrow> dv_good W w' \<and> dv_open W w' = dv_open W w \<and>
             dv_disk W w' = (dv_disk W w)(p \<mapsto> resized (nat n) c)
         | Errno e \<Rightarrow> still W w w'))"

text \<open>What direct I/O asks for is a power of two.\<close>

definition disk_law :: "'w sys \<Rightarrow> 'w fixture_fs \<Rightarrow> 'w disk_view \<Rightarrow> nat \<Rightarrow> u64 \<Rightarrow> bool" where
  "disk_law K X W a n \<longleftrightarrow> disk_files_law K W a n \<and> disk_alloc_law K W \<and> disk_write_law K X W a \<and> a dvd 2 ^ 64"

lemma disk_lawD:
  assumes "disk_law K X W a n"
  shows "disk_files_law K W a n" "disk_alloc_law K W" "disk_write_law K X W a" "a dvd 2 ^ 64"
  using assms by (auto simp: disk_law_def)

text \<open>A file that is being written through \<open>fd\<close> has the content \<open>c\<close>; nothing else has changed.\<close>

definition writing :: "'w disk_view \<Rightarrow> 'w \<Rightarrow> int \<Rightarrow> string \<Rightarrow> byte list \<Rightarrow> 'w \<Rightarrow> bool" where
  "writing W w0 fd p c w \<longleftrightarrow> dv_good W w \<and> dv_open W w = (dv_open W w0)(fd \<mapsto> (p, set (open_flags DirectWrite))) \<and>
     dv_disk W w p = Some c \<and> (\<forall>q. q \<noteq> p \<longrightarrow> dv_disk W w q = dv_disk W w0 q)"

lemma writing_still: "writing W w0 fd p c w \<Longrightarrow> still W w w' \<Longrightarrow> writing W w0 fd p c w'"
  by (simp add: writing_def still_def)

lemma writing_live: "writing W w0 fd p c w \<Longrightarrow>
    dv_good W w \<and> dv_open W w fd = Some (p, set (open_flags DirectWrite)) \<and> dv_disk W w p = Some c"
  by (simp add: writing_def)

text \<open>This one file, in the terms of \<^theory_text>\<open>Outside\<close>: the good worlds are those in which only it has changed.\<close>

definition writing_view :: "'w disk_view \<Rightarrow> 'w \<Rightarrow> int \<Rightarrow> string \<Rightarrow> 'w view" where
  "writing_view W w0 fd p = \<lparr>v_good = (\<lambda>w. \<exists>c. writing W w0 fd p c w),
     v_fds = (\<lambda>w x. if x = fd then dv_disk W w p else None),
     v_files = (\<lambda>_. None), v_signals = dv_signals W\<rparr>"

lemma writing_reads: "reads_from (writing_view W w0 (file_fd f) p) f c w \<longleftrightarrow> 0 \<le> file_fd f \<and> writing W w0 (file_fd f) p c w"
  by (auto simp: reads_from_def writing_view_def writing_def)

lemma writing_pwrite_law:
  assumes law: "disk_law K X W a n"
  shows "aligned_pwrite_law a K (writing_view W w0 fd p)"
  unfolding aligned_pwrite_law_def
proof (intro allI impI)
  let ?V = "writing_view W w0 fd p"
  fix x c s off w r w'
  assume good: "v_good ?V w" and c: "v_fds ?V w x = Some c" and al: "aligned_io a off s"
    and call: "sys_pwrite K x s off w = (r, w')"
  from c have x: "x = fd" "dv_disk W w p = Some c" by (simp_all add: writing_view_def split: if_splits)
  with good have wr: "writing W w0 fd p c w" by (auto simp: writing_view_def writing_def)
  note eff = disk_lawD(3) [OF law, unfolded disk_write_law_def, THEN conjunct1, rule_format,
    OF _ _ _ _ _ call [unfolded x(1)], of p "set (open_flags DirectWrite)" c]
  have eff: "case r of
      Ret n \<Rightarrow> 0 \<le> off \<and> n \<le> span_size s \<and> a dvd n \<and> dv_good W w' \<and> dv_open W w' = dv_open W w \<and>
        dv_disk W w' = (dv_disk W w)(p \<mapsto> file_store (nat off) (take n (sp_bytes s)) c)
    | Errno e \<Rightarrow> still W w w' \<and> (e = EINTR \<longrightarrow> dv_signals W w' < dv_signals W w)"
    using eff writing_live [OF wr] al by (cases r) (simp_all add: open_flags_mode)
  show "case r of
      Ret n \<Rightarrow> v_good ?V w' \<and> 0 \<le> off \<and> n \<le> span_size s \<and> a dvd n \<and>
        v_fds ?V w' = (v_fds ?V w)(x \<mapsto> file_store (nat off) (take n (sp_bytes s)) c)
    | Errno e \<Rightarrow> quiet ?V w w' \<and> (e = EINTR \<longrightarrow> v_signals ?V w' < v_signals ?V w)"
  proof (cases r)
    case (Ret m)
    with eff wr have "writing W w0 fd p (file_store (nat off) (take m (sp_bytes s)) c) w'" by (simp add: writing_def)
    with Ret eff x show ?thesis by (auto simp: writing_view_def fun_eq_iff)
  next
    case (Errno e)
    with eff writing_still [OF wr] show ?thesis by (auto simp: writing_view_def quiet_def still_def fun_eq_iff)
  qed
qed

section \<open>Writing\<close>

text \<open>\<open>pwrite_exact\<close> at the end of a file that is being written appends.\<close>

lemma pwrite_exact_appends:
  assumes law: "disk_law K X W a n" and wr: "writing W w0 (file_fd f) p c w" and fd: "0 \<le> file_fd f"
    and off: "unat off = length c" "unat off + span_size src < 2 ^ 64"
    and al: "a dvd unat off" "a dvd span_size src" "a dvd unat (sp_addr src)"
  shows "\<exists>put w' c'. file_pwrite_exact K f off src w = Some (put, w') \<and> writing W w0 (file_fd f) p c' w' \<and>
    (\<forall>m. put = Inr m \<longrightarrow> c' = c @ sp_bytes src)"
proof -
  let ?V = "writing_view W w0 (file_fd f) p"
  have start: "reads_from ?V f (file_store (unat off) (take 0 (sp_bytes src)) c) w"
    using wr fd by (simp add: writing_reads file_store_def)
  from pwrite_exact_loop_correct [OF writing_pwrite_law [OF law] off(2) disk_lawD(4) [OF law] al start] obtain put w' k where
    r: "file_pwrite_exact K f off src w = Some (put, w')"
    and k: "reads_from ?V f (file_store (unat off) (take k (sp_bytes src)) c) w'"
    and ok: "\<forall>m. put = Inr m \<longrightarrow> m = span_size src \<and> k = m"
    unfolding file_pwrite_exact_def by auto
  have "file_store (unat off) (take k (sp_bytes src)) c = c @ sp_bytes src" if "put = Inr m" for m
    using ok that off(1) by (simp add: span_size_def file_store_def)
  with r k show ?thesis by (auto simp: writing_reads)
qed


section \<open>The pattern\<close>

text \<open>The content of a file that was written in chunks of \<open>m\<close> bytes.\<close>

definition chunk_pattern :: "nat \<Rightarrow> nat \<Rightarrow> byte list" where
  "chunk_pattern m n = map (\<lambda>k. pattern_byte (k mod m)) [0..<n]"

lemma length_chunk_pattern [simp]: "length (chunk_pattern m n) = n"
  by (simp add: chunk_pattern_def)

lemma chunk_pattern_append:
  assumes "off mod m = 0" and "n \<le> m"
  shows "chunk_pattern m off @ map pattern_byte [0..<n] = chunk_pattern m (off + n)"
proof -
  have "(off + k) mod m = k" if "k < n" for k
  proof -
    have "(off + k) mod m = (off mod m + k) mod m" by (simp only: mod_add_left_eq)
    also have "\<dots> = k" unfolding assms(1) using that assms(2) by simp
    finally show ?thesis .
  qed
  then have "map (\<lambda>k. pattern_byte ((off + k) mod m)) [0..<n] = map pattern_byte [0..<n]"
    by (intro map_cong) simp_all
  moreover have "map (\<lambda>k. pattern_byte ((off + k) mod m)) [0..<n] = map (\<lambda>k. pattern_byte (k mod m)) [off..<off + n]"
    by (rule nth_equalityI) simp_all
  ultimately have "map (\<lambda>k. pattern_byte (k mod m)) [off..<off + n] = map pattern_byte [0..<n]" by (simp only:)
  then show ?thesis by (simp add: chunk_pattern_def upt_add_eq_append [of 0 off n])
qed

text \<open>Chunks of a multiple of 256 bytes do not show in the content.\<close>

lemma chunk_pattern_plain:
  assumes "256 dvd m"
  shows "chunk_pattern m n = map pattern_byte [0..<n]"
proof -
  have "pattern_byte (k mod m) = pattern_byte k" for k
  proof -
    have "k mod m mod 256 = k mod 256" using assms by (rule mod_mod_cancel)
    then have "(k mod m * 31 + 7) mod 256 = (k * 31 + 7) mod 256"
      by (metis mod_add_left_eq mod_mult_left_eq)
    then show ?thesis by (simp add: pattern_byte_def)
  qed
  then show ?thesis by (simp add: chunk_pattern_def)
qed

lemma fill_pattern_result:
  "i + n \<le> length bytes \<Longrightarrow>
     fill_pattern i n bytes = take i bytes @ map pattern_byte [i..<i + n] @ drop (i + n) bytes"
proof (induction n arbitrary: i bytes)
  case (Suc n)
  have "take (Suc i) (bytes[i := pattern_byte i]) = take i bytes @ [pattern_byte i]"
    using Suc.prems by (simp add: take_Suc_conv_app_nth)
  moreover have "[i..<i + Suc n] = i # [Suc i..<Suc i + n]" by (simp add: upt_conv_Cons del: upt_Suc)
  ultimately show ?case using Suc.IH [of "i + 1" "bytes[i := pattern_byte i]"] Suc.prems by simp
qed simp

lemma take_fill_pattern: "n \<le> length bytes \<Longrightarrow> k \<le> n \<Longrightarrow> take k (fill_pattern 0 n bytes) = map pattern_byte [0..<k]"
  by (simp add: fill_pattern_result take_map)

section \<open>The loop that writes\<close>

lemma write_loop_correct:
  assumes law: "disk_law K X W a n" and fd: "0 \<le> file_fd f" and chunk: "0 < unat chunk"
    and room: "unat padded + unat chunk < 2 ^ 64" and buf: "unat chunk \<le> span_size buffer"
    and al: "a dvd unat chunk" "a dvd unat padded" "a dvd unat (sp_addr buffer)"
    and pat: "\<And>k. k \<le> unat chunk \<Longrightarrow> take k (sp_bytes buffer) = map pattern_byte [0..<k]"
  shows "writing W w0 (file_fd f) p (chunk_pattern (unat chunk) (unat off)) w \<Longrightarrow> unat off \<le> unat padded \<Longrightarrow> a dvd unat off \<Longrightarrow>
    unat off mod unat chunk = 0 \<or> off = padded \<Longrightarrow>
    \<exists>ok w' c. write_loop K f chunk padded buffer off w = Some (ok, w') \<and> writing W w0 (file_fd f) p c w' \<and>
      (ok \<longrightarrow> c = chunk_pattern (unat chunk) (unat padded))"
proof (induction "unat padded - unat off" arbitrary: off w rule: less_induct)
  case less
  show ?case
  proof (cases "off < padded")
    case False
    then have "unat off = unat padded" using less.prems(2) by (simp add: word_less_nat_alt)
    moreover have "write_loop K f chunk padded buffer off w = Some (True, w)"
      using False by (subst write_loop.simps) simp
    ultimately show ?thesis using less.prems(1) by auto
  next
    case True
    let ?n = "min chunk (padded - off)"
    let ?src = "span_first (unat ?n) buffer"
    have lt: "unat off < unat padded" using True by (simp add: word_less_nat_alt)
    have n: "unat ?n = min (unat chunk) (unat padded - unat off)"
      using True by (simp add: min_def u64_le_nat unat_sub word_less_nat_alt)
    then have le: "unat off + unat ?n \<le> unat padded" using lt by simp
    have whole: "unat off mod unat chunk = 0" using less.prems(4) True by auto
    have bytes: "sp_bytes ?src = map pattern_byte [0..<unat ?n]" using pat n by (simp add: span_first_def)
    then have size': "span_size ?src = unat ?n" by (simp add: span_size_def)
    have al_n: "a dvd unat ?n" unfolding n using al(1,2) less.prems(3) by (simp add: min_def dvd_diff_nat)
    have al_src: "a dvd span_size ?src" "a dvd unat (sp_addr ?src)" unfolding size' using al_n al(3) by (simp_all add: span_first_def)
    have next_off: "unat (off + ?n) = unat off + unat ?n"
    proof -
      have "unat off + unat ?n < 2 ^ 64" using room le by linarith
      then show ?thesis by (intro unat_plus_u64) simp
    qed
    have fits: "unat off + span_size ?src < 2 ^ 64" using room le unfolding size' by linarith
    from pwrite_exact_appends [OF law less.prems(1) fd _ fits less.prems(3) al_src] obtain put w1 c1 where
      put: "file_pwrite_exact K f off ?src w = Some (put, w1)" "writing W w0 (file_fd f) p c1 w1"
        "\<forall>m. put = Inr m \<longrightarrow> c1 = chunk_pattern (unat chunk) (unat off) @ sp_bytes ?src" by auto
    show ?thesis
    proof (cases put)
      case (Inl e)
      then have "write_loop K f chunk padded buffer off w = Some (False, w1)"
        using True put(1) by (subst write_loop.simps) (simp add: Let_def)
      with put(2) show ?thesis by blast
    next
      case (Inr m)
      have step: "write_loop K f chunk padded buffer off w = write_loop K f chunk padded buffer (off + ?n) w1"
        using True put(1) Inr by (subst write_loop.simps) (simp add: Let_def)
      have "c1 = chunk_pattern (unat chunk) (unat (off + ?n))"
        unfolding next_off using put(3) Inr bytes chunk_pattern_append [OF whole, of "unat ?n"] n by simp
      then have wr1: "writing W w0 (file_fd f) p (chunk_pattern (unat chunk) (unat (off + ?n))) w1" using put(2) by simp
      have less: "unat padded - unat (off + ?n) < unat padded - unat off"
        unfolding next_off using lt n chunk by auto
      have inside: "unat (off + ?n) \<le> unat padded" unfolding next_off by (rule le)
      have al_next: "a dvd unat (off + ?n)" unfolding next_off using less.prems(3) al_n by simp
      have "unat (off + ?n) mod unat chunk = 0 \<or> off + ?n = padded"
      proof (cases "unat chunk \<le> unat padded - unat off")
        case True
        then show ?thesis using n whole by (simp add: next_off)
      next
        case False
        then have "unat (off + ?n) = unat padded" unfolding next_off using n lt by simp
        then show ?thesis by (simp add: word_unat_eq_iff)
      qed
      from less.hyps [OF less wr1 inside al_next this] show ?thesis unfolding step .
    qed
  qed
qed

section \<open>Opening\<close>

text \<open>Opening a file for direct writes empties it, or it fails and leaves no descriptor.\<close>

lemma open_direct_write:
  assumes law: "disk_law K X W a n" and good: "dv_good W w" and call: "file_open K path DirectWrite w = (r, w')"
  shows "case r of
      Inl e \<Rightarrow> dv_good W w' \<and> dv_open W w' = dv_open W w \<and> (\<forall>q. q \<noteq> path \<longrightarrow> dv_disk W w' q = dv_disk W w q)
    | Inr f \<Rightarrow> 0 \<le> file_fd f \<and> dv_open W w (file_fd f) = None \<and> writing W w (file_fd f) path [] w' \<and>
        file_alignment f \<noteq> 0 \<and> file_alignment f \<le> n \<and> a dvd unat (file_alignment f)"
proof -
  note res = file_open_on_disk [OF disk_lawD(1) [OF law] good call]
  show ?thesis using res(1,2) res(4) res(5) by (cases r) (simp_all add: writing_def)
qed

text \<open>The size rounded up to whole blocks.\<close>

lemma padded_size:
  assumes "block \<noteq> 0" and "unat size' + unat block < 2 ^ 63"
  shows "unat ((size' + block - 1) div block * block :: u64) = (unat size' + unat block - 1) div unat block * unat block"
    and "unat size' \<le> (unat size' + unat block - 1) div unat block * unat block"
    and "(unat size' + unat block - 1) div unat block * unat block < unat size' + unat block"
proof -
  let ?s = "unat size'" and ?b = "unat block"
  have b: "0 < ?b" using assms(1) by (simp add: unat_gt_0)
  have sum: "unat (size' + block) = ?s + ?b" using assms(2) by (intro unat_plus_u64) simp
  have "(1 :: u64) \<le> size' + block" using b sum by (simp add: u64_le_nat)
  then have minus: "unat (size' + block - 1) = ?s + ?b - 1" using sum by (simp add: unat_sub)
  have div_eq: "unat ((size' + block - 1) div block) = (?s + ?b - 1) div ?b" by (simp add: unat_div minus)
  have "(?s + ?b - 1) div ?b * ?b \<le> ?s + ?b - 1" by simp
  also have "\<dots> < 2 ^ LENGTH(64)" using assms(2) by simp
  finally have "unat ((size' + block - 1) div block) * unat block < 2 ^ LENGTH(64)" unfolding div_eq .
  then have "unat ((size' + block - 1) div block * block) = unat ((size' + block - 1) div block) * unat block"
    by (rule unat_mult_lem [THEN iffD1])
  then show "unat ((size' + block - 1) div block * block) = (?s + ?b - 1) div ?b * ?b"
    unfolding div_eq .
  have "?s + ?b - 1 = (?s + ?b - 1) div ?b * ?b + (?s + ?b - 1) mod ?b" by simp
  moreover have "(?s + ?b - 1) mod ?b < ?b" using b by simp
  ultimately show "?s \<le> (?s + ?b - 1) div ?b * ?b" "(?s + ?b - 1) div ?b * ?b < ?s + ?b" using b by linarith+
qed

lemma resized_pattern: "k \<le> n \<Longrightarrow> resized k (chunk_pattern m n) = chunk_pattern m k"
  by (simp add: resized_def chunk_pattern_def take_map)

section \<open>The disk in memory\<close>

text \<open>What the fixture calls, on the disk of \<^theory_text>\<open>MemDisk\<close>. It is used by the witness.\<close>

definition mini_ftruncate :: "int \<Rightarrow> int \<Rightarrow> mini_disk \<Rightarrow> unit sysret \<times> mini_disk" where
  "mini_ftruncate fd n d =
     (case map_of (md_open d) fd of
        None \<Rightarrow> (Errno 9, d)
      | Some (p, F) \<Rightarrow> (Ret (), d\<lparr>md_files := (p, resized (nat n) (the (map_of (md_files d) p))) # md_files d\<rparr>))"

definition mini_fx :: "mini_disk fixture_fs" where
  "mini_fx = \<lparr>
     fx_exists = (\<lambda>p d. map_of (md_files d) p \<noteq> None),
     fx_file_size = (\<lambda>p d. case map_of (md_files d) p of None \<Rightarrow> - 1 | Some c \<Rightarrow> of_nat (length c)),
     fx_ftruncate = mini_ftruncate,
     fx_ensure_directory = (\<lambda>p d. d),
     fx_out_open = (\<lambda>p d. (True, d\<lparr>md_files := (p, []) # md_files d\<rparr>)),
     fx_out_write = (\<lambda>p bs d. (True, d\<lparr>md_files := (p, the (map_of (md_files d) p) @ bs) # md_files d\<rparr>)),
     fx_out_close = (\<lambda>p d. d)\<rparr>"

lemma mini_aligned: "aligned_io 4 off s \<Longrightarrow> off mod 4 = 0 \<and> span_size s mod 4 = 0 \<and> sp_addr s mod 4 = 0"
  by (simp add: aligned_io_def mod_eq_0_iff_dvd word_unat_eq_iff unat_mod)

lemma mini_law: "disk_law mini_sys mini_fx mini_view 4 4"
  unfolding disk_law_def
proof (intro conjI)
  show "disk_files_law mini_sys mini_view 4 4" by (rule mini_files_law)
  show "disk_alloc_law mini_sys mini_view"
    by (auto simp: disk_alloc_law_def mini_sys_def still_def span_size_def)
  show "disk_write_law mini_sys mini_fx mini_view 4"
    unfolding disk_write_law_def
  proof (intro conjI allI impI)
    fix fd p F c s off w r w'
    assume good: "dv_good mini_view w" and w: "dv_open mini_view w fd = Some (p, F)" "O_RDWR \<in> F" "dv_disk mini_view w p = Some c"
      and al: "aligned_io (if O_DIRECT \<in> F then 4 else 1) off s" and call: "sys_pwrite mini_sys fd s off w = (r, w')"
    have "O_DIRECT \<in> F \<Longrightarrow> off mod 4 = 0 \<and> span_size s mod 4 = 0 \<and> sp_addr s mod 4 = 0" using al mini_aligned by simp
    then have "r = (if off < 0 then Errno 22 else Ret (span_size s)) \<and>
        w' = (if off < 0 then w else w\<lparr>md_files := (p, file_store (nat off) (sp_bytes s) c) # md_files w\<rparr>)"
      using w call by (auto simp: mini_sys_def mini_view_def mini_pwrite_def split: if_splits)
    then show "case r of
           Ret n \<Rightarrow> 0 \<le> off \<and> n \<le> span_size s \<and> (if O_DIRECT \<in> F then 4 else 1) dvd n \<and>
             dv_good mini_view w' \<and> dv_open mini_view w' = dv_open mini_view w \<and>
             dv_disk mini_view w' = (dv_disk mini_view w)(p \<mapsto> file_store (nat off) (take n (sp_bytes s)) c)
         | Errno e \<Rightarrow> still mini_view w w' \<and> (e = EINTR \<longrightarrow> dv_signals mini_view w' < dv_signals mini_view w)"
      using good al by (simp add: mini_view_def still_def span_size_def aligned_io_def EINTR_def)
  qed (auto simp: mini_fx_def mini_view_def mini_ftruncate_def)
qed simp

section \<open>The whole file\<close>

text \<open>Closing ends the writing.\<close>

lemma close_writing:
  assumes law: "disk_law K X W a n" and wr: "writing W w0 (file_fd f) p c w" and fd: "0 \<le> file_fd f" "dv_open W w0 (file_fd f) = None"
  shows "dv_good W (snd (file_close K f w)) \<and> dv_open W (snd (file_close K f w)) = dv_open W w0 \<and>
    dv_disk W (snd (file_close K f w)) p = Some c \<and> (\<forall>q. q \<noteq> p \<longrightarrow> dv_disk W (snd (file_close K f w)) q = dv_disk W w0 q)"
proof -
  have "dv_good W w" using wr by (simp add: writing_def)
  from disk_closeD [OF disk_lawD(1) [OF law] this, of "file_fd f"] disk_close_again [OF disk_lawD(1) [OF law] this _ fd(2)] wr fd
  show ?thesis by (simp add: writing_def file_close_def)
qed

text \<open>The sizes of the buffer and of what is written.\<close>

lemma write_sizes:
  fixes block n size' least :: u64
  assumes block: "block \<noteq> 0" "block \<le> n" and fit: "unat size' + unat n < 2 ^ 63" "unat least < 2 ^ 63"
  defines "padded \<equiv> (size' + block - 1) div block * block"
  shows "0 < unat (max block least)" and "unat padded + unat (max block least) < 2 ^ 64"
    and "unat size' \<le> unat padded" and "unat padded = (unat size' + unat block - 1) div unat block * unat block"
proof -
  have "unat block \<le> unat n" using block(2) by (simp add: u64_le_nat)
  then have small: "unat size' + unat block < 2 ^ 63" using fit(1) by linarith
  note pad = padded_size [OF block(1) small]
  show "unat size' \<le> unat padded" "unat padded = (unat size' + unat block - 1) div unat block * unat block"
    unfolding padded_def pad(1) by (rule pad(2), rule refl)
  have less: "unat padded < unat size' + unat block" unfolding padded_def pad(1) by (rule pad(3))
  have "0 < unat block" using block(1) by (simp add: unat_gt_0)
  moreover have "unat block \<le> unat (max block least)" by (simp add: u64_le_nat [symmetric])
  ultimately show "0 < unat (max block least)" by linarith
  have "unat (max block least) < 2 ^ 63" using fit block(2) by (simp add: max_def u64_le_nat)
  with less small show "unat padded + unat (max block least) < 2 ^ 64" by simp
qed

text \<open>Cutting the last block to size, which may fail.\<close>

lemma truncate_pattern:
  fixes size' padded :: u64
  assumes law: "disk_law K X W a n" and small: "unat size' < 2 ^ 63" and le: "unat size' \<le> unat padded"
    and wr: "writing W w fd p (chunk_pattern m (unat padded)) v" and t: "fx_ftruncate X fd (sint size') v = (t, v')"
  shows "\<exists>len. writing W w fd p (chunk_pattern m len) (if padded \<noteq> size' then v' else v) \<and>
    (len = unat size' \<or> len = unat padded \<and> (\<exists>e. t = Errno e))"
proof (cases "padded = size'")
  case True
  with wr show ?thesis by (intro exI [of _ "unat size'"]) simp
next
  case False
  have live: "dv_good W v" "dv_open W v fd = Some (p, set (open_flags DirectWrite))"
      "O_RDWR \<in> set (open_flags DirectWrite)" "dv_disk W v p = Some (chunk_pattern m (unat padded))"
    using writing_live [OF wr] by (simp_all add: open_flags_mode)
  note eff = disk_lawD(3) [OF law, unfolded disk_write_law_def, THEN conjunct2, rule_format, OF live t]
  have cut: "resized (nat (sint size')) (chunk_pattern m (unat padded)) = chunk_pattern m (unat size')"
  proof -
    have "nat (sint size') = unat size'" using small by (simp add: sint_u64_small)
    then show ?thesis by (simp only: resized_pattern [OF le])
  qed
  show ?thesis
  proof (cases t)
    case (Ret u)
    with eff cut have "dv_good W v' \<and> dv_open W v' = dv_open W v \<and> dv_disk W v' = (dv_disk W v)(p \<mapsto> chunk_pattern m (unat size'))"
      by (simp only: sysret.case)
    with wr have "writing W w fd p (chunk_pattern m (unat size')) v'" by (simp add: writing_def)
    with False le show ?thesis by (intro exI [of _ "unat size'"]) simp
  next
    case (Errno e)
    with eff writing_still [OF wr] False le show ?thesis by (intro exI [of _ "unat padded"]) simp
  qed
qed

text \<open>From the allocated buffer on.\<close>

lemma write_direct_allocated:
  assumes law: "disk_law K X W a n" and fit: "unat size' + unat n < 2 ^ 63" "unat least < 2 ^ 63" and least: "a dvd unat least"
    and fd: "0 \<le> file_fd f" "dv_open W w (file_fd f) = None"
    and block: "file_alignment f \<noteq> 0" "file_alignment f \<le> n" "a dvd unat (file_alignment f)"
    and o: "file_open K path DirectWrite w = (Inr f, w1)"
    and al: "fp_alloc K (max (file_alignment f) least) (file_alignment f) w1 = (Inr raw, w2)"
    and wr: "writing W w (file_fd f) path [] w2"
    and raw: "unat (max (file_alignment f) least) \<le> span_size raw" "unat (file_alignment f) dvd unat (sp_addr raw)"
  defines "chunk \<equiv> unat (max (file_alignment f) least)"
    and "whole \<equiv> (unat size' + unat (file_alignment f) - 1) div unat (file_alignment f) * unat (file_alignment f)"
  shows "\<exists>ok c v. write_direct K X least path size' w = Some (ok, snd (file_close K f v)) \<and> writing W w (file_fd f) path c v \<and>
    (ok \<longrightarrow> (\<exists>len. c = chunk_pattern chunk len \<and> (len = unat size' \<or> len = whole \<and>
       (\<exists>u e u'. writing W w (file_fd f) path c u \<and> fx_ftruncate X (file_fd f) (sint size') u = (Errno e, u')))))"
proof -
  let ?block = "file_alignment f" and ?fd = "file_fd f"
  let ?chunk = "max ?block least" and ?padded = "(size' + ?block - 1) div ?block * ?block"
  let ?buffer = "raw\<lparr>sp_bytes := fill_pattern 0 (unat ?chunk) (sp_bytes raw)\<rparr>"
  have rl: "unat ?chunk \<le> length (sp_bytes raw)" using raw(1) by (simp add: span_size_def)
  have pat: "take k (sp_bytes ?buffer) = map pattern_byte [0..<k]" if "k \<le> unat ?chunk" for k
    using take_fill_pattern [OF rl that] by simp
  have buf: "unat ?chunk \<le> span_size ?buffer" using fill_pattern_result [of 0 "unat ?chunk" "sp_bytes raw"] rl
    by (simp add: span_size_def)
  note sizes = write_sizes [OF block(1,2) fit]
  have al_chunk: "a dvd unat ?chunk" using block(3) least by (simp add: max_def)
  have al_padded: "a dvd unat ?padded" unfolding sizes(4) using block(3) by simp
  have al_buffer: "a dvd unat (sp_addr ?buffer)" using dvd_trans [OF block(3) raw(2)] by simp
  have start: "writing W w ?fd path (chunk_pattern (unat ?chunk) (unat (0 :: u64))) w2" using wr by (simp add: chunk_pattern_def)
  from write_loop_correct [OF law fd(1) sizes(1,2) buf al_chunk al_padded al_buffer pat start] obtain ok w3 c where
    l: "write_loop K f ?chunk ?padded ?buffer 0 w2 = Some (ok, w3)" "writing W w ?fd path c w3"
      "ok \<longrightarrow> c = chunk_pattern (unat ?chunk) (unat ?padded)" by auto
  show ?thesis
  proof (cases ok)
    case False
    with o al block l(1,2) show ?thesis
      by (intro exI [of _ False] exI [of _ c] exI [of _ w3]) (simp add: write_direct_def Let_def)
  next
    case True
    obtain t w4 where t: "fx_ftruncate X ?fd (sint size') w3 = (t, w4)" by (metis prod.exhaust)
    have wr3: "writing W w ?fd path (chunk_pattern (unat ?chunk) (unat ?padded)) w3" using l(2,3) True by simp
    have small: "unat size' < 2 ^ 63" using fit(1) by simp
    from truncate_pattern [OF law small sizes(3) wr3 t] obtain len where
      len: "writing W w ?fd path (chunk_pattern (unat ?chunk) len) (if ?padded \<noteq> size' then w4 else w3)"
        "len = unat size' \<or> len = unat ?padded \<and> (\<exists>e. t = Errno e)" by blast
    have "write_direct K X least path size' w = Some (True, snd (file_close K f (if ?padded \<noteq> size' then w4 else w3)))"
      using o al block l(1) True t by (simp add: write_direct_def Let_def)
    moreover have "len = unat size' \<or> len = whole \<and>
       (\<exists>u e u'. writing W w ?fd path (chunk_pattern chunk len) u \<and> fx_ftruncate X ?fd (sint size') u = (Errno e, u'))"
      using len(2) wr3 t unfolding whole_def chunk_def sizes(4) [symmetric] by blast
    ultimately show ?thesis using len(1) unfolding chunk_def by blast
  qed
qed

lemma write_direct_correct:
  assumes "disk_law K X W a n" and "dv_good W w" and "unat size' + unat n < 2 ^ 63" and "unat least < 2 ^ 63"
    and "a dvd unat least"
  shows "\<exists>ok w'. write_direct K X least path size' w = Some (ok, w') \<and> dv_good W w' \<and> dv_open W w' = dv_open W w \<and>
    (\<forall>q. q \<noteq> path \<longrightarrow> dv_disk W w' q = dv_disk W w q) \<and>
    (ok \<longrightarrow> (\<exists>f w1 chunk len. file_open K path DirectWrite w = (Inr f, w1) \<and> chunk = unat (max (file_alignment f) least) \<and>
       dv_disk W w' path = Some (chunk_pattern chunk len) \<and>
       (256 dvd chunk \<longrightarrow> chunk_pattern chunk len = map pattern_byte [0..<len]) \<and>
       (len = unat size' \<or>
        len = (unat size' + unat (file_alignment f) - 1) div unat (file_alignment f) * unat (file_alignment f) \<and>
        (\<exists>v e v'. dv_disk W v path = dv_disk W w' path \<and> fx_ftruncate X (file_fd f) (sint size') v = (Errno e, v')))))"
proof -
  note law = assms(1)
  obtain r1 w1 where o: "file_open K path DirectWrite w = (r1, w1)" by (metis prod.exhaust)
  note o1 = open_direct_write [OF law assms(2) o]
  have fail: ?thesis if "write_direct K X least path size' w = Some (False, v)"
    "dv_good W v \<and> dv_open W v = dv_open W w \<and> (\<forall>q. q \<noteq> path \<longrightarrow> dv_disk W v q = dv_disk W w q)" for v
    using that by (intro exI [of _ False] exI [of _ v]) simp
  show ?thesis
  proof (cases r1)
    case (Inl e)
    with o o1 show ?thesis by (intro fail [of w1]) (simp_all add: write_direct_def)
  next
    case (Inr f)
    let ?block = "file_alignment f" and ?fd = "file_fd f"
    let ?chunk = "max ?block least"
    have fd: "0 \<le> ?fd" "dv_open W w ?fd = None" and wr1: "writing W w ?fd path [] w1"
      and block: "?block \<noteq> 0" "?block \<le> n" "a dvd unat ?block" using o1 Inr by simp_all
    obtain x w2 where x: "fp_alloc K ?chunk ?block w1 = (x, w2)" by (metis prod.exhaust)
    have "dv_good W w1" using wr1 by (simp add: writing_def)
    from disk_lawD(2) [OF law, unfolded disk_alloc_law_def, rule_format, OF this x]
    have al: "still W w1 w2" "\<forall>s. x = Inr s \<longrightarrow> unat ?chunk \<le> span_size s \<and> unat ?block dvd unat (sp_addr s)" by simp_all
    have wr2: "writing W w ?fd path [] w2" by (rule writing_still [OF wr1 al(1)])
    show ?thesis
    proof (cases x)
      case (Inl what)
      with o Inr x close_writing [OF law wr2 fd] show ?thesis
        by (intro fail [of "snd (file_close K f w2)"]) (simp_all add: write_direct_def Let_def)
    next
      case raw: (Inr raw)
      from write_direct_allocated [OF law assms(3-5) fd block o [unfolded Inr] x [unfolded raw] wr2] al(2) raw
      obtain ok c v where run: "write_direct K X least path size' w = Some (ok, snd (file_close K f v))"
        and wr: "writing W w ?fd path c v"
        and c: "ok \<longrightarrow> (\<exists>len. c = chunk_pattern (unat ?chunk) len \<and> (len = unat size' \<or>
          len = (unat size' + unat ?block - 1) div unat ?block * unat ?block \<and>
          (\<exists>u e u'. writing W w ?fd path c u \<and> fx_ftruncate X ?fd (sint size') u = (Errno e, u'))))" by blast
      let ?w' = "snd (file_close K f v)"
      note cls = close_writing [OF law wr fd]
      have trunc: "dv_disk W u path = dv_disk W ?w' path" if "writing W w ?fd path c u" for u
        using that cls by (simp add: writing_def)
      have "\<exists>chunk len. chunk = unat ?chunk \<and> dv_disk W ?w' path = Some (chunk_pattern chunk len) \<and>
         (256 dvd chunk \<longrightarrow> chunk_pattern chunk len = map pattern_byte [0..<len]) \<and>
         (len = unat size' \<or> len = (unat size' + unat ?block - 1) div unat ?block * unat ?block \<and>
          (\<exists>v e v'. dv_disk W v path = dv_disk W ?w' path \<and> fx_ftruncate X ?fd (sint size') v = (Errno e, v')))" if ok
      proof -
        from c that obtain len where len: "c = chunk_pattern (unat ?chunk) len"
          "len = unat size' \<or> len = (unat size' + unat ?block - 1) div unat ?block * unat ?block \<and>
          (\<exists>u e u'. writing W w ?fd path c u \<and> fx_ftruncate X ?fd (sint size') u = (Errno e, u'))" by blast
        have "dv_disk W ?w' path = Some (chunk_pattern (unat ?chunk) len)" using cls len(1) by simp
        moreover have "256 dvd unat ?chunk \<longrightarrow> chunk_pattern (unat ?chunk) len = map pattern_byte [0..<len]"
          by (simp add: chunk_pattern_plain)
        moreover have "len = unat size' \<or> len = (unat size' + unat ?block - 1) div unat ?block * unat ?block \<and>
          (\<exists>v e v'. dv_disk W v path = dv_disk W ?w' path \<and> fx_ftruncate X ?fd (sint size') v = (Errno e, v'))"
          using len(2) trunc by blast
        ultimately show ?thesis by blast
      qed
      then obtain chunk len where res: "ok \<longrightarrow> chunk = unat ?chunk \<and> dv_disk W ?w' path = Some (chunk_pattern chunk len) \<and>
         (256 dvd chunk \<longrightarrow> chunk_pattern chunk len = map pattern_byte [0..<len]) \<and>
         (len = unat size' \<or> len = (unat size' + unat ?block - 1) div unat ?block * unat ?block \<and>
          (\<exists>v e v'. dv_disk W v path = dv_disk W ?w' path \<and> fx_ftruncate X ?fd (sint size') v = (Errno e, v')))" by blast
      show ?thesis
      proof (rule exI [of _ ok], rule exI [of _ ?w'], intro conjI impI)
        show "write_direct K X least path size' w = Some (ok, ?w')" by (rule run)
        show "dv_good W ?w'" "dv_open W ?w' = dv_open W w" "\<forall>q. q \<noteq> path \<longrightarrow> dv_disk W ?w' q = dv_disk W w q" using cls by blast+
      qed (rule exI [of _ f], rule exI [of _ w1], rule exI [of _ chunk], rule exI [of _ len], use o Inr res in blast)
    qed
  qed
qed

section \<open>The set of files\<close>

text \<open>What the fallback promises: a stream touches its own file only. A directory is made beside the files.\<close>

definition touches_only :: "'w disk_view \<Rightarrow> string set \<Rightarrow> 'w \<Rightarrow> 'w \<Rightarrow> bool" where
  "touches_only W P w w' \<longleftrightarrow> dv_good W w' \<and> dv_open W w' = dv_open W w \<and> (\<forall>q. q \<notin> P \<longrightarrow> dv_disk W w' q = dv_disk W w q)"

definition out_stream_law :: "'w fixture_fs \<Rightarrow> 'w disk_view \<Rightarrow> bool" where
  "out_stream_law X W \<longleftrightarrow> (\<forall>p w. dv_good W w \<longrightarrow>
     touches_only W {p} w (snd (fx_out_open X p w)) \<and> (\<forall>bs. touches_only W {p} w (snd (fx_out_write X p bs w))) \<and>
     touches_only W {p} w (fx_out_close X p w) \<and> still W w (fx_ensure_directory X p w))"

lemma touches_only_trans:
  "touches_only W P w w1 \<Longrightarrow> touches_only W P' w1 w2 \<Longrightarrow> P \<subseteq> R \<Longrightarrow> P' \<subseteq> R \<Longrightarrow> touches_only W R w w2"
  unfolding touches_only_def by (metis subsetD)

lemmas touches_same_trans = touches_only_trans [OF _ _ subset_refl subset_refl]

lemma touches_only_good: "touches_only W P w w' \<Longrightarrow> dv_good W w'"
  by (simp add: touches_only_def)

lemma stream_loop_touches:
  assumes law: "out_stream_law X W"
  shows "dv_good W w \<Longrightarrow> touches_only W {path} w (stream_loop X path chunk size' good written w)"
proof (induction "size' - written" arbitrary: good written w rule: less_induct)
  case less
  show ?case
  proof (cases "good \<and> written < size' \<and> chunk \<noteq> []")
    case True
    let ?n = "min (length chunk) (size' - written)"
    obtain good' w' where o: "fx_out_write X path (take ?n chunk) w = (good', w')" by (metis prod.exhaust)
    have w': "touches_only W {path} w w'" using law less.prems o unfolding out_stream_law_def by (metis snd_conv)
    have "size' - (written + ?n) < size' - written" using True by (auto simp: min_def neq_Nil_conv)
    from less.hyps [OF this touches_only_good [OF w'], of good'] have
      "touches_only W {path} w (stream_loop X path chunk size' good' (written + ?n) w')"
      by (rule touches_only_trans [OF w']) simp_all
    with True o show ?thesis by (subst stream_loop.simps) (simp add: Let_def)
  next
    case False
    with less.prems show ?thesis by (subst stream_loop.simps) (auto simp: touches_only_def)
  qed
qed

text \<open>\<open>ensure_file\<close> always returns the path, and leaves a file of the right size alone.\<close>

lemma ensure_file_correct:
  assumes law: "disk_law K X W a n" "out_stream_law X W" and good: "dv_good W w"
    and fit: "unat size' + unat n < 2 ^ 63" "unat least < 2 ^ 63" "a dvd unat least"
  shows "\<exists>w'. ensure_file K X least path size' w = Some (path, w') \<and> touches_only W {path} w w' \<and>
    (fx_exists X path w \<and> fx_file_size X path w = size' \<longrightarrow> w' = w)"
proof (cases "fx_exists X path w \<and> fx_file_size X path w = size'")
  case True
  with good show ?thesis by (simp add: ensure_file_def touches_only_def)
next
  case False
  from write_direct_correct [OF law(1) good fit, of path] obtain ok w1 where
    run: "write_direct K X least path size' w = Some (ok, w1)" and w1: "touches_only W {path} w w1"
    unfolding touches_only_def by blast
  show ?thesis
  proof (cases ok)
    case True
    with False run w1 show ?thesis by (auto simp: ensure_file_def)
  next
    case no: False
    let ?chunk = "fill_pattern 0 (unat least) (replicate (unat least) 0)"
    obtain good2 w2 where o: "fx_out_open X path w1 = (good2, w2)" by (metis prod.exhaust)
    have w2: "touches_only W {path} w1 w2"
      using law(2) touches_only_good [OF w1] o unfolding out_stream_law_def by (metis snd_conv)
    let ?w3 = "stream_loop X path ?chunk (unat size') good2 0 w2"
    have w3: "touches_only W {path} w2 ?w3" by (rule stream_loop_touches [OF law(2) touches_only_good [OF w2]])
    have w4: "touches_only W {path} ?w3 (fx_out_close X path ?w3)"
      using law(2) touches_only_good [OF w3] by (simp add: out_stream_law_def)
    have "touches_only W {path} w (fx_out_close X path ?w3)"
      by (rule touches_same_trans [OF touches_same_trans [OF touches_same_trans [OF w1 w2] w3] w4])
    moreover have "ensure_file K X least path size' w = Some (path, fx_out_close X path ?w3)"
      using no run o unfolding ensure_file_def if_not_P [OF False] by simp
    ultimately show ?thesis using False by blast
  qed
qed

text \<open>The shard files, and no other, may change.\<close>

definition shard_path :: "string \<Rightarrow> nat \<Rightarrow> string" where
  "shard_path dir i = dir @ ''/shard-'' @ decimal i @ ''.bin''"

lemma ensure_shard_files_correct:
  assumes law: "disk_law K X W a n" "out_stream_law X W" and fit: "unat size' + unat n < 2 ^ 63" "unat least < 2 ^ 63" "a dvd unat least"
  shows "dv_good W w \<Longrightarrow> \<exists>w'. ensure_shard_files K X least dir i k size' w = Some w' \<and>
    touches_only W (shard_path dir ` {i..<i + k}) w w'"
proof (induction k arbitrary: i w)
  case 0
  then show ?case by (simp add: touches_only_def)
next
  case (Suc k)
  from ensure_file_correct [OF law Suc.prems fit, of "shard_path dir i"] obtain w1 where
    run: "ensure_file K X least (shard_path dir i) size' w = Some (shard_path dir i, w1)"
    and w1: "touches_only W {shard_path dir i} w w1" by blast
  from Suc.IH [OF touches_only_good [OF w1], of "i + 1"] obtain w2 where
    rest: "ensure_shard_files K X least dir (i + 1) k size' w1 = Some w2"
    and w2: "touches_only W (shard_path dir ` {i + 1..<i + 1 + k}) w1 w2" by blast
  have "touches_only W (shard_path dir ` {i..<i + Suc k}) w w2"
    by (rule touches_only_trans [OF w1 w2]) auto
  with run rest show ?case by (simp add: shard_path_def)
qed

lemma ensure_shards_correct:
  assumes law: "disk_law K X W a n" "out_stream_law X W" and good: "dv_good W w"
    and fit: "unat size' + unat n < 2 ^ 63" "unat least < 2 ^ 63" "a dvd unat least"
  shows "\<exists>w'. ensure_shards K X least data_dir name k size' w = Some (data_dir @ ''/'' @ name, w') \<and>
    touches_only W (shard_path (data_dir @ ''/'' @ name) ` {..<k}) w w'"
proof -
  let ?dir = "data_dir @ ''/'' @ name"
  let ?w = "fx_ensure_directory X ?dir w"
  have "still W w ?w" using law(2) good by (simp add: out_stream_law_def)
  then have w: "touches_only W {} w ?w" by (simp add: still_def touches_only_def)
  from ensure_shard_files_correct [OF law fit touches_only_good [OF w], of ?dir 0 k] obtain w' where
    run: "ensure_shard_files K X least ?dir 0 k size' ?w = Some w'"
    and w': "touches_only W (shard_path ?dir ` {0..<0 + k}) ?w w'" by blast
  have "touches_only W (shard_path ?dir ` {..<k}) w w'"
    by (rule touches_only_trans [OF w w']) (auto simp: atLeast0LessThan)
  with run show ?thesis by (simp add: ensure_shards_def Let_def)
qed

lemma mini_stream_law: "out_stream_law mini_fx mini_view"
  by (auto simp: out_stream_law_def touches_only_def still_def mini_fx_def mini_view_def)

section \<open>Property\<close>

text \<open>
  Property C40 (the benchmark file). \<open>write_direct\<close> always returns, leaves no descriptor open and touches no other file. When it
  says that it has succeeded, the file holds the pattern, written in chunks of at least \<open>least\<close> bytes and whole blocks: with
  the size that was asked for, or, only when \<open>ftruncate\<close> has failed, which nobody looks at, with exactly that size rounded up to a
  multiple of the block that the file was opened with. Every write is aligned: the disk promises nothing about a
  direct write whose offset, size or address is not a multiple of \<open>a\<close>. For chunks of a multiple of 256 bytes, as those of 1
  MiB, byte \<open>i\<close> is that of the pattern.
\<close>

theorem write_direct_writes_pattern:
  assumes "disk_law K X W a n" and "dv_good W w" and "unat size' + unat n < 2 ^ 63" and "unat least < 2 ^ 63"
    and "a dvd unat least"
  shows "\<exists>ok w'. write_direct K X least path size' w = Some (ok, w') \<and> dv_good W w' \<and> dv_open W w' = dv_open W w \<and>
    (\<forall>q. q \<noteq> path \<longrightarrow> dv_disk W w' q = dv_disk W w q) \<and>
    (ok \<longrightarrow> (\<exists>f w1 chunk len. file_open K path DirectWrite w = (Inr f, w1) \<and> chunk = unat (max (file_alignment f) least) \<and>
       dv_disk W w' path = Some (chunk_pattern chunk len) \<and>
       (256 dvd chunk \<longrightarrow> chunk_pattern chunk len = map pattern_byte [0..<len]) \<and>
       (len = unat size' \<or>
        len = (unat size' + unat (file_alignment f) - 1) div unat (file_alignment f) * unat (file_alignment f) \<and>
        (\<exists>v e v'. dv_disk W v path = dv_disk W w' path \<and> fx_ftruncate X (file_fd f) (sint size') v = (Errno e, v')))))"
  using assms by (rule write_direct_correct)

theorem write_direct_writes_pattern_witness:
  "\<exists>w'. write_direct mini_sys mini_fx 4 ''d'' 6 \<lparr>md_files = [], md_open = [], md_next = 3\<rparr> = Some (True, w') \<and>
     map_of (md_open w') = Map.empty \<and> map_of (md_files w') ''d'' = Some [7, 38, 69, 100, 7, 38]"
proof -
  let ?w = "\<lparr>md_files = [], md_open = [], md_next = 3\<rparr>"
  let ?call = "write_direct mini_sys mini_fx 4 ''d'' 6 ?w"
  have good: "dv_good mini_view ?w" by (simp add: mini_view_def)
  have small: "unat (6 :: u64) + unat (4 :: u64) < 2 ^ 63" "unat (4 :: u64) < 2 ^ 63" "4 dvd unat (4 :: u64)" by simp_all
  have "map_option (\<lambda>(ok, w). (ok, map_option length (map_of (md_files w) ''d''))) ?call = Some (True, Some 6)" by code_simp
  then obtain w' c where run: "?call = Some (True, w')" "map_of (md_files w') ''d'' = Some c" "length c = 6" by auto
  have "map_option file_alignment (case file_open mini_sys ''d'' DirectWrite ?w of (Inr f, _) \<Rightarrow> Some f | _ \<Rightarrow> None) = Some 4"
    by code_simp
  then have block: "file_open mini_sys ''d'' DirectWrite ?w = (Inr f, w1) \<Longrightarrow> file_alignment f = 4" for f w1 by simp
  from write_direct_writes_pattern [OF mini_law good small, of "''d''"] obtain f w1 chunk len where
    r: "dv_open mini_view w' = dv_open mini_view ?w" "file_open mini_sys ''d'' DirectWrite ?w = (Inr f, w1)"
      "chunk = unat (max (file_alignment f) 4)" "dv_disk mini_view w' ''d'' = Some (chunk_pattern chunk len)"
    unfolding run(1) option.inject prod.inject by blast
  have "c = chunk_pattern chunk len" "chunk = 4" using r(3,4) block [OF r(2)] run(2) by (simp_all add: mini_view_def)
  with run(3) have "c = chunk_pattern 4 6" by simp
  also have "\<dots> = [7, 38, 69, 100, 7, 38]" by code_simp
  finally show ?thesis using run(1,2) r(1) by (simp add: mini_view_def)
qed

end
