(* ===== verification/Spec2Isabelle.thy ===== *)
theory Spec2Isabelle
  imports Pipeline Manifest Dataset Reader Sink Mmap BenchRead BenchDataset BenchConcurrent BenchFixture
begin

text \<open>
  dsio reads training data from files on local disks. Its parts, from the bottom up:

  \<^item> \<open>src/align.cpp\<close>, \<open>include/dsio/align.hpp\<close>: rounding to powers of two, the block size of a file.
  \<^item> \<open>src/file.cpp\<close>: a descriptor with positional reads and writes.
  \<^item> \<open>src/reader.cpp\<close>, \<open>src/sink.cpp\<close>, \<open>src/mmap.cpp\<close>: three ways to get at the bytes of a file: block by block,
    into a memory region of the caller, as a mapping.
  \<^item> \<open>include/dsio/backend.hpp\<close>: asynchronous batches of reads, implemented by \<open>src/thread_backend.cpp\<close> on a
    thread pool and by \<open>src/uring.cpp\<close> on a kernel ring; \<open>open_backend\<close> takes the ring where the kernel
    has one.
  \<^item> \<open>src/shard.cpp\<close>: shards (windows of files), sets of shards, their manifests.
  \<^item> \<open>src/dataset.cpp\<close>: the shard stream, which keeps segment reads of one shard in flight on a backend and
    hands out the bytes of all shards in order, and \<open>for_each_batch\<close>, in which a worker reads batches of
    the stream ahead of the callback.
  \<^item> \<open>bench/\<close>: the programs that time all this, clients of the file, the backends, the mapping and \<open>for_each_batch\<close>, with the
    files that they read.

  \<^bold>\<open>Theories and the code they model.\<close>

  \<^item> \<^theory_text>\<open>Dsio_Prelude\<close>: machine words, error values (a constructor for every error that the code can return),
    windows of byte lists, cutting into pieces.
  \<^item> \<^theory_text>\<open>Outside\<close>: system calls, allocator, thread pool and file system as records of functions over an
    abstract world, and their documented behaviour as predicates. \<^theory_text>\<open>Memfs\<close> is a concrete world, files in
    memory, in which the predicates hold; the witnesses use it.
  \<^item> \<^theory_text>\<open>Disk\<close>: what opening, writing and closing promise about the files of a disk and the flags of its descriptors; a direct
    write is promised something only if it is aligned. \<^theory_text>\<open>MemDisk\<close> is a concrete disk.
  \<^item> \<^theory_text>\<open>Align\<close>, \<^theory_text>\<open>File\<close>: one definition for each function of \<open>align.hpp\<close>, \<open>align.cpp\<close> and \<open>file.cpp\<close>; a \<open>File\<close>
    is a record of its members. The constructors, assignments and the destructor are functions that return
    the object and what is left in the other one.
  \<^item> \<^theory_text>\<open>Reader\<close>, \<^theory_text>\<open>Sink\<close>, \<^theory_text>\<open>Mmap\<close>: the same for the three kinds of access. The contract of the abstract \<open>Sink\<close> is the
    locale \<open>sink\<close>, which the host sink interprets. \<^theory_text>\<open>Mmap\<close> ends with a concrete world of mappings.
  \<^item> \<^theory_text>\<open>Backend\<close>: the abstract class as a record of its functions, and its contract, the locale \<open>async_backend\<close>:
    which requests are in flight, that completions tell the truth about the buffers, that no other
    buffer changes, and that a backend with nothing in flight is destroyed without effect, also after an error.
  \<^item> \<^theory_text>\<open>ThreadBackend\<close>, \<^theory_text>\<open>Uring\<close>: the two implementations; \<^theory_text>\<open>UringContract\<close> states what liburing promises and
    interprets \<open>async_backend\<close> on the ring backend and on whatever \<open>open_backend\<close> returns, \<^theory_text>\<open>MemRing\<close> is a
    concrete ring, and \<^theory_text>\<open>UringStream\<close> draws the conclusions.
  \<^item> \<^theory_text>\<open>Shard\<close>, \<^theory_text>\<open>Manifest\<close>: shards, and loading, saving and discovering manifests against a reference of what a
    manifest denotes.
  \<^item> \<^theory_text>\<open>ShardStream\<close>, \<^theory_text>\<open>ShardReader\<close>, \<^theory_text>\<open>Pipeline\<close>: the class \<open>ShardStream\<close> over any backend, its invariant, its
    refinement of a list of bytes (in the locale \<open>shard_reader\<close>), and how full the pipeline gets.
  \<^item> \<^theory_text>\<open>Channel\<close>, \<^theory_text>\<open>Batches\<close>, \<^theory_text>\<open>BatchRun\<close>, \<^theory_text>\<open>Dataset\<close>: the channels of ForgeFP as a parameter, \<open>for_each_batch\<close> as two
    threads whose steps interleave in any order, its invariants over any source of bytes (the locale
    \<open>byte_source\<close>), and the theorems for the shard stream.
  \<^item> \<^theory_text>\<open>BenchRead\<close>, \<^theory_text>\<open>BenchDataset\<close>, \<^theory_text>\<open>BenchConcurrent\<close>, \<^theory_text>\<open>BenchFixture\<close>: \<open>read_bench.cpp\<close>, \<open>dataset_bench.cpp\<close> and \<open>bench_fixture.hpp\<close>. A
    range loop of Google Benchmark takes the number of its iterations, or a schedule of the threads for each, as an argument. The lemmas
    about queued rounds are proved in the locales \<open>async_backend\<close> and \<open>shard_reader\<close>. \<^theory_text>\<open>BenchConcurrent\<close> has the workers of
    \<open>BM_DatasetConcurrent\<close>, a list of walks over one world, and interprets \<open>byte_source\<close> on a stream that others share the descriptors with;
    \<^theory_text>\<open>BenchFixture\<close> writes to a disk.

  \<^bold>\<open>State and operations.\<close> An operation takes the members of its object and the world and returns them
  updated, with its result, an error or a value (\<open>fp::Outcome\<close>). \<open>std::uint64_t\<close> and \<open>std::size_t\<close> values that the code computes
  with are 64-bit words; numbers of bytes in memory are lengths. Memory that a backend
  writes while reads are in flight is the list of buffers that its operations return. A result \<open>None\<close> is an
  access out of bounds, a division by zero, the use of an object that was never created, or a call that
  does not return; that it does not happen is part of the theorems.

  \<^bold>\<open>What is shown.\<close>

  \<^item> Reading: the stream delivers the bytes of the shard windows in order whatever the order in which the
    kernel or the workers complete the reads (\<^theory_text>\<open>ShardReader\<close>, \<^theory_text>\<open>UringStream\<close>); the reader, the sink and the mapping
    deliver the windows of their files (\<^theory_text>\<open>Reader\<close>, \<^theory_text>\<open>Sink\<close>, \<^theory_text>\<open>Mmap\<close>).
  \<^item> Batches: under every interleaving, the callback is given the data set in pieces of \<open>batch_bytes\<close>; there is a bound on
    the number of steps, no deadlock, no lost error, and a bound on the memory. However the function is left, the worker has
    ended and no descriptor stays open; what is named as undefined is a stream destroyed with reads in flight (\<^theory_text>\<open>Dataset\<close>).
  \<^item> Manifests: what \<open>load\<close> accepts is exactly the reference, and what \<open>save\<close> writes is loaded back (\<^theory_text>\<open>Manifest\<close>).
  \<^item> Ownership: descriptors and mappings are closed exactly once, on every path (\<^theory_text>\<open>File\<close>, \<^theory_text>\<open>Reader\<close>, \<^theory_text>\<open>Mmap\<close>); a
    stream at its end holds no file, no backend and no read (\<^theory_text>\<open>UringStream\<close>).
  \<^item> Backends: both keep the contract; the queue never holds more than its depth.
  \<^item> Clients: a round of queued reads fills every buffer with its block and ends with nothing in flight; what the benchmarks report is
    the bytes that exist; workers get disjoint shares; the pattern written to a file is what the file then holds (\<^theory_text>\<open>BenchRead\<close>,
    \<^theory_text>\<open>BenchDataset\<close>, \<^theory_text>\<open>BenchFixture\<close>).
  \<^item> Streams side by side: a stream depends on no descriptor but its own (a law of \<open>async_backend\<close>) and touches no other, so any number of
    them can interleave; each walk still delivers its share, the shared counter ends at the sum, and no worker waits for
    another, also after reads have failed: every state has a schedule that ends the round (\<^theory_text>\<open>BenchConcurrent\<close>).
  \<^item> Lemmas that end in a concrete run show where the code does less than it says: \<^theory_text>\<open>Pipeline\<close> (buffers freed
    before the backend that writes them, slots lost after a truncated shard, bytes skipped after a short
    completion), \<^theory_text>\<open>UringStream\<close> (a wait that stops at half, a failed submission that stays counted), \<^theory_text>\<open>Manifest\<close>
    (paths and shards that do not survive a round trip), \<^theory_text>\<open>Dataset\<close> (the race at an early stop), \<^theory_text>\<open>BenchRead\<close> (a benchmark that leaves
    with reads in flight, and one that uses a size it does not have).

  \<^bold>\<open>Loops.\<close> There is no fuel: loops that recurse on data are structural or have a measure, loops that wait for the
  world are partial functions into \<open>option\<close>, and the theorems show that they return. That the number of
  signals that still interrupt a call is finite is a named hypothesis; so are full reads (a read is short only at the
  end of a file) where a stream is read, blocks no larger than a segment, and segments below 4 GiB where the ring may be used.

  \<^bold>\<open>Not modelled.\<close> ForgeFP, liburing, the kernel, \<open>std::filesystem\<close> and the file streams are parameters, because their code is not in the
  repository. Exceptions other than those of the channels and of the callback (\<open>std::bad_alloc\<close> from a vector, a worker thread of
  \<open>for_each_batch\<close> that cannot be started) end the program or the call in the code and have no counterpart here. The texts of
  the error messages are represented by constructors with the values that the texts show. Streams
  that run side by side interleave by the steps of \<open>for_each_batch\<close>, of which a call of \<open>read\<close> is one: what they share is the
  table of descriptors, and the order of system calls inside two such calls is not taken apart. The labels of the benchmarks, their
  registration, the tests and the build files are left out.
\<close>

end
